(* ===== verification/Prelude.thy ===== *)
theory Prelude
  imports Main "HOL-Library.Word"
begin

text \<open>
  Shared vocabulary of the development: the machine-integer types of the code, the buffer and
  string helpers several components use, the collections of simplification rules, and the
  generic lemmas about them.

  Text that the code handles as a C string or an Arduino \<open>String\<close> is a HOL \<open>string\<close>: a HOL
  \<open>char\<close> has eight bits, as a \<open>char\<close> of the Xtensa compiler has (where it is unsigned).
  Bytes on which the code computes are \<open>8 word\<close>.
\<close>

section \<open>Machine integers\<close>

type_synonym u8 = "8 word"
type_synonym u16 = "16 word"
type_synonym u32 = "32 word"
type_synonym u64 = "64 word"

named_theorems queue_simps \<open>rewrite rules for ring buffers\<close>
named_theorems wire_simps \<open>rewrite rules for the serial line\<close>

text \<open>The two readings of a byte, as a number and as a character.\<close>

definition byte_char :: "u8 \<Rightarrow> char" where
  "byte_char b = char_of (unat b)"

definition char_byte :: "char \<Rightarrow> u8" where
  "char_byte c = of_nat (of_char c)"

lemma unat_u8 [simp]: "unat (b :: u8) < 256"
  using unsigned_less [of b, where ?'a = nat] by simp

lemma unat_u16 [simp]: "unat (b :: u16) < 65536"
  using unsigned_less [of b, where ?'a = nat] by simp

lemma of_char_less [simp]: "of_char c < (256 :: nat)"
  by (metis char_of_char mod_less_divisor of_char_of zero_less_numeral)

lemma char_byte_byte_char [simp]: "char_byte (byte_char b) = b"
proof -
  have "of_char (char_of (unat b) :: char) = unat b mod 256" by (rule of_char_of)
  then show ?thesis by (simp add: char_byte_def byte_char_def)
qed

lemma byte_char_char_byte [simp]: "byte_char (char_byte c) = c"
  by (simp add: byte_char_def char_byte_def unat_of_nat)

section \<open>Buffers\<close>

text \<open>\<open>memcpy(dst + pos, src, len)\<close> on a buffer held as a list.\<close>

definition blit :: "'a list \<Rightarrow> nat \<Rightarrow> 'a list \<Rightarrow> 'a list" where
  "blit dst pos src = take pos dst @ src @ drop (pos + length src) dst"

lemma length_blit [simp]: "pos + length src \<le> length dst \<Longrightarrow> length (blit dst pos src) = length dst"
  by (simp add: blit_def)

lemma nth_blit:
  assumes "pos + length src \<le> length dst" and "i < length dst"
  shows "blit dst pos src ! i =
    (if pos \<le> i \<and> i < pos + length src then src ! (i - pos) else dst ! i)"
using assms by (auto simp: blit_def nth_append min_def)

lemma blit_Cons:
  "k < length dst \<Longrightarrow> blit (dst[k := v]) (Suc k) vs = blit dst k (v # vs)"
  by (simp add: blit_def take_Suc_conv_app_nth drop_update_cancel)

lemma blit_Nil [simp]: "blit dst k [] = dst"
  by (simp add: blit_def)

lemma mod_add_less: "(a::nat) < n \<Longrightarrow> b \<le> n \<Longrightarrow> (a + b) mod n = (if a + b < n then a + b else a + b - n)"
  by (simp add: mod_if)

lemma list_eq_iff_nth: "xs = ys \<longleftrightarrow> length xs = length ys \<and> (\<forall>i < length xs. xs ! i = ys ! i)"
  by (rule list_eq_iff_nth_eq)

end
