(* ===== verification/Codec.thy ===== *)
theory Codec
  imports Prelude
begin

text \<open>
  What a writer of values and the reader that takes them back promise each other, as locales, and what
  follows from it once for all: the written forms of different values differ, and values written one
  after the other with a delimiter can be told apart. The theories of the writers interpret them.
\<close>

section \<open>Texts with delimiters\<close>

fun join_with :: "char \<Rightarrow> string list \<Rightarrow> string" where
  "join_with d [] = []"
| "join_with d [x] = x"
| "join_with d (x # y # zs) = x @ d # join_with d (y # zs)"

fun split_at :: "char \<Rightarrow> string \<Rightarrow> string list" where
  "split_at d [] = [[]]"
| "split_at d (c # cs) =
     (if c = d then [] # split_at d cs
      else case split_at d cs of [] \<Rightarrow> [[c]] | f # fs \<Rightarrow> (c # f) # fs)"

lemma split_at_nonempty: "split_at d s \<noteq> []"
  by (cases s) (auto split: list.split)

lemma split_at_field: "d \<notin> set x \<Longrightarrow> split_at d x = [x]"
  by (induction x) auto

lemma split_at_append: "d \<notin> set x \<Longrightarrow> split_at d (x @ d # s) = x # split_at d s"
  by (induction x) auto

lemma split_join: "xs \<noteq> [] \<Longrightarrow> \<forall>x \<in> set xs. d \<notin> set x \<Longrightarrow> split_at d (join_with d xs) = xs"
  by (induction d xs rule: join_with.induct) (auto simp: split_at_field split_at_append)

lemma join_split: "join_with d (split_at d s) = s"
proof (induction d s rule: split_at.induct)
  case (2 d c cs)
  then show ?case using split_at_nonempty [of d cs]
    by (cases "split_at d cs" rule: list.exhaust; cases "tl (split_at d cs)") (auto split: list.split)
qed simp

lemma split_at_parts: "x \<in> set (split_at d s) \<Longrightarrow> d \<notin> set x"
proof (induction d s arbitrary: x rule: split_at.induct)
  case (2 d c cs)
  then show ?case by (cases "split_at d cs") (auto split: if_splits)
qed simp

section \<open>Writing and reading back\<close>

locale codec =
  fixes enc :: "'a \<Rightarrow> 'b"
    and dec :: "'b \<Rightarrow> 'a option"
    and valid :: "'a \<Rightarrow> bool"
  assumes dec_enc: "valid x \<Longrightarrow> dec (enc x) = Some x"
begin

lemma enc_eq_iff: "valid x \<Longrightarrow> valid y \<Longrightarrow> enc x = enc y \<longleftrightarrow> x = y"
  by (metis dec_enc option.inject)

lemma enc_inj_on: "inj_on enc {x. valid x}"
  by (rule inj_onI) (simp add: enc_eq_iff)

lemma map_enc_eq_iff:
  "list_all valid xs \<Longrightarrow> list_all valid ys \<Longrightarrow> map enc xs = map enc ys \<longleftrightarrow> xs = ys"
  using inj_on_map_eq_map [OF inj_on_subset [OF enc_inj_on], of xs ys] by (auto simp: list_all_iff)

lemma dec_list: "list_all valid xs \<Longrightarrow> those (map (dec \<circ> enc) xs) = Some xs"
  by (induction xs) (simp_all add: dec_enc)

end

text \<open>Written forms that do not contain the delimiter.\<close>

locale delimited_codec = codec enc dec valid
  for enc :: "'a \<Rightarrow> string" and dec and valid +
  fixes d :: char
  assumes no_delim: "valid x \<Longrightarrow> d \<notin> set (enc x)"
begin

lemma split_fields: "xs \<noteq> [] \<Longrightarrow> list_all valid xs \<Longrightarrow> split_at d (join_with d (map enc xs)) = map enc xs"
  by (rule split_join) (auto simp: list_all_iff no_delim)

lemma dec_fields:
  "xs \<noteq> [] \<Longrightarrow> list_all valid xs \<Longrightarrow> those (map dec (split_at d (join_with d (map enc xs)))) = Some xs"
  using dec_list by (simp add: split_fields)

lemma join_eq_iff:
  assumes "xs \<noteq> []" "ys \<noteq> []" "list_all valid xs" "list_all valid ys"
  shows "join_with d (map enc xs) = join_with d (map enc ys) \<longleftrightarrow> xs = ys"
  using split_fields [OF assms(1,3)] split_fields [OF assms(2,4)] map_enc_eq_iff [OF assms(3,4)] by metis

end

text \<open>The non-empty lists of fields are then a codec themselves.\<close>

sublocale delimited_codec \<subseteq> fields: codec
  "\<lambda>xs. join_with d (map enc xs)" "\<lambda>s. those (map dec (split_at d s))" "\<lambda>xs. xs \<noteq> [] \<and> list_all valid xs"
  by unfold_locales (use dec_fields in auto)

end
