(* ===== verification/Fifo.thy ===== *)
theory Fifo
  imports Prelude
begin

text \<open>
  The ring buffer of \<open>src/main/TinyGsmFifo.h\<close>, in which the modem driver keeps the bytes it
  has received for a socket. The template parameter \<open>N\<close> (the size of the array \<open>_b\<close>) is the
  first argument of every operation; \<open>_w\<close> and \<open>_r\<close> are the write and the read index, and one
  cell always stays free. The abstraction \<open>fifo_list\<close> reads the buffer as a list; the locale
  \<open>bounded_queue\<close> states what a client may rely on and the interpretation at the end of the
  theory shows that the ring buffer delivers it.
\<close>

section \<open>State and operations\<close>

record 'a fifo =
  fifo_b :: "'a list"
  fifo_w :: nat
  fifo_r :: nat

definition fifo_inc :: "nat \<Rightarrow> nat \<Rightarrow> nat \<Rightarrow> nat" where
  "fifo_inc N i n = (i + n) mod N"

lemma fifo_inc_eq: "i < N \<Longrightarrow> n \<le> N \<Longrightarrow> fifo_inc N i n = (if i + n < N then i + n else i + n - N)"
  by (simp add: fifo_inc_def mod_add_less)

definition fifo_clear :: "'a fifo \<Rightarrow> 'a fifo" where
  "fifo_clear q = q\<lparr>fifo_r := 0, fifo_w := 0\<rparr>"

text \<open>\<open>int free(void)\<close>: the cells that can still be written.\<close>

definition fifo_free :: "nat \<Rightarrow> 'a fifo \<Rightarrow> int" where
  "fifo_free N q =
     (let s = int (fifo_r q) - int (fifo_w q);
          s' = (if s \<le> 0 then s + int N else s)
      in s' - 1)"

definition fifo_writeable :: "nat \<Rightarrow> 'a fifo \<Rightarrow> bool" where
  "fifo_writeable N q = (fifo_free N q > 0)"

text \<open>\<open>bool put(const T&)\<close>: refuses the element when the next write index would meet \<open>_r\<close>.\<close>

definition fifo_put :: "nat \<Rightarrow> 'a fifo \<Rightarrow> 'a \<Rightarrow> bool \<times> 'a fifo" where
  "fifo_put N q c =
     (let j = fifo_w q; i = fifo_inc N j 1
      in if i = fifo_r q then (False, q)
         else (True, q\<lparr>fifo_b := (fifo_b q)[j := c], fifo_w := i\<rparr>))"

definition fifo_readable :: "'a fifo \<Rightarrow> bool" where
  "fifo_readable q = (fifo_r q \<noteq> fifo_w q)"

definition fifo_size :: "nat \<Rightarrow> 'a fifo \<Rightarrow> nat" where
  "fifo_size N q =
     (let s = int (fifo_w q) - int (fifo_r q)
      in nat (if s < 0 then s + int N else s))"

definition fifo_get :: "nat \<Rightarrow> 'a fifo \<Rightarrow> 'a option \<times> 'a fifo" where
  "fifo_get N q =
     (let r = fifo_r q
      in if r = fifo_w q then (None, q)
         else (Some (fifo_b q ! r), q\<lparr>fifo_r := fifo_inc N r 1\<rparr>))"

text \<open>
  The block operations. The loop variable \<open>c\<close> of the code counts the elements still to move;
  \<open>None\<close> is a call that does not return: with \<open>t\<close> set, the loop waits for the other side of
  the buffer, which in a single thread never moves, and an iteration that copies nothing would
  be repeated for ever.
\<close>

function (sequential) fifo_put_loop ::
    "nat \<Rightarrow> bool \<Rightarrow> 'a fifo \<Rightarrow> 'a list \<Rightarrow> nat \<Rightarrow> ('a fifo \<times> nat) option" where
  "fifo_put_loop N t q p c =
     (if c = 0 then Some (q, c)
      else let f = fifo_free N q in
        if f = 0 then (if t then None else Some (q, c))
        else
          let f = (if int c < f then int c else f);
              w = fifo_w q;
              m = int N - int w;
              k = nat (if f > m then m else f)
          in if k = 0 then None
             else fifo_put_loop N t
                    (q\<lparr>fifo_b := blit (fifo_b q) w (take k p), fifo_w := fifo_inc N w k\<rparr>)
                    (drop k p) (c - k))"
  by pat_completeness auto
termination
  by (relation "measure (\<lambda>(N, t, q, p, c). c)") auto

definition fifo_put_block :: "nat \<Rightarrow> bool \<Rightarrow> 'a fifo \<Rightarrow> 'a list \<Rightarrow> (nat \<times> 'a fifo) option" where
  "fifo_put_block N t q p =
     map_option (\<lambda>(q', c). (length p - c, q')) (fifo_put_loop N t q p (length p))"

function (sequential) fifo_get_loop ::
    "nat \<Rightarrow> bool \<Rightarrow> 'a fifo \<Rightarrow> nat \<Rightarrow> 'a list \<Rightarrow> ('a list \<times> 'a fifo) option" where
  "fifo_get_loop N t q c acc =
     (if c = 0 then Some (acc, q)
      else let f = fifo_size N q in
        if f = 0 then (if t then None else Some (acc, q))
        else
          let f = (if c < f then c else f);
              r = fifo_r q;
              m = int N - int r;
              k = nat (if int f > m then m else int f)
          in if k = 0 then None
             else fifo_get_loop N t (q\<lparr>fifo_r := fifo_inc N r k\<rparr>) (c - k)
                    (acc @ take k (drop r (fifo_b q))))"
  by pat_completeness auto
termination
  by (relation "measure (\<lambda>(N, t, q, c, acc). c)") auto

definition fifo_get_block :: "nat \<Rightarrow> bool \<Rightarrow> 'a fifo \<Rightarrow> nat \<Rightarrow> ('a list \<times> 'a fifo) option" where
  "fifo_get_block N t q n = fifo_get_loop N t q n []"

declare fifo_put_loop.simps [simp del] fifo_get_loop.simps [simp del]

section \<open>Invariant and abstraction\<close>

definition fifo_inv :: "nat \<Rightarrow> 'a fifo \<Rightarrow> bool" where
  "fifo_inv N q \<longleftrightarrow> 0 < N \<and> length (fifo_b q) = N \<and> fifo_w q < N \<and> fifo_r q < N"

definition fifo_list :: "nat \<Rightarrow> 'a fifo \<Rightarrow> 'a list" where
  "fifo_list N q = map (\<lambda>i. fifo_b q ! ((fifo_r q + i) mod N)) [0..<fifo_size N q]"

lemma fifo_size_eq [queue_simps]:
  "fifo_inv N q \<Longrightarrow> fifo_size N q =
     (if fifo_r q \<le> fifo_w q then fifo_w q - fifo_r q else N + fifo_w q - fifo_r q)"
  by (auto simp: fifo_size_def fifo_inv_def Let_def nat_diff_distrib)

lemma fifo_free_eq [queue_simps]:
  "fifo_inv N q \<Longrightarrow> fifo_free N q = int (N - 1 - fifo_size N q)"
  by (auto simp: fifo_size_eq fifo_free_def fifo_inv_def Let_def)

lemma fifo_size_less: "fifo_inv N q \<Longrightarrow> fifo_size N q < N"
  by (auto simp: fifo_size_eq) (auto simp: fifo_inv_def)

lemma length_fifo_list [simp]: "length (fifo_list N q) = fifo_size N q"
  by (simp add: fifo_list_def)

lemma nth_fifo_list:
  "i < fifo_size N q \<Longrightarrow> fifo_list N q ! i = fifo_b q ! ((fifo_r q + i) mod N)"
  by (simp add: fifo_list_def)

text \<open>Advancing an index by \<open>k\<close> moves the size by \<open>k\<close>.\<close>

lemma fifo_size_write:
  assumes "fifo_inv N q" and "k \<le> N - 1 - fifo_size N q" and "length b = N"
  shows "fifo_inv N (q\<lparr>fifo_b := b, fifo_w := fifo_inc N (fifo_w q) k\<rparr>)"
    and "fifo_size N (q\<lparr>fifo_b := b, fifo_w := fifo_inc N (fifo_w q) k\<rparr>) = fifo_size N q + k"
proof -
  let ?q = "q\<lparr>fifo_b := b, fifo_w := fifo_inc N (fifo_w q) k\<rparr>"
  have sz: "fifo_size N q < N" using assms(1) by (rule fifo_size_less)
  have N: "0 < N" "fifo_w q < N" "fifo_r q < N" using assms(1) by (auto simp: fifo_inv_def)
  show inv: "fifo_inv N ?q"
    using assms N by (simp add: fifo_inv_def fifo_inc_def)
  have w: "fifo_w ?q = (if fifo_w q + k < N then fifo_w q + k else fifo_w q + k - N)"
    using N assms(2) by (simp add: fifo_inc_def mod_add_less)
  show "fifo_size N ?q = fifo_size N q + k"
    using fifo_size_eq [OF inv] fifo_size_eq [OF assms(1)] w N assms(2) sz
    by (simp split: if_splits)
qed

lemma fifo_size_read:
  assumes "fifo_inv N q" and "k \<le> fifo_size N q"
  shows "fifo_inv N (q\<lparr>fifo_r := fifo_inc N (fifo_r q) k\<rparr>)"
    and "fifo_size N (q\<lparr>fifo_r := fifo_inc N (fifo_r q) k\<rparr>) = fifo_size N q - k"
proof -
  let ?q = "q\<lparr>fifo_r := fifo_inc N (fifo_r q) k\<rparr>"
  have sz: "fifo_size N q < N" using assms(1) by (rule fifo_size_less)
  have N: "0 < N" "fifo_w q < N" "fifo_r q < N" using assms(1) by (auto simp: fifo_inv_def)
  show inv: "fifo_inv N ?q"
    using assms N by (simp add: fifo_inv_def fifo_inc_def)
  have r: "fifo_r ?q = (if fifo_r q + k < N then fifo_r q + k else fifo_r q + k - N)"
    using N assms(2) sz by (simp add: fifo_inc_def mod_add_less)
  show "fifo_size N ?q = fifo_size N q - k"
    using fifo_size_eq [OF inv] fifo_size_eq [OF assms(1)] r N assms(2) sz
    by (simp split: if_splits)
qed

section \<open>What the operations do to the abstract queue\<close>

lemma fifo_list_write:
  assumes inv: "fifo_inv N q" and room: "length xs \<le> N - 1 - fifo_size N q"
    and fits: "fifo_w q + length xs \<le> N"
  shows "fifo_list N (q\<lparr>fifo_b := blit (fifo_b q) (fifo_w q) xs,
           fifo_w := fifo_inc N (fifo_w q) (length xs)\<rparr>) = fifo_list N q @ xs"
    (is "fifo_list N ?q = _")
proof (rule nth_equalityI)
  have len: "length (fifo_b q) = N" and w: "fifo_w q < N" and r: "fifo_r q < N"
    using inv by (auto simp: fifo_inv_def)
  have size': "fifo_size N ?q = fifo_size N q + length xs"
    using inv room len fits by (intro fifo_size_write(2)) simp_all
  then show "length (fifo_list N ?q) = length (fifo_list N q @ xs)" by simp
  fix i assume "i < length (fifo_list N ?q)"
  then have i: "i < fifo_size N q + length xs" by (simp add: size')
  have sz: "fifo_size N q < N" using inv by (rule fifo_size_less)
  have pos: "(fifo_r q + i) mod N = (if fifo_r q + i < N then fifo_r q + i else fifo_r q + i - N)"
    using r i room sz by (intro mod_add_less) simp_all
  have inside: "(fifo_r q + i) mod N < length (fifo_b q)" using len w by simp
  show "fifo_list N ?q ! i = (fifo_list N q @ xs) ! i"
  proof (cases "i < fifo_size N q")
    case True
    have "\<not> (fifo_w q \<le> (fifo_r q + i) mod N \<and> (fifo_r q + i) mod N < fifo_w q + length xs)"
      using True pos room fifo_size_eq [OF inv] sz w r by (auto split: if_splits)
    then have "blit (fifo_b q) (fifo_w q) xs ! ((fifo_r q + i) mod N) = fifo_b q ! ((fifo_r q + i) mod N)"
      using nth_blit [OF _ inside, of "fifo_w q" xs] fits len by (simp only: if_False)
    then show ?thesis using True i size'
      by (simp add: nth_fifo_list nth_append)
  next
    case False
    have "(fifo_r q + i) mod N = fifo_w q + (i - fifo_size N q)"
      using False i pos fits fifo_size_eq [OF inv] w r by (auto split: if_splits)
    moreover have "blit (fifo_b q) (fifo_w q) xs ! (fifo_w q + (i - fifo_size N q)) = xs ! (i - fifo_size N q)"
      using False i fits len by (subst nth_blit) auto
    ultimately show ?thesis using False i size'
      by (simp add: nth_fifo_list nth_append)
  qed
qed

lemma fifo_list_read:
  assumes inv: "fifo_inv N q" and k: "k \<le> fifo_size N q"
  shows "fifo_list N (q\<lparr>fifo_r := fifo_inc N (fifo_r q) k\<rparr>) = drop k (fifo_list N q)"
    (is "fifo_list N ?q = _")
proof (rule nth_equalityI)
  have size': "fifo_size N ?q = fifo_size N q - k"
    using inv k by (rule fifo_size_read(2))
  then show "length (fifo_list N ?q) = length (drop k (fifo_list N q))" by simp
  fix i assume "i < length (fifo_list N ?q)"
  then have i: "i < fifo_size N q - k" by (simp add: size')
  then have "fifo_list N ?q ! i = fifo_b ?q ! ((fifo_r ?q + i) mod N)"
    by (intro nth_fifo_list) (simp add: size')
  also have "\<dots> = drop k (fifo_list N q) ! i"
    using i by (simp add: nth_fifo_list fifo_inc_def mod_add_left_eq add.assoc)
  finally show "fifo_list N ?q ! i = drop k (fifo_list N q) ! i" .
qed

lemma fifo_block_read:
  assumes inv: "fifo_inv N q" and k: "k \<le> fifo_size N q" and fits: "fifo_r q + k \<le> N"
  shows "take k (drop (fifo_r q) (fifo_b q)) = take k (fifo_list N q)"
proof (rule nth_equalityI)
  have len: "length (fifo_b q) = N" using inv by (simp add: fifo_inv_def)
  then show "length (take k (drop (fifo_r q) (fifo_b q))) = length (take k (fifo_list N q))"
    using k fits by simp
  fix i assume "i < length (take k (drop (fifo_r q) (fifo_b q)))"
  then have "i < k" by simp
  then show "take k (drop (fifo_r q) (fifo_b q)) ! i = take k (fifo_list N q) ! i"
    using k fits len by (simp add: nth_fifo_list)
qed

lemma blit_singleton: "i < length b \<Longrightarrow> blit b i [c] = b[i := c]"
  by (simp add: blit_def upd_conv_take_nth_drop)

lemma fifo_put_full [queue_simps]:
  assumes "fifo_inv N q" and "fifo_size N q = N - 1"
  shows "fifo_put N q c = (False, q)"
proof -
  have "fifo_w q < N" "fifo_r q < N" using assms(1) by (auto simp: fifo_inv_def)
  then have "fifo_inc N (fifo_w q) 1 = fifo_r q"
    using assms(2) fifo_size_eq [OF assms(1)] by (auto simp: fifo_inc_eq split: if_splits)
  then show ?thesis by (simp add: fifo_put_def Let_def)
qed

lemma fifo_put_room:
  assumes inv: "fifo_inv N q" and room: "fifo_size N q < N - 1"
  obtains q' where "fifo_put N q c = (True, q')" "fifo_inv N q'"
    "fifo_list N q' = fifo_list N q @ [c]"
proof -
  let ?q = "q\<lparr>fifo_b := blit (fifo_b q) (fifo_w q) [c], fifo_w := fifo_inc N (fifo_w q) 1\<rparr>"
  have w: "fifo_w q < N" "fifo_r q < N" "length (fifo_b q) = N" using inv by (auto simp: fifo_inv_def)
  have ne: "fifo_inc N (fifo_w q) 1 \<noteq> fifo_r q"
    using room fifo_size_eq [OF inv] w by (auto simp: fifo_inc_eq split: if_splits)
  show thesis
  proof
    show "fifo_put N q c = (True, ?q)"
      using ne w by (simp add: fifo_put_def Let_def blit_singleton)
    show "fifo_inv N ?q" using inv room w by (intro fifo_size_write(1)) simp_all
    show "fifo_list N ?q = fifo_list N q @ [c]"
      using fifo_list_write [OF inv, of "[c]"] room w by simp
  qed
qed

lemma fifo_get_correct:
  assumes inv: "fifo_inv N q"
  shows "fifo_get N q = (case fifo_list N q of [] \<Rightarrow> (None, q)
           | x # xs \<Rightarrow> (Some x, q\<lparr>fifo_r := fifo_inc N (fifo_r q) 1\<rparr>))"
proof (cases "fifo_r q = fifo_w q")
  case True
  then have "fifo_size N q = 0" by (simp add: fifo_size_def)
  then have "fifo_list N q = []" by (simp add: fifo_list_def)
  then show ?thesis using True by (simp add: fifo_get_def Let_def)
next
  case False
  then have pos: "0 < fifo_size N q"
    using fifo_size_eq [OF inv] inv by (auto simp: fifo_inv_def)
  then obtain x xs where l: "fifo_list N q = x # xs"
    by (metis length_fifo_list length_greater_0_conv neq_Nil_conv)
  have "x = fifo_b q ! fifo_r q"
    using nth_fifo_list [OF pos] inv l by (simp add: fifo_inv_def)
  then show ?thesis using False l by (simp add: fifo_get_def Let_def)
qed

section \<open>The block operations\<close>

lemma fifo_put_loop_step:
  assumes inv: "fifo_inv N q" and c: "0 < c" and room: "0 < N - 1 - fifo_size N q"
    and k: "k = min (min c (N - 1 - fifo_size N q)) (N - fifo_w q)"
  shows "fifo_put_loop N t q p c = fifo_put_loop N t
           (q\<lparr>fifo_b := blit (fifo_b q) (fifo_w q) (take k p), fifo_w := fifo_inc N (fifo_w q) k\<rparr>)
           (drop k p) (c - k)"
proof -
  define room where "room = N - 1 - fifo_size N q"
  have f: "fifo_free N q = int room" using fifo_free_eq [OF inv] by (simp add: room_def)
  have w: "fifo_w q < N" using inv by (auto simp: fifo_inv_def)
  have nat_k: "nat (if int N - int (fifo_w q) < (if int c < int room then int c else int room)
      then int N - int (fifo_w q) else (if int c < int room then int c else int room)) = k"
    using w k by (auto simp: min_def room_def)
  have "0 < k" using c room w by (simp add: k)
  then show ?thesis
    unfolding fifo_put_loop.simps [of N t q p c] Let_def f nat_k
    using c room by (simp add: room_def)
qed

lemma fifo_get_loop_step:
  assumes inv: "fifo_inv N q" and c: "0 < c" and data: "0 < fifo_size N q"
    and k: "k = min (min c (fifo_size N q)) (N - fifo_r q)"
  shows "fifo_get_loop N t q c acc = fifo_get_loop N t
           (q\<lparr>fifo_r := fifo_inc N (fifo_r q) k\<rparr>) (c - k) (acc @ take k (drop (fifo_r q) (fifo_b q)))"
proof -
  have r: "fifo_r q < N" using inv by (auto simp: fifo_inv_def)
  have nat_k: "nat (if int N - int (fifo_r q) < int (if c < fifo_size N q then c else fifo_size N q)
      then int N - int (fifo_r q) else int (if c < fifo_size N q then c else fifo_size N q)) = k"
    using r k by (auto simp: min_def)
  have "0 < k" using c data r by (simp add: k)
  then show ?thesis
    unfolding fifo_get_loop.simps [of N t q c acc] Let_def nat_k
    using c data by simp
qed

lemma fifo_put_loop_correct:
  assumes "fifo_inv N q" and "t \<longrightarrow> length p \<le> N - 1 - fifo_size N q"
  shows "\<exists>q'. fifo_put_loop N t q p (length p) =
           Some (q', length p - (N - 1 - fifo_size N q)) \<and> fifo_inv N q' \<and>
           fifo_list N q' = fifo_list N q @ take (N - 1 - fifo_size N q) p"
  using assms
proof (induction "length p" arbitrary: q p rule: less_induct)
  case less
  note inv = \<open>fifo_inv N q\<close>
  let ?room = "N - 1 - fifo_size N q"
  note unfold = fifo_put_loop.simps [of N t q p "length p"] fifo_free_eq [OF inv]
  have w: "fifo_w q < N" "length (fifo_b q) = N" using inv by (auto simp: fifo_inv_def)
  show ?case
  proof (cases "p = [] \<or> ?room = 0")
    case True
    then show ?thesis using less.prems by (auto simp: unfold)
  next
    case False
    define k where "k = min (min (length p) ?room) (N - fifo_w q)"
    define q1 where "q1 = q\<lparr>fifo_b := blit (fifo_b q) (fifo_w q) (take k p),
                            fifo_w := fifo_inc N (fifo_w q) k\<rparr>"
    have k: "0 < k" "k \<le> length p" "k \<le> ?room" "fifo_w q + k \<le> N"
      using False w by (auto simp: k_def)
    have lenk: "length (take k p) = k" using k by simp
    have size1: "fifo_inv N q1" "fifo_size N q1 = fifo_size N q + k"
      unfolding q1_def using inv k w lenk by (auto intro!: fifo_size_write)
    have list1: "fifo_list N q1 = fifo_list N q @ take k p"
      using fifo_list_write [OF inv, of "take k p"] k lenk by (simp add: q1_def)
    have step: "fifo_put_loop N t q p (length p) = fifo_put_loop N t q1 (drop k p) (length (drop k p))"
      using fifo_put_loop_step [OF inv, of "length p" k t p] False by (simp add: k_def q1_def)
    have "length (drop k p) < length p" using k by simp
    moreover have "t \<longrightarrow> length (drop k p) \<le> N - 1 - fifo_size N q1"
      using less.prems k size1 by auto
    ultimately obtain q' where q': "fifo_put_loop N t q1 (drop k p) (length (drop k p)) =
        Some (q', length (drop k p) - (N - 1 - fifo_size N q1))" "fifo_inv N q'"
        "fifo_list N q' = fifo_list N q1 @ take (N - 1 - fifo_size N q1) (drop k p)"
      using less.hyps size1(1) by blast
    have "take k p @ take (?room - k) (drop k p) = take ?room p"
      using k by (metis le_add_diff_inverse take_add)
    then show ?thesis using q' step size1 list1 k by (auto simp: diff_diff_add)
  qed
qed

lemma fifo_put_block_correct:
  assumes "fifo_inv N q" and "t \<longrightarrow> length p \<le> N - 1 - fifo_size N q"
  obtains q' where "fifo_put_block N t q p = Some (min (length p) (N - 1 - fifo_size N q), q')"
    "fifo_inv N q'" "fifo_list N q' = fifo_list N q @ take (N - 1 - fifo_size N q) p"
  using fifo_put_loop_correct [OF assms] by (auto simp: fifo_put_block_def min_def)

lemma fifo_get_loop_correct:
  assumes "fifo_inv N q" and "t \<longrightarrow> c \<le> fifo_size N q"
  shows "\<exists>q'. fifo_get_loop N t q c acc = Some (acc @ take c (fifo_list N q), q') \<and>
           fifo_inv N q' \<and> fifo_list N q' = drop c (fifo_list N q)"
  using assms
proof (induction c arbitrary: q acc rule: less_induct)
  case (less c)
  note inv = \<open>fifo_inv N q\<close>
  note unfold = fifo_get_loop.simps [of N t q c acc]
  have r: "fifo_r q < N" using inv by (auto simp: fifo_inv_def)
  show ?case
  proof (cases "c = 0 \<or> fifo_size N q = 0")
    case True
    moreover have "fifo_size N q = 0 \<Longrightarrow> fifo_list N q = []" by (simp add: fifo_list_def)
    ultimately show ?thesis using less.prems by (auto simp: unfold)
  next
    case False
    define k where "k = min (min c (fifo_size N q)) (N - fifo_r q)"
    define q1 where "q1 = q\<lparr>fifo_r := fifo_inc N (fifo_r q) k\<rparr>"
    have k: "0 < k" "k \<le> c" "k \<le> fifo_size N q" "fifo_r q + k \<le> N"
      using False r by (auto simp: k_def)
    have size1: "fifo_inv N q1" "fifo_size N q1 = fifo_size N q - k"
      unfolding q1_def using inv k by (auto intro!: fifo_size_read)
    have list1: "fifo_list N q1 = drop k (fifo_list N q)"
      unfolding q1_def using inv k(3) by (rule fifo_list_read)
    have blk: "take k (drop (fifo_r q) (fifo_b q)) = take k (fifo_list N q)"
      using inv k(3,4) by (rule fifo_block_read)
    have step: "fifo_get_loop N t q c acc = fifo_get_loop N t q1 (c - k) (acc @ take k (fifo_list N q))"
      using fifo_get_loop_step [OF inv, of c k t acc] False by (simp add: k_def q1_def blk [unfolded k_def])
    have "c - k < c" using k by simp
    moreover have "t \<longrightarrow> c - k \<le> fifo_size N q1" using less.prems k size1 by auto
    ultimately obtain q' where q': "fifo_get_loop N t q1 (c - k) (acc @ take k (fifo_list N q)) =
        Some ((acc @ take k (fifo_list N q)) @ take (c - k) (fifo_list N q1), q')"
        "fifo_inv N q'" "fifo_list N q' = drop (c - k) (fifo_list N q1)"
      using less.IH size1(1) by blast
    have "take k (fifo_list N q) @ take (c - k) (drop k (fifo_list N q)) = take c (fifo_list N q)"
      using k by (metis le_add_diff_inverse take_add)
    then show ?thesis using q' step list1 k by auto
  qed
qed

lemma fifo_get_block_correct:
  assumes "fifo_inv N q" and "t \<longrightarrow> c \<le> fifo_size N q"
  obtains q' where "fifo_get_block N t q c = Some (take c (fifo_list N q), q')"
    "fifo_inv N q'" "fifo_list N q' = drop c (fifo_list N q)"
  using fifo_get_loop_correct [OF assms, of "[]"] by (auto simp: fifo_get_block_def)

section \<open>The interface the socket layer relies on\<close>

text \<open>
  What a client of the ring buffer may assume: a bounded first-in first-out queue. \<open>put\<close> is
  refused exactly when there is no room, a block read returns the oldest elements. The client
  lemma \<open>put_all\<close> is the receive loop of the modem driver, which offers the arriving bytes one
  by one and does not look at the result of \<open>put\<close>.
\<close>

locale bounded_queue =
  fixes put :: "'q \<Rightarrow> 'a \<Rightarrow> bool \<times> 'q"
    and get_block :: "'q \<Rightarrow> nat \<Rightarrow> ('a list \<times> 'q) option"
    and clear :: "'q \<Rightarrow> 'q"
    and content :: "'q \<Rightarrow> 'a list"
    and capacity :: nat
    and inv :: "'q \<Rightarrow> bool"
  assumes inv_clear: "inv q \<Longrightarrow> inv (clear q)"
    and content_clear: "inv q \<Longrightarrow> content (clear q) = []"
    and content_le: "inv q \<Longrightarrow> length (content q) \<le> capacity"
    and put_full: "inv q \<Longrightarrow> length (content q) = capacity \<Longrightarrow> put q c = (False, q)"
    and put_room: "inv q \<Longrightarrow> length (content q) < capacity \<Longrightarrow>
           \<exists>q'. put q c = (True, q') \<and> inv q' \<and> content q' = content q @ [c]"
    and get_block: "inv q \<Longrightarrow>
           \<exists>q'. get_block q n = Some (take n (content q), q') \<and> inv q' \<and>
                content q' = drop n (content q)"
begin

lemma put_step:
  assumes "inv q"
  shows "inv (snd (put q c))"
    and "content (snd (put q c)) = content q @ take (capacity - length (content q)) [c]"
proof -
  have "inv (snd (put q c)) \<and>
      content (snd (put q c)) = content q @ take (capacity - length (content q)) [c]"
  proof (cases "length (content q) < capacity")
    case True
    then obtain q' where "put q c = (True, q')" "inv q'" "content q' = content q @ [c]"
      using put_room [OF assms] by blast
    then show ?thesis using True by simp
  next
    case False
    then have "length (content q) = capacity" using content_le [OF assms] by simp
    then show ?thesis using put_full [OF assms] assms by simp
  qed
  then show "inv (snd (put q c))"
    and "content (snd (put q c)) = content q @ take (capacity - length (content q)) [c]" by auto
qed

lemma put_all:
  assumes "inv q"
  shows "inv (foldl (\<lambda>q c. snd (put q c)) q cs) \<and>
    content (foldl (\<lambda>q c. snd (put q c)) q cs) =
      content q @ take (capacity - length (content q)) cs"
  using assms
proof (induction cs arbitrary: q)
  case Nil
  then show ?case by simp
next
  case (Cons c cs)
  let ?q = "snd (put q c)"
  have step: "inv ?q" "content ?q = content q @ take (capacity - length (content q)) [c]"
    using put_step [OF Cons.prems] by auto
  have "capacity - Suc (length (content q)) = capacity - length (content q) - 1" by simp
  then show ?case
    using Cons.IH [OF step(1)] step(2) content_le [OF Cons.prems]
    by (cases "capacity - length (content q)") auto
qed

lemma put_all_then_get:
  assumes "inv q" and "length cs \<le> capacity - length (content q)"
  shows "\<exists>q'. get_block (foldl (\<lambda>q c. snd (put q c)) q cs) capacity = Some (content q @ cs, q') \<and>
    inv q' \<and> content q' = []"
  using put_all [OF assms(1), of cs] get_block content_le assms
  by (metis drop_all take_all)

end

interpretation fifo: bounded_queue "fifo_put N" "fifo_get_block N False" fifo_clear "fifo_list N"
    "N - 1" "fifo_inv N" for N :: nat
proof
  fix q :: "'a fifo" and c and n
  assume inv: "fifo_inv N q"
  then show "fifo_inv N (fifo_clear q)" by (simp add: fifo_inv_def fifo_clear_def)
  show "fifo_list N (fifo_clear q) = []"
    by (simp add: fifo_list_def fifo_size_def fifo_clear_def)
  show "length (fifo_list N q) \<le> N - 1" using fifo_size_less [OF inv] by simp
  show "fifo_put N q c = (False, q)" if "length (fifo_list N q) = N - 1"
    using inv that by (simp add: fifo_put_full)
  show "\<exists>q'. fifo_put N q c = (True, q') \<and> fifo_inv N q' \<and> fifo_list N q' = fifo_list N q @ [c]"
    if "length (fifo_list N q) < N - 1"
    using inv that by (auto elim: fifo_put_room)
  show "\<exists>q'. fifo_get_block N False q n = Some (take n (fifo_list N q), q') \<and> fifo_inv N q' \<and>
      fifo_list N q' = drop n (fifo_list N q)"
    by (rule fifo_get_block_correct [OF inv, of False n]) auto
qed

section \<open>Properties\<close>

text \<open>C13: the ring buffer is a bounded first-in first-out queue of \<open>N - 1\<close> cells: a block write
  stores as many elements as there is room for, behind the ones already there, and reports their
  number; a block read of everything then returns the old elements followed by the new ones, in
  order, and leaves the buffer empty and consistent, wherever the indices stand.\<close>

theorem fifo_block_roundtrip:
  assumes "fifo_inv N q"
  shows "\<exists>q1 q2.
    fifo_put_block N False q p = Some (min (length p) (nat (fifo_free N q)), q1) \<and>
    fifo_get_block N False q1 (N - 1) = Some (fifo_list N q @ take (nat (fifo_free N q)) p, q2) \<and>
    fifo_inv N q1 \<and> fifo_inv N q2 \<and> fifo_list N q2 = []"
proof -
  have free: "nat (fifo_free N q) = N - 1 - fifo_size N q" using fifo_free_eq [OF assms] by simp
  obtain q1 where q1: "fifo_put_block N False q p = Some (min (length p) (N - 1 - fifo_size N q), q1)"
    "fifo_inv N q1" "fifo_list N q1 = fifo_list N q @ take (N - 1 - fifo_size N q) p"
    by (rule fifo_put_block_correct [OF assms, of False p]) auto
  obtain q2 where q2: "fifo_get_block N False q1 (N - 1) = Some (take (N - 1) (fifo_list N q1), q2)"
    "fifo_inv N q2" "fifo_list N q2 = drop (N - 1) (fifo_list N q1)"
    by (rule fifo_get_block_correct [OF q1(2), of False "N - 1"]) auto
  have "length (fifo_list N q1) \<le> N - 1" using fifo.content_le [OF q1(2)] .
  then show ?thesis using q1 q2 by (auto simp: free)
qed

theorem fifo_block_roundtrip_witness:
  "\<exists>q1 q2. fifo_put_block 4 False \<lparr>fifo_b = [0, 7, 0, 0::nat], fifo_w = 2, fifo_r = 1\<rparr> [8, 9, 10] = Some (2, q1) \<and>
     fifo_get_block 4 False q1 3 = Some ([7, 8, 9], q2)"
proof -
  let ?q = "\<lparr>fifo_b = [0, 7, 0, 0::nat], fifo_w = 2, fifo_r = 1\<rparr>"
  have "fifo_inv 4 ?q" by (simp add: fifo_inv_def)
  moreover have "nat (fifo_free 4 ?q) = 2" by (simp add: fifo_free_def)
  moreover have "fifo_list 4 ?q = [7]" by (simp add: fifo_list_def fifo_size_def)
  ultimately show ?thesis using fifo_block_roundtrip [of 4 ?q "[8, 9, 10]"] by auto
qed

text \<open>The receive loop of the driver, one \<open>put\<close> per byte with the result ignored, keeps the
  bytes it has room for, in order, and drops the rest; nothing that was queued is lost.\<close>

theorem fifo_receive_loop:
  assumes "fifo_inv N q"
  shows "fifo_inv N (foldl (\<lambda>q c. snd (fifo_put N q c)) q cs) \<and>
    fifo_list N (foldl (\<lambda>q c. snd (fifo_put N q c)) q cs) =
      fifo_list N q @ take (nat (fifo_free N q)) cs"
  using fifo.put_all [OF assms, of cs] fifo_free_eq [OF assms] by simp

theorem fifo_receive_loop_witness:
  "fifo_list 3 (foldl (\<lambda>q c. snd (fifo_put 3 q c)) \<lparr>fifo_b = [0, 0, 0::nat], fifo_w = 2, fifo_r = 2\<rparr> [5, 6, 7]) = [5, 6]"
proof -
  let ?q = "\<lparr>fifo_b = [0, 0, 0::nat], fifo_w = 2, fifo_r = 2\<rparr>"
  have "fifo_inv 3 ?q" by (simp add: fifo_inv_def)
  moreover have "nat (fifo_free 3 ?q) = 2" by (simp add: fifo_free_def)
  moreover have "fifo_list 3 ?q = []" by (simp add: fifo_list_def fifo_size_def)
  ultimately show ?thesis using fifo_receive_loop [of 3 ?q "[5, 6, 7]"] by simp
qed

end
