(* ===== verification/Cbuf.thy ===== *)
theory Cbuf
  imports Fifo
begin

text \<open>
  The character buffer of the Arduino core (\<open>src/components/arduino/cores/esp32/cbuf.cpp\<close>): a ring that, unlike
  \<open>TinyGsmFifo\<close>, can change its size. It satisfies the same contract \<open>bounded_queue\<close>.

  Pointers are offsets from \<open>_buf\<close>; \<open>_bufend\<close> is the offset \<open>_size\<close>. A \<open>memcpy\<close> or a store outside the
  buffer is \<open>None\<close>.
\<close>

section \<open>State and operations\<close>

record cbuf =
  cb_size :: nat
  cb_buf :: string
  cb_begin :: nat
  cb_end :: nat

text \<open>The constructor; \<open>mem\<close> is what the new memory holds.\<close>

definition cb_new :: "nat \<Rightarrow> (nat \<Rightarrow> char) \<Rightarrow> cbuf" where
  "cb_new sz mem = \<lparr>cb_size = sz + 1, cb_buf = map mem [0 ..< sz + 1], cb_begin = 0, cb_end = 0\<rparr>"

definition wrap_if_bufend :: "cbuf \<Rightarrow> nat \<Rightarrow> nat" where
  "wrap_if_bufend q ptr = (if ptr = cb_size q then 0 else ptr)"

definition cb_empty :: "cbuf \<Rightarrow> bool" where
  "cb_empty q \<longleftrightarrow> cb_begin q = cb_end q"

definition cb_full :: "cbuf \<Rightarrow> bool" where
  "cb_full q \<longleftrightarrow> wrap_if_bufend q (cb_end q + 1) = cb_begin q"

definition cb_available :: "cbuf \<Rightarrow> nat" where
  "cb_available q =
     (if cb_end q \<ge> cb_begin q then cb_end q - cb_begin q else cb_size q - (cb_begin q - cb_end q))"

definition cb_room :: "cbuf \<Rightarrow> nat" where
  "cb_room q =
     (if cb_end q \<ge> cb_begin q then cb_size q - (cb_end q - cb_begin q) - 1 else cb_begin q - cb_end q - 1)"

definition mem_copy :: "nat \<Rightarrow> nat \<Rightarrow> string \<Rightarrow> string option" where
  "mem_copy pos n b = (if pos + n \<le> length b then Some (take n (drop pos b)) else None)"

definition mem_store :: "nat \<Rightarrow> string \<Rightarrow> string \<Rightarrow> string option" where
  "mem_store pos src b = (if pos + length src \<le> length b then Some (blit b pos src) else None)"

definition cb_peek :: "cbuf \<Rightarrow> char option" where
  "cb_peek q = (if cb_empty q then None else Some (cb_buf q ! cb_begin q))"

text \<open>The copy that \<open>peek\<close> and \<open>read\<close> share: what is copied, where it ends and the pointer there.\<close>

definition cb_copy_out :: "cbuf \<Rightarrow> nat \<Rightarrow> (string \<times> nat) option" where
  "cb_copy_out q sz =
     (let bytes_available = cb_available q;
          size_to_read = (if sz < bytes_available then sz else bytes_available);
          top_size = cb_size q - cb_begin q
      in if cb_end q < cb_begin q \<and> size_to_read > top_size
         then (case (mem_copy (cb_begin q) top_size (cb_buf q), mem_copy 0 (size_to_read - top_size) (cb_buf q)) of
                 (Some a, Some b) \<Rightarrow> Some (a @ b, size_to_read - top_size)
               | _ \<Rightarrow> None)
         else map_option (\<lambda>a. (a, cb_begin q + size_to_read)) (mem_copy (cb_begin q) size_to_read (cb_buf q)))"

definition cb_peek_block :: "cbuf \<Rightarrow> nat \<Rightarrow> string option" where
  "cb_peek_block q sz = map_option fst (cb_copy_out q sz)"

definition cb_read :: "cbuf \<Rightarrow> char option \<times> cbuf" where
  "cb_read q =
     (if cb_empty q then (None, q)
      else (Some (cb_buf q ! cb_begin q), q\<lparr>cb_begin := wrap_if_bufend q (cb_begin q + 1)\<rparr>))"

definition cb_read_block :: "cbuf \<Rightarrow> nat \<Rightarrow> (string \<times> cbuf) option" where
  "cb_read_block q sz =
     map_option (\<lambda>(a, p). (a, q\<lparr>cb_begin := wrap_if_bufend q p\<rparr>)) (cb_copy_out q sz)"

definition cb_write :: "cbuf \<Rightarrow> char \<Rightarrow> (nat \<times> cbuf) option" where
  "cb_write q c =
     (if cb_full q then Some (0, q)
      else if cb_end q < length (cb_buf q)
      then Some (1, q\<lparr>cb_buf := (cb_buf q)[cb_end q := c], cb_end := wrap_if_bufend q (cb_end q + 1)\<rparr>)
      else None)"

definition cb_write_block :: "cbuf \<Rightarrow> string \<Rightarrow> (nat \<times> cbuf) option" where
  "cb_write_block q src =
     (let bytes_available = cb_room q;
          size_to_write = (if length src < bytes_available then length src else bytes_available);
          top_size = cb_size q - cb_end q
      in if cb_end q \<ge> cb_begin q \<and> size_to_write > top_size
         then (case mem_store (cb_end q) (take top_size src) (cb_buf q) of
                 None \<Rightarrow> None
               | Some b \<Rightarrow>
                   map_option (\<lambda>b. (size_to_write, q\<lparr>cb_buf := b, cb_end := wrap_if_bufend q (size_to_write - top_size)\<rparr>))
                     (mem_store 0 (take (size_to_write - top_size) (drop top_size src)) b))
         else
           map_option (\<lambda>b. (size_to_write, q\<lparr>cb_buf := b, cb_end := wrap_if_bufend q (cb_end q + size_to_write)\<rparr>))
             (mem_store (cb_end q) (take size_to_write src) (cb_buf q)))"

definition cb_flush :: "cbuf \<Rightarrow> cbuf" where
  "cb_flush q = q\<lparr>cb_begin := 0, cb_end := 0\<rparr>"

definition cb_remove :: "cbuf \<Rightarrow> nat \<Rightarrow> nat \<times> cbuf" where
  "cb_remove q sz =
     (let bytes_available = cb_available q
      in if sz \<ge> bytes_available then (0, cb_flush q)
         else
           (let size_to_remove = (if sz < bytes_available then sz else bytes_available);
                (b, n) = (if cb_end q < cb_begin q \<and> size_to_remove > cb_size q - cb_begin q
                          then (0, size_to_remove - (cb_size q - cb_begin q)) else (cb_begin q, size_to_remove));
                q' = q\<lparr>cb_begin := wrap_if_bufend q (b + n)\<rparr>
            in (cb_available q', q')))"

text \<open>The new buffer gets what the old one held, and zeros.\<close>

definition cb_resize :: "cbuf \<Rightarrow> nat \<Rightarrow> (nat \<times> cbuf) option" where
  "cb_resize q newSize =
     (let bytes_available = cb_available q; newSize = newSize + 1
      in if newSize < bytes_available \<or> newSize = cb_size q then Some (cb_size q, q)
         else map_option (\<lambda>(a, q). (newSize, \<lparr>cb_size = newSize,
                cb_buf = a @ replicate (newSize - bytes_available) CHR 0x00, cb_begin = 0, cb_end = bytes_available\<rparr>))
           (cb_read_block q bytes_available))"

definition cb_resizeAdd :: "cbuf \<Rightarrow> nat \<Rightarrow> (nat \<times> cbuf) option" where
  "cb_resizeAdd q addSize = cb_resize q (cb_size q + addSize)"

section \<open>Invariant and contents\<close>

definition cb_inv :: "nat \<Rightarrow> cbuf \<Rightarrow> bool" where
  "cb_inv n q \<longleftrightarrow> cb_size q = n + 1 \<and> length (cb_buf q) = n + 1 \<and> cb_begin q \<le> n \<and> cb_end q \<le> n"

definition cb_content :: "cbuf \<Rightarrow> string" where
  "cb_content q =
     (if cb_end q \<ge> cb_begin q then take (cb_end q - cb_begin q) (drop (cb_begin q) (cb_buf q))
      else drop (cb_begin q) (cb_buf q) @ take (cb_end q) (cb_buf q))"

lemma cb_content_length: "cb_inv n q \<Longrightarrow> length (cb_content q) = cb_available q"
  by (auto simp: cb_inv_def cb_content_def cb_available_def)

lemma cb_room_eq: "cb_inv n q \<Longrightarrow> cb_room q = n - length (cb_content q)"
  using cb_content_length [of n q] by (auto simp: cb_inv_def cb_room_def cb_available_def)

lemma cb_full_iff: "cb_inv n q \<Longrightarrow> cb_full q \<longleftrightarrow> length (cb_content q) = n"
  using cb_content_length [of n q]
  by (cases "cb_end q = n") (auto simp: cb_inv_def cb_full_def wrap_if_bufend_def cb_available_def)

lemma cb_available_le: "cb_inv n q \<Longrightarrow> cb_available q \<le> n"
  by (auto simp: cb_inv_def cb_available_def)

text \<open>What \<open>peek\<close> and \<open>read\<close> copy, and what is left behind it.\<close>

lemma cb_copy_out_eq:
  assumes inv: "cb_inv n q"
  obtains p where "cb_copy_out q sz = Some (take sz (cb_content q), p)" "cb_inv n (q\<lparr>cb_begin := wrap_if_bufend q p\<rparr>)"
    "cb_content (q\<lparr>cb_begin := wrap_if_bufend q p\<rparr>) = drop sz (cb_content q)"
proof -
  let ?b = "cb_begin q" and ?e = "cb_end q" and ?buf = "cb_buf q"
  have q: "cb_size q = n + 1" "length ?buf = n + 1" "?b \<le> n" "?e \<le> n" using inv by (simp_all add: cb_inv_def)
  define k where "k = (if sz < cb_available q then sz else cb_available q)"
  have k: "take sz (cb_content q) = take k (cb_content q)" "drop sz (cb_content q) = drop k (cb_content q)" "k \<le> cb_available q"
    using cb_content_length [OF inv] by (auto simp: k_def)
  show ?thesis
  proof (cases "?b \<le> ?e")
    case True
    let ?q = "q\<lparr>cb_begin := wrap_if_bufend q (?b + k)\<rparr>"
    have le: "k \<le> ?e - ?b" "k + ?b \<le> ?e" using k(3) True by (simp_all add: cb_available_def)
    then have "cb_copy_out q sz = Some (take k (cb_content q), ?b + k)"
      using True q by (simp add: cb_copy_out_def Let_def mem_copy_def k_def [symmetric] cb_content_def min_absorb1)
    moreover have w: "wrap_if_bufend q (?b + k) = ?b + k" using le True q by (simp add: wrap_if_bufend_def)
    have "cb_inv n ?q" using inv w le True q by (simp add: cb_inv_def)
    moreover have "cb_content ?q = drop k (cb_content q)" using w le True q
      by (simp add: cb_content_def drop_take add.commute)
    ultimately show ?thesis using that k(1,2) by metis
  next
    case False
    have avail: "cb_available q = n + 1 - (?b - ?e)" using False q by (simp add: cb_available_def)
    show ?thesis
    proof (cases "k > n + 1 - ?b")
      case top: True
      define p where "p = k - (n + 1 - ?b)"
      let ?q = "q\<lparr>cb_begin := wrap_if_bufend q p\<rparr>"
      have le: "p \<le> ?e" using k(3) avail False q top by (simp add: p_def)
      then have "cb_copy_out q sz = Some (take k (cb_content q), p)"
        using False q top by (simp add: cb_copy_out_def Let_def mem_copy_def k_def [symmetric] cb_content_def p_def min_absorb1)
      moreover have w: "wrap_if_bufend q p = p" using le q by (simp add: wrap_if_bufend_def)
      have "cb_inv n ?q" using inv w le q by (simp add: cb_inv_def)
      moreover have "cb_content ?q = drop k (cb_content q)" using w le False q top
        by (simp add: cb_content_def p_def drop_take)
      ultimately show ?thesis using that k(1,2) by metis
    next
      case low: False
      let ?q = "q\<lparr>cb_begin := wrap_if_bufend q (?b + k)\<rparr>"
      have "cb_copy_out q sz = Some (take k (cb_content q), ?b + k)"
        using False q low by (simp add: cb_copy_out_def Let_def mem_copy_def k_def [symmetric] cb_content_def)
      moreover have "cb_inv n ?q" using inv low q by (auto simp: cb_inv_def wrap_if_bufend_def)
      moreover have "cb_content ?q = drop k (cb_content q)" using False q low
        by (cases "?b + k = n + 1") (auto simp: cb_content_def wrap_if_bufend_def add.commute)
      ultimately show ?thesis using that k(1,2) by metis
    qed
  qed
qed

lemma cb_write_block_eq:
  assumes inv: "cb_inv n q"
  obtains q' where "cb_write_block q src = Some (min (length src) (n - length (cb_content q)), q')" "cb_inv n q'"
    "cb_content q' = cb_content q @ take (n - length (cb_content q)) src"
proof -
  let ?b = "cb_begin q" and ?e = "cb_end q" and ?buf = "cb_buf q"
  have q: "cb_size q = n + 1" "length ?buf = n + 1" "?b \<le> n" "?e \<le> n" using inv by (simp_all add: cb_inv_def)
  define k where "k = (if length src < cb_room q then length src else cb_room q)"
  define w where "w = take (n - length (cb_content q)) src"
  have k: "k = min (length src) (n - length (cb_content q))" "k \<le> cb_room q" "length w = k" "w = take k src"
    using cb_room_eq [OF inv] by (auto simp: k_def w_def min_def)
  show ?thesis
  proof (cases "?b \<le> ?e \<and> k > n + 1 - ?e")
    case True
    define j where "j = n + 1 - ?e"
    have j: "k - j < ?b" "?e + j = n + 1" "j < k" "k \<le> j + ?e" using True k(2) q by (auto simp: cb_room_def j_def)
    define b1 where "b1 = blit ?buf ?e (take j src)"
    define b2 where "b2 = blit b1 0 (take (k - j) (drop j src))"
    have src: "k \<le> length src" using k(1) by simp
    have b1: "b1 = take ?e ?buf @ take j src" using j q src by (simp add: b1_def blit_def)
    have b2: "b2 = take (k - j) (drop j src) @ drop (k - j) (take ?e ?buf) @ take j src"
      using j q src True by (simp add: b2_def b1 blit_def)
    let ?q = "q\<lparr>cb_buf := b2, cb_end := k - j\<rparr>"
    have "mem_store ?e (take j src) ?buf = Some b1" "mem_store 0 (take (k - j) (drop j src)) b1 = Some b2"
      using j q src by (simp_all add: mem_store_def b1_def [symmetric] b2_def [symmetric]) (simp add: b1)
    moreover have "wrap_if_bufend q (k - j) = k - j" "cb_size q - ?e = j" using j q by (simp_all add: wrap_if_bufend_def j_def)
    ultimately have "cb_write_block q src = Some (k, ?q)"
      using True j by (simp add: cb_write_block_def k_def [symmetric] Let_def)
    moreover have "cb_inv n ?q" using inv j q True src by (simp add: cb_inv_def b2)
    moreover have "cb_content ?q = cb_content q @ w"
    proof -
      have "take k src = take j src @ take (k - j) (drop j src)" using j(3) by (metis less_imp_le le_add_diff_inverse take_add)
      moreover have "n + 1 - (?b + j) = ?e - ?b" using j by simp
      then have "drop ?b b2 = take (?e - ?b) (drop ?b ?buf) @ take j src"
        using j True q src by (simp add: b2 drop_take)
      moreover have "take (k - j) b2 = take (k - j) (drop j src)" using j src by (simp add: b2)
      ultimately show ?thesis using j True k(4) by (simp add: cb_content_def)
    qed
    ultimately show ?thesis using that [of ?q] k(1) w_def by simp
  next
    case False
    let ?q = "q\<lparr>cb_buf := blit ?buf ?e w, cb_end := wrap_if_bufend q (?e + k)\<rparr>"
    have le: "?e + k \<le> n + 1" "?e < ?b \<Longrightarrow> ?e + k < ?b" using False k(2) q by (auto simp: cb_room_def)
    have "cb_write_block q src = Some (k, ?q)"
      using False q le k(1,4) by (auto simp: cb_write_block_def k_def [symmetric] Let_def mem_store_def)
    moreover have "cb_inv n ?q" using inv le q k(3) by (auto simp: cb_inv_def wrap_if_bufend_def)
    moreover have "cb_content ?q = cb_content q @ w"
    proof (cases "?b \<le> ?e")
      case True
      have "k < n + 1 - (?e - ?b)" using k(2) True q by (auto simp: cb_room_def)
      then show ?thesis using True q le k(3)
        by (cases "?e + k = n + 1") (auto simp: cb_content_def wrap_if_bufend_def blit_def drop_take)
    next
      case f: False
      then show ?thesis using q le k(3) by (auto simp: cb_content_def wrap_if_bufend_def blit_def)
    qed
    ultimately show ?thesis using that [of ?q] k(1) w_def by simp
  qed
qed


section \<open>The contract\<close>

text \<open>One character at a time, with the results as the contract has them.\<close>

definition cb_put :: "cbuf \<Rightarrow> char \<Rightarrow> bool \<times> cbuf" where
  "cb_put q c = (case cb_write q c of None \<Rightarrow> (False, q) | Some (n, q) \<Rightarrow> (n = 1, q))"

lemma cb_write_eq:
  assumes "cb_inv n q"
  shows "length (cb_content q) = n \<Longrightarrow> cb_write q c = Some (0, q)"
    and "length (cb_content q) < n \<Longrightarrow> \<exists>q'. cb_write q c = Some (1, q') \<and> cb_inv n q' \<and> cb_content q' = cb_content q @ [c]"
proof -
  show "cb_write q c = Some (0, q)" if "length (cb_content q) = n"
    using that cb_full_iff [OF assms] by (simp add: cb_write_def)
  assume lt: "length (cb_content q) < n"
  obtain q' where w: "cb_write_block q [c] = Some (min (length [c]) (n - length (cb_content q)), q')" "cb_inv n q'"
    "cb_content q' = cb_content q @ take (n - length (cb_content q)) [c]"
    by (rule cb_write_block_eq [OF assms, of "[c]"])
  obtain m where m: "n - length (cb_content q) = Suc m" using lt by (cases "n - length (cb_content q)") simp_all
  have e: "cb_end q < length (cb_buf q)" "cb_end q < cb_size q" "\<not> cb_full q" "cb_room q = Suc m"
    using assms lt m cb_full_iff [OF assms] cb_room_eq [OF assms] by (auto simp: cb_inv_def)
  have "mem_store (cb_end q) [c] (cb_buf q) = Some ((cb_buf q)[cb_end q := c])"
    using e(1) by (simp add: mem_store_def blit_def upd_conv_take_nth_drop)
  then have "cb_write_block q [c] = Some (1, q\<lparr>cb_buf := (cb_buf q)[cb_end q := c], cb_end := wrap_if_bufend q (cb_end q + 1)\<rparr>)"
    using e by (cases m) (simp_all add: cb_write_block_def Let_def)
  then show "\<exists>q'. cb_write q c = Some (1, q') \<and> cb_inv n q' \<and> cb_content q' = cb_content q @ [c]"
    using w e m by (simp add: cb_write_def)
qed

interpretation cbuf: bounded_queue cb_put cb_read_block cb_flush cb_content n "cb_inv n" for n
proof
  fix q :: cbuf and c k
  assume inv: "cb_inv n q"
  then show "cb_inv n (cb_flush q)" "cb_content (cb_flush q) = []"
    by (simp_all add: cb_inv_def cb_flush_def cb_content_def)
  show "length (cb_content q) \<le> n" using cb_content_length [OF inv] cb_available_le [OF inv] by simp
  show "cb_put q c = (False, q)" if "length (cb_content q) = n" using cb_write_eq(1) [OF inv that] by (simp add: cb_put_def)
  show "\<exists>q'. cb_put q c = (True, q') \<and> cb_inv n q' \<and> cb_content q' = cb_content q @ [c]" if "length (cb_content q) < n"
    using cb_write_eq(2) [OF inv that, of c] by (auto simp: cb_put_def)
  obtain p where "cb_copy_out q k = Some (take k (cb_content q), p)" "cb_inv n (q\<lparr>cb_begin := wrap_if_bufend q p\<rparr>)"
    "cb_content (q\<lparr>cb_begin := wrap_if_bufend q p\<rparr>) = drop k (cb_content q)"
    by (rule cb_copy_out_eq [OF inv, of k])
  then show "\<exists>q'. cb_read_block q k = Some (take k (cb_content q), q') \<and> cb_inv n q' \<and> cb_content q' = drop k (cb_content q)"
    by (auto simp: cb_read_block_def)
qed

section \<open>Other operations\<close>

text \<open>\<open>remove\<close> moves the pointer to where a read of as many characters would leave it.\<close>

lemma cb_remove_eq:
  assumes inv: "cb_inv n q"
  shows "cb_inv n (snd (cb_remove q k)) \<and> cb_content (snd (cb_remove q k)) = drop k (cb_content q) \<and>
    fst (cb_remove q k) = length (drop k (cb_content q))"
proof (cases "k \<ge> cb_available q")
  case True
  then show ?thesis using cbuf.inv_clear [OF inv] cbuf.content_clear [OF inv] cb_content_length [OF inv]
    by (simp add: cb_remove_def)
next
  case False
  have q: "cb_size q = n + 1" "length (cb_buf q) = n + 1" "cb_begin q \<le> n" "cb_end q \<le> n" using inv by (simp_all add: cb_inv_def)
  obtain p where p: "cb_copy_out q k = Some (take k (cb_content q), p)" "cb_inv n (q\<lparr>cb_begin := wrap_if_bufend q p\<rparr>)"
    "cb_content (q\<lparr>cb_begin := wrap_if_bufend q p\<rparr>) = drop k (cb_content q)"
    by (rule cb_copy_out_eq [OF inv, of k])
  let ?q = "q\<lparr>cb_begin := wrap_if_bufend q p\<rparr>"
  have "p = (if cb_end q < cb_begin q \<and> k > cb_size q - cb_begin q then k - (cb_size q - cb_begin q) else cb_begin q + k)"
    using p(1) False by (auto simp: cb_copy_out_def Let_def split: option.splits if_splits)
  then have "cb_remove q k = (cb_available ?q, ?q)" using False by (simp add: cb_remove_def Let_def)
  then show ?thesis using p cb_content_length [OF p(2)] by simp
qed

lemma cb_resize_eq:
  assumes "cb_inv n q" and "m \<noteq> n" and "length (cb_content q) \<le> m + 1"
  shows "cb_resize q m = Some (m + 1, \<lparr>cb_size = m + 1,
    cb_buf = cb_content q @ replicate (m + 1 - length (cb_content q)) CHR 0x00, cb_begin = 0, cb_end = length (cb_content q)\<rparr>)"
proof -
  obtain q' where "cb_read_block q (cb_available q) = Some (take (cb_available q) (cb_content q), q')"
    using cbuf.get_block [OF assms(1)] by blast
  then show ?thesis using assms cb_content_length [OF assms(1)] by (simp add: cb_resize_def cb_inv_def Let_def)
qed

text \<open>C40: growing or shrinking a \<open>cbuf\<close> keeps what it holds, as long as that fits; a size that is one too
  small is not refused, and the next character is then written behind the buffer; a smaller one is
  refused.\<close>

theorem cbuf_resize:
  assumes "cb_inv n q" and "m \<noteq> n"
  shows "(length (cb_content q) \<le> m \<longrightarrow>
      (\<exists>q'. cb_resize q m = Some (m + 1, q') \<and> cb_inv m q' \<and> cb_content q' = cb_content q)) \<and>
    (length (cb_content q) = m + 1 \<longrightarrow> (\<exists>q'. cb_resize q m = Some (m + 1, q') \<and> cb_write q' c = None)) \<and>
    (length (cb_content q) > m + 1 \<longrightarrow> cb_resize q m = Some (n + 1, q))"
proof (intro conjI impI)
  show "\<exists>q'. cb_resize q m = Some (m + 1, q') \<and> cb_inv m q' \<and> cb_content q' = cb_content q"
    if "length (cb_content q) \<le> m"
  proof -
    let ?q = "\<lparr>cb_size = m + 1, cb_buf = cb_content q @ replicate (m + 1 - length (cb_content q)) CHR 0x00,
      cb_begin = 0, cb_end = length (cb_content q)\<rparr>"
    have "cb_resize q m = Some (m + 1, ?q)" "cb_inv m ?q" using cb_resize_eq [OF assms] that by (simp_all add: cb_inv_def)
    moreover have "cb_content q' = xs" if "cb_begin q' = 0" "cb_end q' = length xs" "cb_buf q' = xs @ ys" for q' xs ys
      using that by (simp add: cb_content_def)
    ultimately show ?thesis by (metis cbuf.select_convs(2-4))
  qed
  show "\<exists>q'. cb_resize q m = Some (m + 1, q') \<and> cb_write q' c = None" if "length (cb_content q) = m + 1"
    using cb_resize_eq [OF assms] that by (simp add: cb_write_def cb_full_def wrap_if_bufend_def)
  show "cb_resize q m = Some (n + 1, q)" if "length (cb_content q) > m + 1"
    using that assms cb_content_length [OF assms(1)] by (simp add: cb_resize_def cb_inv_def)
qed

theorem cbuf_resize_witness:
  "\<exists>q'. cb_resize \<lparr>cb_size = 5, cb_buf = ''abcde'', cb_begin = 3, cb_end = 2\<rparr> 3 = Some (4, q') \<and> cb_write q' CHR ''x'' = None"
  using cbuf_resize [of 4 "\<lparr>cb_size = 5, cb_buf = ''abcde'', cb_begin = 3, cb_end = 2\<rparr>" 3 "CHR ''x''"]
  by (simp add: cb_inv_def cb_content_def)

text \<open>A block write followed by a block read of everything gives the old characters and then as many of
  the new ones as there was room for, in order, wherever the pointers stand.\<close>

theorem cbuf_block_roundtrip:
  assumes "cb_inv n q"
  shows "\<exists>q1 q2. cb_write_block q src = Some (min (length src) (cb_room q), q1) \<and>
    cb_read_block q1 n = Some (cb_content q @ take (cb_room q) src, q2) \<and> cb_inv n q2 \<and> cb_empty q2"
proof -
  obtain q1 where q1: "cb_write_block q src = Some (min (length src) (n - length (cb_content q)), q1)" "cb_inv n q1"
    "cb_content q1 = cb_content q @ take (n - length (cb_content q)) src"
    by (rule cb_write_block_eq [OF assms])
  obtain q2 where q2: "cb_read_block q1 n = Some (take n (cb_content q1), q2)" "cb_inv n q2" "cb_content q2 = drop n (cb_content q1)"
    using cbuf.get_block [OF q1(2)] by blast
  have "length (cb_content q1) \<le> n" by (rule cbuf.content_le [OF q1(2)])
  then have "cb_content q2 = []" "take n (cb_content q1) = cb_content q1" using q2(3) by simp_all
  moreover from this have "cb_empty q2" using q2(2) by (auto simp: cb_empty_def cb_content_def cb_inv_def split: if_splits)
  ultimately show ?thesis using q1 q2 by (simp add: cb_room_eq [OF assms])
qed

theorem cbuf_block_roundtrip_witness:
  "\<exists>q1 q2. cb_write_block \<lparr>cb_size = 5, cb_buf = ''abcde'', cb_begin = 3, cb_end = 0\<rparr> ''xyz'' = Some (2, q1) \<and>
     cb_read_block q1 4 = Some (''dexy'', q2)"
  using cbuf_block_roundtrip [of 4 "\<lparr>cb_size = 5, cb_buf = ''abcde'', cb_begin = 3, cb_end = 0\<rparr>" "''xyz''"]
  by (auto simp: cb_inv_def cb_content_def cb_room_def)

end
