(* ===== verification/CLib.thy ===== *)
theory CLib
  imports Prelude
begin

text \<open>
  The functions of the C library that the sources call on strings: \<open>strchr\<close>, \<open>strstr\<close>,
  \<open>isdigit\<close>, \<open>isspace\<close>, \<open>strtol\<close> and \<open>atol\<close> with the 32-bit \<open>long\<close> of the ESP32. A C string is
  the HOL string of the characters before its terminator; where a function sees the memory
  itself, the terminator \<open>CHR 0x00\<close> is in the list.
\<close>

definition c_str :: "string \<Rightarrow> string" where
  "c_str s = takeWhile (\<lambda>c. c \<noteq> CHR 0x00) s"

text \<open>\<open>strchr\<close> also finds the terminator.\<close>

fun c_strchr :: "string \<Rightarrow> char \<Rightarrow> nat option" where
  "c_strchr [] c = (if c = CHR 0x00 then Some 0 else None)"
| "c_strchr (x # xs) c =
     (if x = c then Some 0
      else if x = CHR 0x00 then None
      else map_option Suc (c_strchr xs c))"

fun c_prefix :: "string \<Rightarrow> string \<Rightarrow> bool" where
  "c_prefix [] s = True"
| "c_prefix (p # ps) [] = False"
| "c_prefix (p # ps) (x # xs) = (p = x \<and> c_prefix ps xs)"

fun c_strstr :: "string \<Rightarrow> string \<Rightarrow> nat option" where
  "c_strstr [] t = (if t = [] then Some 0 else None)"
| "c_strstr (x # xs) t =
     (if c_prefix t (x # xs) then Some 0 else map_option Suc (c_strstr xs t))"

definition char_code :: "char \<Rightarrow> nat" where
  "char_code c = of_char c"

definition c_isdigit :: "char \<Rightarrow> bool" where
  "c_isdigit c \<longleftrightarrow> 48 \<le> char_code c \<and> char_code c \<le> 57"

definition c_isspace :: "char \<Rightarrow> bool" where
  "c_isspace c \<longleftrightarrow> char_code c = 32 \<or> 9 \<le> char_code c \<and> char_code c \<le> 13"

definition c_tolower :: "char \<Rightarrow> char" where
  "c_tolower c = (if 65 \<le> char_code c \<and> char_code c \<le> 90 then char_of (char_code c + 32) else c)"

definition c_toupper :: "char \<Rightarrow> char" where
  "c_toupper c = (if 97 \<le> char_code c \<and> char_code c \<le> 122 then char_of (char_code c - 32) else c)"

text \<open>The value of a digit in bases up to 36.\<close>

definition c_digit :: "char \<Rightarrow> nat option" where
  "c_digit c =
     (let n = char_code c in
      if 48 \<le> n \<and> n \<le> 57 then Some (n - 48)
      else if 65 \<le> n \<and> n \<le> 90 then Some (n - 55)
      else if 97 \<le> n \<and> n \<le> 122 then Some (n - 87)
      else None)"

fun c_digits :: "nat \<Rightarrow> nat \<Rightarrow> string \<Rightarrow> nat" where
  "c_digits base acc [] = acc"
| "c_digits base acc (x # xs) =
     (case c_digit x of
        None \<Rightarrow> acc
      | Some d \<Rightarrow> if d < base then c_digits base (acc * base + d) xs else acc)"

text \<open>\<open>strtol\<close> saturates at the bounds of \<open>long\<close>.\<close>

definition long_clamp :: "bool \<Rightarrow> nat \<Rightarrow> int" where
  "long_clamp neg v =
     (if neg then (if int v > 2 ^ 31 then - (2 ^ 31) else - int v)
      else (if int v > 2 ^ 31 - 1 then 2 ^ 31 - 1 else int v))"

lemma long_clamp_small: "v < 2147483648 \<Longrightarrow> long_clamp False v = int v"
  by (simp add: long_clamp_def)

definition c_sign :: "string \<Rightarrow> bool \<times> string" where
  "c_sign s =
     (case s of [] \<Rightarrow> (False, s)
      | x # xs \<Rightarrow> if x = CHR ''-'' then (True, xs) else if x = CHR ''+'' then (False, xs) else (False, s))"

definition c_hex_prefix :: "nat \<Rightarrow> string \<Rightarrow> string" where
  "c_hex_prefix base s =
     (if base = 16 \<and> (c_prefix ''0x'' s \<or> c_prefix ''0X'' s) then drop 2 s else s)"

definition c_strtol :: "nat \<Rightarrow> string \<Rightarrow> int" where
  "c_strtol base s =
     (let (neg, t) = c_sign (dropWhile c_isspace (c_str s))
      in long_clamp neg (c_digits base 0 (c_hex_prefix base t)))"

definition c_atol :: "string \<Rightarrow> int" where
  "c_atol s = c_strtol 10 s"

text \<open>Conversion of a signed 32-bit value to \<open>unsigned int\<close>.\<close>

definition c_uint :: "int \<Rightarrow> nat" where
  "c_uint i = nat (i mod 2 ^ 32)"

section \<open>Lemmas\<close>

lemma c_str_id [simp]: "CHR 0x00 \<notin> set s \<Longrightarrow> c_str s = s"
  unfolding c_str_def by (induction s) auto

lemma c_str_append_nul: "CHR 0x00 \<notin> set s \<Longrightarrow> c_str (s @ CHR 0x00 # r) = s"
  unfolding c_str_def by (induction s) auto

lemma c_strchr_None: "c_strchr s c = None \<longleftrightarrow> c \<noteq> CHR 0x00 \<and> c \<notin> set (c_str s)"
  by (induction s c rule: c_strchr.induct) (auto simp: c_str_def)

lemma c_strchr_None_iff [simp]:
  "CHR 0x00 \<notin> set s \<Longrightarrow> c_strchr s c = None \<longleftrightarrow> c \<noteq> CHR 0x00 \<and> c \<notin> set s"
  by (simp add: c_strchr_None)

lemma c_strchr_notin: "c \<noteq> CHR 0x00 \<Longrightarrow> c \<notin> set s \<Longrightarrow> c_strchr s c = None"
  by (induction s c rule: c_strchr.induct) auto

lemma c_strchr_append:
  "c \<notin> set s \<Longrightarrow> CHR 0x00 \<notin> set s \<Longrightarrow> c_strchr (s @ c # t) c = Some (length s)"
  by (induction s) auto

lemma c_prefix_iff: "c_prefix p s \<longleftrightarrow> (\<exists>t. s = p @ t)"
  by (induction p s rule: c_prefix.induct) auto

lemma c_strstr_Some: "c_strstr s t = Some k \<Longrightarrow> \<exists>a b. s = a @ t @ b \<and> length a = k"
proof (induction s t arbitrary: k rule: c_strstr.induct)
  case (1 t)
  then show ?case by (simp split: if_splits)
next
  case (2 x xs t)
  show ?case
  proof (cases "c_prefix t (x # xs)")
    case True
    then show ?thesis using 2(2) by (auto simp: c_prefix_iff)
  next
    case False
    then obtain j where "c_strstr xs t = Some j" "k = Suc j" using 2(2) by auto
    then obtain a b where "xs = a @ t @ b" "length a = j" using 2(1) False by blast
    then show ?thesis using \<open>k = Suc j\<close>
      by (intro exI [of _ "x # a"] exI [of _ b]) auto
  qed
qed

lemma c_strstr_hit: "c_strstr (a @ t @ b) t \<noteq> None"
proof (induction a)
  case Nil
  show ?case
  proof (cases "t @ b")
    case (Cons x xs)
    then have "c_prefix t (x # xs)" by (metis c_prefix_iff)
    then show ?thesis using Cons by simp
  qed simp
next
  case (Cons x a)
  then show ?case by auto
qed

lemma c_strstr_iff: "c_strstr s t \<noteq> None \<longleftrightarrow> (\<exists>a b. s = a @ t @ b)"
  using c_strstr_Some [of s t] c_strstr_hit by blast

lemma c_digits_app:
  "list_all (\<lambda>c. \<exists>d. c_digit c = Some d \<and> d < base) s \<Longrightarrow>
   c_digits base acc (s @ t) = c_digits base (c_digits base acc s) t"
  by (induction s arbitrary: acc) auto

lemma c_uint_nonneg: "0 \<le> i \<Longrightarrow> i < 2 ^ 32 \<Longrightarrow> c_uint i = nat i"
  by (simp add: c_uint_def)

lemma c_uint_minus1: "c_uint (- 1) = 4294967295"
  by (simp add: c_uint_def)

lemma c_atol_plain:
  assumes "s \<noteq> []" and "list_all c_isdigit s"
  shows "c_atol s = long_clamp False (c_digits 10 0 s)"
proof -
  obtain x xs where s: "s = x # xs" using assms(1) by (cases s) auto
  have nz: "CHR 0x00 \<notin> set s" using assms(2) by (auto simp: list_all_iff c_isdigit_def char_code_def)
  have "c_isdigit x" using assms(2) s by simp
  then have "\<not> c_isspace x" "x \<noteq> CHR ''-''" "x \<noteq> CHR ''+''"
    by (auto simp: c_isdigit_def c_isspace_def char_code_def)
  then show ?thesis using nz
    by (simp add: c_atol_def c_strtol_def c_sign_def c_hex_prefix_def s)
qed

end
