(* ===== verification/WString.thy ===== *)
theory WString
  imports CLib
begin

text \<open>
  The operations of the Arduino \<open>String\<close> class (\<open>src/components/arduino/cores/esp32/WString.cpp\<close>)
  that the firmware uses. A \<open>String\<close> is the HOL string of its \<open>len\<close> characters; positions are the
  code's \<open>unsigned int\<close>, results of searches its \<open>int\<close> with \<open>-1\<close> for "not found". Allocation
  always succeeds in the model, and contents hold no NUL where the code copies them with
  \<open>strcpy\<close>.
\<close>

section \<open>Operations\<close>

definition str_at :: "string \<Rightarrow> nat \<Rightarrow> char" where
  "str_at s i = (if i \<ge> length s then CHR 0x00 else s ! i)"

definition str_indexOf :: "string \<Rightarrow> char \<Rightarrow> nat \<Rightarrow> int" where
  "str_indexOf s ch fromIndex =
     (if fromIndex \<ge> length s then - 1
      else case c_strchr (drop fromIndex s) ch of
             None \<Rightarrow> - 1
           | Some k \<Rightarrow> int (fromIndex + k))"

definition str_indexOf_str :: "string \<Rightarrow> string \<Rightarrow> nat \<Rightarrow> int" where
  "str_indexOf_str s s2 fromIndex =
     (if fromIndex \<ge> length s then - 1
      else case c_strstr (drop fromIndex s) s2 of
             None \<Rightarrow> - 1
           | Some k \<Rightarrow> int (fromIndex + k))"

text \<open>The scan of \<open>lastIndexOf\<close>: \<open>p\<close> jumps from match to match, \<open>found\<close> keeps the last one.\<close>

function (sequential) str_last_loop :: "string \<Rightarrow> string \<Rightarrow> nat \<Rightarrow> nat \<Rightarrow> int \<Rightarrow> int" where
  "str_last_loop s s2 fromIndex p found =
     (if p \<le> fromIndex then
        (case c_strstr (drop p s) s2 of
           None \<Rightarrow> found
         | Some k \<Rightarrow>
             let p' = p + k;
                 found' = (if p' \<le> fromIndex then int p' else found)
             in str_last_loop s s2 fromIndex (p' + 1) found')
      else found)"
  by pat_completeness auto
termination
  by (relation "measure (\<lambda>(s, s2, fromIndex, p, found). Suc fromIndex - p)") auto

declare str_last_loop.simps [simp del]

definition str_lastIndexOf :: "string \<Rightarrow> string \<Rightarrow> nat \<Rightarrow> int" where
  "str_lastIndexOf s s2 fromIndex =
     (if length s2 = 0 \<or> length s = 0 \<or> length s2 > length s then - 1
      else str_last_loop s s2 (if fromIndex \<ge> length s then length s - 1 else fromIndex) 0 (- 1))"

definition str_substring :: "string \<Rightarrow> nat \<Rightarrow> nat \<Rightarrow> string" where
  "str_substring s left right =
     (let (left, right) = (if left > right then (right, left) else (left, right))
      in if left \<ge> length s then []
         else let right = (if right > length s then length s else right)
              in c_str (take (right - left) (drop left s)))"

definition str_endsWith :: "string \<Rightarrow> string \<Rightarrow> bool" where
  "str_endsWith s s2 =
     (if length s < length s2 then False else drop (length s - length s2) s = s2)"

definition str_trim :: "string \<Rightarrow> string" where
  "str_trim s = rev (dropWhile c_isspace (rev (dropWhile c_isspace s)))"

definition str_toInt :: "string \<Rightarrow> int" where
  "str_toInt s = c_atol s"

text \<open>\<open>startsWith\<close> compares with \<open>strncmp\<close>, which stops at a common terminator; \<open>offset > len - s2.len\<close>
  is an unsigned comparison, so that a text longer than the string passes it when the offset is small.\<close>

definition str_startsWith_at :: "string \<Rightarrow> string \<Rightarrow> nat \<Rightarrow> bool" where
  "str_startsWith_at s s2 offset =
     (if unat (of_nat (length s) - of_nat (length s2) :: u32) < offset then False
      else take (length s2) (c_str (drop offset s)) = c_str s2)"

definition str_startsWith :: "string \<Rightarrow> string \<Rightarrow> bool" where
  "str_startsWith s s2 = (if length s < length s2 then False else str_startsWith_at s s2 0)"

definition str_lastIndexOf_from :: "string \<Rightarrow> char \<Rightarrow> nat \<Rightarrow> int" where
  "str_lastIndexOf_from s ch fromIndex =
     (if fromIndex \<ge> length s then - 1
      else (let t = c_str (take (fromIndex + 1) s)
            in if ch = CHR 0x00 then int (length t)
               else int (length t) - 1 - int (length (takeWhile (\<lambda>c. c \<noteq> ch) (rev t)))))"

text \<open>\<open>lastIndexOf(theChar, len - 1)\<close>: for the empty string the index wraps around and the answer is -1.\<close>

definition str_lastIndexOf_char :: "string \<Rightarrow> char \<Rightarrow> int" where
  "str_lastIndexOf_char s ch = str_lastIndexOf_from s ch (unat (of_nat (length s) - 1 :: u32))"

text \<open>The conversions of case and the replacement of a character stop at a terminator.\<close>

definition on_c_str :: "(char \<Rightarrow> char) \<Rightarrow> string \<Rightarrow> string" where
  "on_c_str f s = map f (c_str s) @ drop (length (c_str s)) s"

definition str_toLowerCase :: "string \<Rightarrow> string" where
  "str_toLowerCase s = on_c_str c_tolower s"

definition str_toUpperCase :: "string \<Rightarrow> string" where
  "str_toUpperCase s = on_c_str c_toupper s"

definition str_replace_char :: "string \<Rightarrow> char \<Rightarrow> char \<Rightarrow> string" where
  "str_replace_char s find' repl = on_c_str (\<lambda>c. if c = find' then repl else c) s"

text \<open>
  \<open>replace\<close>: the branches for a replacement that is not longer scan from the left; the branch
  for a longer one counts the matches and then rewrites them from the right.
\<close>

function (sequential) str_replace_left :: "string \<Rightarrow> string \<Rightarrow> string \<Rightarrow> string" where
  "str_replace_left readFrom pat repl =
     (case c_strstr readFrom pat of
        None \<Rightarrow> readFrom
      | Some n \<Rightarrow>
          if pat = [] then readFrom
          else take n readFrom @ repl @ str_replace_left (drop (n + length pat) readFrom) pat repl)"
  by pat_completeness auto
termination
  by (relation "measure (\<lambda>(r, f, p). length r)") (auto dest!: c_strstr_Some)

declare str_replace_left.simps [simp del]

fun str_replace_right :: "nat \<Rightarrow> string \<Rightarrow> string \<Rightarrow> string \<Rightarrow> int \<Rightarrow> string" where
  "str_replace_right 0 s pat repl index = s"
| "str_replace_right (Suc fuel) s pat repl index =
     (if index \<ge> 0 then
        (let i = str_lastIndexOf s pat (nat index)
         in if i \<ge> 0
            then str_replace_right fuel (take (nat i) s @ repl @ drop (nat i + length pat) s) pat repl (i - 1)
            else s)
      else s)"

definition str_replace :: "string \<Rightarrow> string \<Rightarrow> string \<Rightarrow> string" where
  "str_replace s pat repl =
     (if length s = 0 \<or> length pat = 0 then s
      else if length repl \<le> length pat then str_replace_left s pat repl
      else str_replace_right (Suc (length s)) s pat repl (int (length s) - 1))"

section \<open>Lemmas\<close>

lemma str_indexOf_ge: "str_indexOf s c k \<noteq> - 1 \<Longrightarrow> int k \<le> str_indexOf s c k"
  by (auto simp: str_indexOf_def split: if_splits option.splits)

lemma c_strchr_le: "c_strchr s c = Some k \<Longrightarrow> k \<le> length s"
  by (induction s c arbitrary: k rule: c_strchr.induct) (auto split: if_splits)

lemma str_indexOf_le: "str_indexOf s c k \<le> int (length s)"
  by (auto simp: str_indexOf_def dest: c_strchr_le split: option.splits)

lemma str_indexOf_append:
  "c \<notin> set a \<Longrightarrow> CHR 0x00 \<notin> set a \<Longrightarrow> k = length p \<Longrightarrow>
   str_indexOf (p @ a @ c # b) c k = int (length p + length a)"
  by (simp add: str_indexOf_def c_strchr_append)

lemma str_indexOf_absent:
  "c \<notin> set a \<Longrightarrow> c \<noteq> CHR 0x00 \<Longrightarrow> k = length p \<Longrightarrow> str_indexOf (p @ a) c k = - 1"
  by (simp add: str_indexOf_def c_strchr_notin)

lemma str_substring_mid:
  "CHR 0x00 \<notin> set a \<Longrightarrow> l = length p \<Longrightarrow> r = length p + length a \<Longrightarrow> str_substring (p @ a @ b) l r = a"
  by (cases "a = []") (auto simp: str_substring_def Let_def)

lemma str_substring_whole:
  "CHR 0x00 \<notin> set s \<Longrightarrow> length s \<le> r \<Longrightarrow> str_substring s 0 r = s"
  by (cases s) (auto simp: str_substring_def Let_def)

lemma str_endsWith_iff: "str_endsWith s t \<longleftrightarrow> (\<exists>r. s = r @ t)"
proof
  assume "str_endsWith s t"
  then have "s = take (length s - length t) s @ t"
    by (metis append_take_drop_id str_endsWith_def)
  then show "\<exists>r. s = r @ t" ..
qed (auto simp: str_endsWith_def)

lemma set_str_trim: "set (str_trim s) \<subseteq> set s"
  by (auto simp: str_trim_def dest!: set_dropWhileD)

text \<open>\<open>lastIndexOf\<close> finds the last place at or before \<open>fromIndex\<close>.\<close>

lemma c_strstr_least:
  "c_strstr s t = Some k \<Longrightarrow> c_prefix t (drop k s) \<and> (\<forall>j < k. \<not> c_prefix t (drop j s))"
proof (induction s t arbitrary: k rule: c_strstr.induct)
  case (2 x xs t)
  show ?case
  proof (cases "c_prefix t (x # xs)")
    case True
    then show ?thesis using "2.prems" by simp
  next
    case False
    then obtain i where i: "c_strstr xs t = Some i" "k = Suc i" using "2.prems" by auto
    then have "c_prefix t (drop i xs) \<and> (\<forall>j < i. \<not> c_prefix t (drop j xs))" using "2.IH" False by blast
    then show ?thesis using i False by (auto simp: less_Suc_eq_0_disj)
  qed
qed (auto split: if_splits)

lemma c_strstr_none: "c_strstr s t = None \<Longrightarrow> \<not> c_prefix t (drop j s)"
proof (induction s t arbitrary: j rule: c_strstr.induct)
  case (2 x xs t)
  then show ?case by (cases j) (auto split: if_splits)
qed (auto simp: c_prefix_iff split: if_splits)

lemma str_last_loop_none:
  assumes "\<And>j. p \<le> j \<Longrightarrow> j \<le> from \<Longrightarrow> \<not> c_prefix t (drop j s)"
  shows "str_last_loop s t from p found = found"
  using assms
proof (induction s t "from" p found rule: str_last_loop.induct)
  case (1 s t "from" p found)
  show ?case
  proof (cases "c_strstr (drop p s) t")
    case None
    then show ?thesis by (subst str_last_loop.simps) simp
  next
    case (Some k)
    then have "c_prefix t (drop (p + k) s)" using c_strstr_least [OF Some] by (simp add: add.commute)
    then have "p \<le> from \<Longrightarrow> from < p + k" using "1.prems" [of "p + k"] by force
    moreover have "str_last_loop s t from (p + k + 1) found = found" if "from < p + k"
      using that by (subst str_last_loop.simps) simp
    ultimately show ?thesis using Some
      by (subst str_last_loop.simps) (auto simp: Let_def not_le)
  qed
qed

lemma str_last_loop_at:
  assumes "p \<le> q" and "q \<le> from" and "c_prefix t (drop q s)"
    and "\<And>j. q < j \<Longrightarrow> j \<le> from \<Longrightarrow> \<not> c_prefix t (drop j s)"
  shows "str_last_loop s t from p found = int q"
  using assms
proof (induction s t "from" p found rule: str_last_loop.induct)
  case (1 s t "from" p found)
  obtain k where k: "c_strstr (drop p s) t = Some k"
    using c_strstr_none [of "drop p s" t "q - p"] "1.prems" by (cases "c_strstr (drop p s) t") auto
  have le: "p + k \<le> q"
    using c_strstr_least [OF k] "1.prems" by (cases "p + k \<le> q") (auto dest: spec [of _ "q - p"])
  show ?case
  proof (cases "p + k = q")
    case True
    have "str_last_loop s t from (q + 1) (int q) = int q"
      using "1.prems" by (intro str_last_loop_none) auto
    then show ?thesis using True k "1.prems" by (subst str_last_loop.simps) simp
  next
    case False
    then have "str_last_loop s t from (p + k + 1) (int (p + k)) = int q"
      using "1.IH" [OF _ k refl refl] "1.prems" le by simp
    then show ?thesis using k "1.prems" le by (subst str_last_loop.simps) simp
  qed
qed

lemma str_lastIndexOf_at:
  assumes "q \<le> from" and "from < length s" and "t \<noteq> []" and "c_prefix t (drop q s)"
    and "\<And>j. q < j \<Longrightarrow> j \<le> from \<Longrightarrow> s ! j \<noteq> hd t"
  shows "str_lastIndexOf s t from = int q"
proof -
  have "length t \<le> length s" using assms(4) by (auto simp: c_prefix_iff dest!: arg_cong [of _ _ length])
  moreover have "\<not> c_prefix t (drop j s)" if "q < j" "j \<le> from" for j
    using assms that by (cases t) (auto simp: c_prefix_iff Cons_nth_drop_Suc [symmetric])
  ultimately show ?thesis using assms by (auto simp: str_lastIndexOf_def intro!: str_last_loop_at)
qed

end
