(* ===== verification/Noniso.thy ===== *)
theory Noniso
  imports CLib Codec
begin

text \<open>
  Integer printing: \<open>reverse\<close>, \<open>ltoa\<close> and \<open>ultoa\<close> of
  \<open>src/components/arduino/cores/esp32/stdlib_noniso.c\<close>, which every \<open>String(number)\<close> of the
  firmware goes through. \<open>dtostrf\<close>, whose result depends on the rounding of \<open>double\<close>
  arithmetic, is not modelled.
\<close>

section \<open>Operations\<close>

text \<open>The loop of \<open>reverse\<close>, on the buffer and the two moving positions.\<close>

function (sequential) reverse_loop :: "string \<Rightarrow> nat \<Rightarrow> nat \<Rightarrow> string" where
  "reverse_loop b is ie =
     (if is < ie then
        (let tmp = b ! ie;
             b1 = b[ie := b ! is];
             b2 = b1[is := tmp]
         in reverse_loop b2 (is + 1) (ie - 1))
      else b)"
  by pat_completeness auto
termination
  by (relation "measure (\<lambda>(b, is, ie). ie - is)") auto

declare reverse_loop.simps [simp del]

definition c_reverse :: "string \<Rightarrow> nat \<Rightarrow> nat \<Rightarrow> string" where
  "c_reverse b begin end' = reverse_loop b begin (end' - 1)"

definition ltoa_digits :: string where
  "ltoa_digits = ''0123456789abcdef''"

text \<open>The digit loop shared by \<open>ltoa\<close> and \<open>ultoa\<close>: least significant digit first.\<close>

function (sequential) ltoa_loop :: "nat \<Rightarrow> nat \<Rightarrow> string" where
  "ltoa_loop base quot =
     (let tmp = quot div base
      in ltoa_digits ! (quot - tmp * base) #
         (if tmp = 0 \<or> base < 2 then [] else ltoa_loop base tmp))"
  by pat_completeness auto
termination
  by (relation "measure (\<lambda>(base, quot). quot)") (auto simp: div_greater_zero_iff)

declare ltoa_loop.simps [simp del]

text \<open>
  \<open>ltoa\<close> leaves its result as the C string in \<open>result\<close>. For the least \<open>long\<close>, \<open>abs\<close> overflows
  and stays negative, and the digit string is indexed with a negative number: \<open>None\<close>.
\<close>

definition ltoa :: "int \<Rightarrow> nat \<Rightarrow> string option" where
  "ltoa value base =
     (if base < 2 \<or> base > 16 then Some []
      else if value = - (2 ^ 31) then None
      else
        let out = ltoa_loop base (nat \<bar>value\<bar>);
            out = (if value < 0 then out @ ''-'' else out)
        in Some (c_reverse out 0 (length out)))"

definition ultoa :: "nat \<Rightarrow> nat \<Rightarrow> string" where
  "ultoa value base =
     (if base < 2 \<or> base > 16 then []
      else let out = ltoa_loop base value in c_reverse out 0 (length out))"

section \<open>Correctness\<close>

lemma reverse_loop_correct:
  assumes "length b = length p + length m + length r" and "b = p @ m @ r"
    and "is = length p" and "ie = length p + length m - 1"
  shows "reverse_loop b is ie = p @ rev m @ r"
  using assms
proof (induction "length m" arbitrary: b p m r "is" ie rule: less_induct)
  case less
  show ?case
  proof (cases "length m < 2")
    case True
    then have "rev m = m" by (cases m; cases "tl m") auto
    moreover have "\<not> is < ie" using True less.prems(3,4) by arith
    ultimately show ?thesis using less.prems(2) by (subst reverse_loop.simps) simp
  next
    case False
    then obtain x m' where mx: "m = x # m'" "m' \<noteq> []" by (cases m; cases "tl m") auto
    then obtain n y where m: "m = x # n @ [y]" by (metis append_butlast_last_id)
    have lt: "is < ie" using less.prems m by simp
    have ie: "ie = length p + Suc (length n)" using less.prems m by simp
    have b: "b = p @ x # n @ y # r" using less.prems m by simp
    have y: "b ! ie = y" and x: "b ! is = x"
      using less.prems(3) ie b by (simp_all add: nth_append)
    have upd: "(b[ie := x])[is := y] = (p @ [y]) @ n @ (x # r)"
      using less.prems(3) ie b by (simp add: list_update_append)
    have "reverse_loop ((p @ [y]) @ n @ (x # r)) (is + 1) (ie - 1) = (p @ [y]) @ rev n @ (x # r)"
      using less.hyps [of n "(p @ [y]) @ n @ (x # r)" "p @ [y]" "x # r" "is + 1" "ie - 1"]
        m ie less.prems(3) by simp
    then show ?thesis using lt x y upd m by (simp add: reverse_loop.simps [of b "is" ie] Let_def)
  qed
qed

lemma c_reverse_whole: "c_reverse b 0 (length b) = rev b"
  using reverse_loop_correct [of b "[]" b "[]" 0 "length b - 1"] by (simp add: c_reverse_def)

lemma ltoa_digit:
  assumes "d < 16"
  shows "c_digit (ltoa_digits ! d) = Some d"
    and "ltoa_digits ! d \<noteq> CHR 0x00" and "\<not> c_isspace (ltoa_digits ! d)"
    and "ltoa_digits ! d \<notin> set ''-+xX,''"
proof -
  have "\<forall>d \<in> set [0..<16]. c_digit (ltoa_digits ! d) = Some d \<and> ltoa_digits ! d \<noteq> CHR 0x00 \<and>
      \<not> c_isspace (ltoa_digits ! d) \<and> ltoa_digits ! d \<notin> set ''-+xX,''"
    by code_simp
  moreover have "d \<in> set [0..<16]" using assms by simp
  ultimately have "c_digit (ltoa_digits ! d) = Some d \<and> ltoa_digits ! d \<noteq> CHR 0x00 \<and>
      \<not> c_isspace (ltoa_digits ! d) \<and> ltoa_digits ! d \<notin> set ''-+xX,''" by blast
  then show "c_digit (ltoa_digits ! d) = Some d"
    and "ltoa_digits ! d \<noteq> CHR 0x00" and "\<not> c_isspace (ltoa_digits ! d)"
    and "ltoa_digits ! d \<notin> set ''-+xX,''" by auto
qed

definition is_digit_of :: "nat \<Rightarrow> char \<Rightarrow> bool" where
  "is_digit_of base c \<longleftrightarrow> (\<exists>d < base. c = ltoa_digits ! d)"

lemma ltoa_loop_rec:
  "2 \<le> base \<Longrightarrow> ltoa_loop base q =
     ltoa_digits ! (q mod base) # (if q div base = 0 then [] else ltoa_loop base (q div base))"
  by (subst ltoa_loop.simps) (simp add: Let_def minus_div_mult_eq_mod)

lemma ltoa_loop_digits:
  assumes "2 \<le> base"
  shows "list_all (is_digit_of base) (ltoa_loop base q)"
proof (induction q rule: less_induct)
  case (less q)
  have "q mod base < base" using assms by simp
  then have "is_digit_of base (ltoa_digits ! (q mod base))" unfolding is_digit_of_def by blast
  moreover have "q div base \<noteq> 0 \<Longrightarrow> q div base < q"
    using assms by (intro div_less_dividend) (auto intro: Nat.gr0I)
  ultimately show ?case using less ltoa_loop_rec [OF assms, of q] by simp
qed

lemma ltoa_loop_nonempty: "ltoa_loop base q \<noteq> []"
  by (subst ltoa_loop.simps) (simp add: Let_def)

lemma is_digit_ofD:
  assumes "is_digit_of base c" and "base \<le> 16"
  shows "\<exists>d. c_digit c = Some d \<and> d < base" "c \<noteq> CHR 0x00" "\<not> c_isspace c" "c \<notin> set ''-+xX,''"
  using assms ltoa_digit unfolding is_digit_of_def by (auto dest: less_le_trans)

lemma c_digits_ltoa_loop:
  assumes "2 \<le> base" and "base \<le> 16"
  shows "c_digits base 0 (rev (ltoa_loop base q)) = q"
proof (induction q rule: less_induct)
  case (less q)
  have d: "c_digit (ltoa_digits ! (q mod base)) = Some (q mod base)" "q mod base < base"
    using assms by (auto intro!: ltoa_digit(1) less_le_trans [OF mod_less_divisor])
  show ?case
  proof (cases "q div base = 0")
    case True
    then have "q mod base = q" using assms by (simp add: div_eq_0_iff)
    then show ?thesis using d True by (simp add: ltoa_loop_rec [OF assms(1)])
  next
    case False
    then have "q div base < q" using assms by (intro div_less_dividend) (auto intro: Nat.gr0I)
    then have IH: "c_digits base 0 (rev (ltoa_loop base (q div base))) = q div base"
      by (rule less)
    have "list_all (\<lambda>c. \<exists>d. c_digit c = Some d \<and> d < base) (rev (ltoa_loop base (q div base)))"
      using ltoa_loop_digits [OF assms(1), of "q div base"] is_digit_ofD(1) [OF _ assms(2)]
      by (auto simp: list_all_iff)
    then show ?thesis using False d IH
      by (simp add: ltoa_loop_rec [OF assms(1), of q] c_digits_app)
  qed
qed

lemma ultoa_eq: "2 \<le> base \<Longrightarrow> base \<le> 16 \<Longrightarrow> ultoa v base = rev (ltoa_loop base v)"
  by (simp add: ultoa_def Let_def c_reverse_whole)

lemma ltoa_eq:
  "2 \<le> base \<Longrightarrow> base \<le> 16 \<Longrightarrow> v \<noteq> - (2 ^ 31) \<Longrightarrow>
   ltoa v base = Some ((if v < 0 then ''-'' else []) @ rev (ltoa_loop base (nat \<bar>v\<bar>)))"
  by (auto simp: ltoa_def Let_def c_reverse_whole)

text \<open>Characters of a printed number.\<close>

lemma ltoa_chars:
  assumes "2 \<le> base" and "base \<le> 16" and "ltoa v base = Some s"
  shows "s \<noteq> []" and "c \<in> set s \<Longrightarrow> is_digit_of base c \<or> c = CHR ''-''"
proof -
  have "v \<noteq> - (2 ^ 31)" using assms by (auto simp: ltoa_def)
  then have s: "s = (if v < 0 then ''-'' else []) @ rev (ltoa_loop base (nat \<bar>v\<bar>))"
    using ltoa_eq [OF assms(1,2)] assms(3) by simp
  show "s \<noteq> []" using s ltoa_loop_nonempty by simp
  show "c \<in> set s \<Longrightarrow> is_digit_of base c \<or> c = CHR ''-''"
    using s ltoa_loop_digits [OF assms(1), of "nat \<bar>v\<bar>"] by (auto simp: list_all_iff split: if_splits)
qed

lemma c_strtol_digits:
  assumes "2 \<le> base" and "base \<le> 16"
  shows "c_strtol base (rev (ltoa_loop base q)) = long_clamp False q"
    and "c_strtol base (CHR ''-'' # rev (ltoa_loop base q)) = long_clamp True q"
proof -
  let ?s = "rev (ltoa_loop base q)"
  obtain x xs where s: "?s = x # xs" using ltoa_loop_nonempty [of base q] by (cases ?s) auto
  have dig: "\<And>c. c \<in> set ?s \<Longrightarrow> is_digit_of base c"
    using ltoa_loop_digits [OF assms(1), of q] by (auto simp: list_all_iff)
  have nz: "CHR 0x00 \<notin> set ?s" using dig is_digit_ofD(2) [OF _ assms(2)] by blast
  have x: "\<not> c_isspace x" "x \<noteq> CHR ''-''" "x \<noteq> CHR ''+''"
    using is_digit_ofD [OF dig [of x] assms(2)] s by auto
  have nox: "CHR ''x'' \<notin> set ?s" "CHR ''X'' \<notin> set ?s"
    using is_digit_ofD(4) [OF dig assms(2)] by force+
  then have "\<not> c_prefix ''0x'' ?s" "\<not> c_prefix ''0X'' ?s" by (auto simp: c_prefix_iff)
  then have hex: "c_hex_prefix base ?s = ?s" by (simp add: c_hex_prefix_def)
  have val: "c_digits base 0 ?s = q" using assms by (rule c_digits_ltoa_loop)
  show "c_strtol base ?s = long_clamp False q"
    using nz x hex val unfolding s by (simp add: c_strtol_def c_sign_def)
  have "\<not> c_isspace (CHR ''-'')" by (simp add: c_isspace_def char_code_def)
  then show "c_strtol base (CHR ''-'' # ?s) = long_clamp True q"
    using nz hex val by (simp add: c_strtol_def c_sign_def)
qed

lemma ltoa_strtol:
  assumes "2 \<le> base" "base \<le> 16" "- (2 ^ 31) < v" "v < 2 ^ 31"
  shows "\<exists>s. ltoa v base = Some s \<and> c_strtol base s = v"
  using assms ltoa_eq [OF assms(1,2), of v] c_strtol_digits [OF assms(1,2), of "nat \<bar>v\<bar>"]
  by (cases "v < 0") (auto simp: long_clamp_def)

section \<open>Printing and reading as a codec\<close>

text \<open>Decimal numbers, and lists of them with commas between.\<close>

definition printable :: "int \<Rightarrow> bool" where
  "printable v = (- (2 ^ 31) < v \<and> v < 2 ^ 31)"

lemma decimal_chars: "\<forall>d \<in> set [0..<10]. ltoa_digits ! d \<notin> set '',;: ''"
  by code_simp

lemma decimal_no_delim:
  assumes "printable v" "d \<in> set '',;: ''"
  shows "d \<notin> set (the (ltoa v 10))"
proof -
  obtain s where s: "ltoa v 10 = Some s" using ltoa_strtol [of 10 v] assms(1) by (auto simp: printable_def)
  have "c \<noteq> d" if "c \<in> set s" for c
    using ltoa_chars(2) [OF _ _ s that] decimal_chars assms(2) by (auto simp: is_digit_of_def)
  then show ?thesis using s by auto
qed

interpretation decimal: delimited_codec "\<lambda>v. the (ltoa v 10)" "\<lambda>s. Some (c_strtol 10 s)" printable "CHR '',''"
proof
  show "Some (c_strtol 10 (the (ltoa v 10))) = Some v" if "printable v" for v
    using ltoa_strtol [of 10 v] that by (auto simp: printable_def)
  show "CHR '','' \<notin> set (the (ltoa v 10))" if "printable v" for v
    using that by (rule decimal_no_delim) simp
qed

text \<open>C22: \<open>strtol\<close> reads back what \<open>ltoa\<close> prints, in every base from 2 to 16 and for every
  \<open>long\<close> but the least.\<close>

theorem ltoa_roundtrip:
  assumes "2 \<le> base" and "base \<le> 16" and "- (2 ^ 31) < v" and "v < 2 ^ 31"
  shows "\<exists>s. ltoa v base = Some s \<and> c_strtol base s = v \<and> length s \<le> 32"
proof -
  have bound: "length (ltoa_loop base q) \<le> k" if "q < 2 ^ k" "0 < k" for q k
    using that
  proof (induction k arbitrary: q)
    case (Suc k)
    show ?case
    proof (cases "q div base = 0")
      case False
      have "q div base \<le> q div 2" using assms(1) by (simp add: div_le_mono2)
      then have "q div base < 2 ^ k" using Suc.prems by simp
      moreover have "0 < k" using False \<open>q div base < 2 ^ k\<close> by (cases k) auto
      ultimately show ?thesis using Suc.IH False by (simp add: ltoa_loop_rec [OF assms(1)])
    qed (simp add: ltoa_loop_rec [OF assms(1)])
  qed simp
  have "nat \<bar>v\<bar> < 2 ^ 31" using assms(3,4) by simp
  then have "length (ltoa_loop base (nat \<bar>v\<bar>)) \<le> 31" by (rule bound) simp
  then show ?thesis
    using ltoa_strtol [OF assms] ltoa_eq [OF assms(1,2), of v] assms(3) by auto
qed

theorem ltoa_roundtrip_witness: "\<exists>s. ltoa (- 273) 10 = Some s \<and> c_strtol 10 s = - 273 \<and> length s \<le> 32"
  by (rule ltoa_roundtrip) simp_all

end
