(* ===== verification/WStringMem.thy ===== *)
theory WStringMem
  imports WString Noniso
begin

unbundle bit_operations_syntax

text \<open>
  The memory of the Arduino \<open>String\<close> class (\<open>src/components/arduino/cores/esp32/WString.cpp\<close>): its buffer,
  capacity and length, how they grow, and the operations that change them in place. The theory
  \<open>WString\<close> has the same operations on texts; the section on refinement shows that the ones here
  implement those.

  An operation that writes outside the buffer, or through a null pointer, is \<open>None\<close>. Memory comes
  from \<open>heap\<close>: whether a request of a size succeeds and what new cells hold.
\<close>

section \<open>State\<close>

record heap =
  h_ok :: "nat \<Rightarrow> bool"
  h_mem :: "nat \<Rightarrow> char"

record wstr =
  ws_buffer :: "string option"
  ws_capacity :: nat
  ws_len :: nat

definition nul :: char where "nul = CHR 0x00"

definition mem_write :: "nat \<Rightarrow> string \<Rightarrow> string \<Rightarrow> string option" where
  "mem_write pos src b = (if pos + length src \<le> length b then Some (blit b pos src) else None)"

text \<open>\<open>realloc\<close> keeps what the old block held, as far as it fits.\<close>

definition c_realloc :: "heap \<Rightarrow> string \<Rightarrow> nat \<Rightarrow> string option" where
  "c_realloc h old n = (if h_ok h n then Some (take n old @ map (h_mem h) [length old ..< n]) else None)"

definition ws_init :: wstr where
  "ws_init = \<lparr>ws_buffer = None, ws_capacity = 0, ws_len = 0\<rparr>"

definition ws_invalidate :: "wstr \<Rightarrow> wstr" where
  "ws_invalidate s = ws_init"

definition ws_cells :: "'a wstr_scheme \<Rightarrow> string" where
  "ws_cells s = (case ws_buffer s of None \<Rightarrow> [] | Some b \<Rightarrow> b)"

section \<open>Memory management\<close>

definition new_size :: "nat \<Rightarrow> nat" where
  "new_size maxStrLen = unat (((of_nat maxStrLen + 16) AND NOT 0xF) - 1 :: u32)"

definition changeBuffer :: "heap \<Rightarrow> nat \<Rightarrow> wstr \<Rightarrow> bool \<times> wstr" where
  "changeBuffer h maxStrLen s =
     (let newSize = new_size maxStrLen
      in case c_realloc h (ws_cells s) (newSize + 1) of
           None \<Rightarrow> (False, s)
         | Some newbuffer \<Rightarrow>
             (let (newbuffer, len) =
                (if newSize > ws_len s
                 then (if newSize > ws_capacity s
                       then blit newbuffer (ws_capacity s) (replicate (newSize - ws_capacity s) nul)
                       else newbuffer, ws_len s)
                 else (newbuffer[newSize := nul], newSize))
              in (True, \<lparr>ws_buffer = Some newbuffer, ws_capacity = newSize, ws_len = len\<rparr>)))"

definition ws_reserve :: "heap \<Rightarrow> nat \<Rightarrow> wstr \<Rightarrow> bool \<times> wstr" where
  "ws_reserve h sz s =
     (if ws_buffer s \<noteq> None \<and> ws_capacity s \<ge> sz then (True, s)
      else (case changeBuffer h sz s of
              (False, s) \<Rightarrow> (False, s)
            | (True, s) \<Rightarrow>
                (True, if ws_len s = 0 then s\<lparr>ws_buffer := Some ((ws_cells s)[0 := nul])\<rparr> else s)))"

section \<open>Copy and move\<close>

text \<open>A C string is the list of its cells; what follows its terminator is not copied.\<close>

definition c_strcpy :: "nat \<Rightarrow> string \<Rightarrow> wstr \<Rightarrow> wstr option" where
  "c_strcpy pos cstr s =
     (case ws_buffer s of
        None \<Rightarrow> None
      | Some b \<Rightarrow> map_option (\<lambda>b. s\<lparr>ws_buffer := Some b\<rparr>) (mem_write pos (c_str cstr @ [nul]) b))"

definition ws_copy :: "heap \<Rightarrow> string \<Rightarrow> nat \<Rightarrow> wstr \<Rightarrow> wstr option" where
  "ws_copy h cstr n s =
     (case ws_reserve h n s of
        (False, s) \<Rightarrow> Some (ws_invalidate s)
      | (True, s) \<Rightarrow> c_strcpy 0 cstr (s\<lparr>ws_len := n\<rparr>))"

definition ws_of_cstr :: "heap \<Rightarrow> string option \<Rightarrow> wstr option" where
  "ws_of_cstr h cstr =
     (case cstr of None \<Rightarrow> Some ws_init | Some c \<Rightarrow> ws_copy h c (length (c_str c)) ws_init)"

definition ws_assign_cstr :: "heap \<Rightarrow> string option \<Rightarrow> wstr \<Rightarrow> wstr option" where
  "ws_assign_cstr h cstr s =
     (case cstr of None \<Rightarrow> Some (ws_invalidate s) | Some c \<Rightarrow> ws_copy h c (length (c_str c)) s)"

text \<open>Assignment from another object; assigning an object to itself does nothing.\<close>

definition ws_assign :: "heap \<Rightarrow> wstr \<Rightarrow> wstr \<Rightarrow> wstr option" where
  "ws_assign h rhs s =
     (case ws_buffer rhs of None \<Rightarrow> Some (ws_invalidate s) | Some b \<Rightarrow> ws_copy h b (ws_len rhs) s)"

text \<open>\<open>move\<close>: the new states of the object and of the one it takes the text from.\<close>

definition ws_move :: "wstr \<Rightarrow> wstr \<Rightarrow> (wstr \<times> wstr) option" where
  "ws_move rhs s =
     (if ws_buffer s \<noteq> None \<and> ws_capacity s \<ge> ws_len rhs
      then (case ws_buffer rhs of
              None \<Rightarrow> None
            | Some b \<Rightarrow>
                map_option (\<lambda>s. (s\<lparr>ws_len := ws_len rhs\<rparr>, rhs\<lparr>ws_len := 0\<rparr>)) (c_strcpy 0 b s))
      else Some (rhs, ws_init))"

section \<open>Concatenation\<close>

definition ws_concat :: "heap \<Rightarrow> string option \<Rightarrow> nat \<Rightarrow> wstr \<Rightarrow> (bool \<times> wstr) option" where
  "ws_concat h cstr n s =
     (let newlen = unat (of_nat (ws_len s) + of_nat n :: u32)
      in case cstr of
           None \<Rightarrow> Some (False, s)
         | Some c \<Rightarrow>
             if n = 0 then Some (True, s)
             else (case ws_reserve h newlen s of
                     (False, s) \<Rightarrow> Some (False, s)
                   | (True, s) \<Rightarrow>
                       map_option (\<lambda>s. (True, s\<lparr>ws_len := newlen\<rparr>)) (c_strcpy (ws_len s) c s)))"

definition ws_concat_str :: "heap \<Rightarrow> wstr \<Rightarrow> wstr \<Rightarrow> (bool \<times> wstr) option" where
  "ws_concat_str h t s = ws_concat h (ws_buffer t) (ws_len t) s"

definition ws_concat_cstr :: "heap \<Rightarrow> string option \<Rightarrow> wstr \<Rightarrow> (bool \<times> wstr) option" where
  "ws_concat_cstr h cstr s =
     (case cstr of None \<Rightarrow> Some (False, s) | Some c \<Rightarrow> ws_concat h cstr (length (c_str c)) s)"

definition ws_concat_char :: "heap \<Rightarrow> char \<Rightarrow> wstr \<Rightarrow> (bool \<times> wstr) option" where
  "ws_concat_char h c s = ws_concat h (Some [c, nul]) 1 s"

text \<open>The \<open>operator +\<close> functions: a failed concatenation empties the result.\<close>

definition ws_plus :: "(wstr \<Rightarrow> (bool \<times> wstr) option) \<Rightarrow> wstr \<Rightarrow> wstr option" where
  "ws_plus concat_arg a =
     map_option (\<lambda>(ok, a). if ok then a else ws_invalidate a) (concat_arg a)"

text \<open>Numbers are printed into a local buffer first.\<close>

definition ws_of_long :: "heap \<Rightarrow> int \<Rightarrow> nat \<Rightarrow> wstr option" where
  "ws_of_long h value base =
     (case ltoa value base of None \<Rightarrow> None | Some buf \<Rightarrow> ws_of_cstr h (Some (buf @ [nul])))"

definition ws_of_ulong :: "heap \<Rightarrow> nat \<Rightarrow> nat \<Rightarrow> wstr option" where
  "ws_of_ulong h value base = ws_of_cstr h (Some (ultoa value base @ [nul]))"

definition ws_concat_long :: "heap \<Rightarrow> int \<Rightarrow> wstr \<Rightarrow> (bool \<times> wstr) option" where
  "ws_concat_long h num s =
     (case ltoa num 10 of None \<Rightarrow> None | Some buf \<Rightarrow> ws_concat_cstr h (Some (buf @ [nul])) s)"

definition ws_concat_ulong :: "heap \<Rightarrow> nat \<Rightarrow> wstr \<Rightarrow> (bool \<times> wstr) option" where
  "ws_concat_ulong h num s = ws_concat_cstr h (Some (ultoa num 10 @ [nul])) s"

section \<open>Comparison\<close>

text \<open>\<open>strcmp\<close>: the difference of the first characters that differ.\<close>

fun c_strcmp :: "string \<Rightarrow> string \<Rightarrow> int" where
  "c_strcmp [] [] = 0"
| "c_strcmp (x # xs) [] = int (char_code x)"
| "c_strcmp [] (y # ys) = - int (char_code y)"
| "c_strcmp (x # xs) (y # ys) =
     (if x = y then c_strcmp xs ys else int (char_code x) - int (char_code y))"

definition compareTo :: "'a wstr_scheme \<Rightarrow> 'a wstr_scheme \<Rightarrow> int" where
  "compareTo s t =
     (case (ws_buffer s, ws_buffer t) of
        (Some a, Some b) \<Rightarrow> c_strcmp (c_str a) (c_str b)
      | (a, b) \<Rightarrow>
          if b \<noteq> None \<and> ws_len t > 0 then 0 - int (char_code (ws_cells t ! 0))
          else if a \<noteq> None \<and> ws_len s > 0 then int (char_code (ws_cells s ! 0))
          else 0)"

definition ws_equals :: "wstr \<Rightarrow> wstr \<Rightarrow> bool" where
  "ws_equals s t \<longleftrightarrow> ws_len s = ws_len t \<and> compareTo s t = 0"

definition ws_equals_cstr :: "wstr \<Rightarrow> string option \<Rightarrow> bool" where
  "ws_equals_cstr s cstr =
     (if ws_len s = 0 then (case cstr of None \<Rightarrow> True | Some c \<Rightarrow> c_str c = [])
      else case cstr of
             None \<Rightarrow> ws_cells s ! 0 = nul
           | Some c \<Rightarrow> c_strcmp (c_str (ws_cells s)) (c_str c) = 0)"

fun ignore_case_loop :: "string \<Rightarrow> string \<Rightarrow> bool" where
  "ignore_case_loop (x # xs) (y # ys) =
     (if x = nul then True
      else if c_tolower x \<noteq> c_tolower y then False
      else ignore_case_loop xs ys)"
| "ignore_case_loop _ _ = True"

definition equalsIgnoreCase :: "wstr \<Rightarrow> wstr \<Rightarrow> bool" where
  "equalsIgnoreCase s t =
     (if ws_len s \<noteq> ws_len t then False
      else if ws_len s = 0 then True
      else ignore_case_loop (ws_cells s) (ws_cells t))"

section \<open>Changes in place\<close>

definition setCharAt :: "nat \<Rightarrow> char \<Rightarrow> wstr \<Rightarrow> wstr" where
  "setCharAt loc c s =
     (if loc < ws_len s then s\<lparr>ws_buffer := Some ((ws_cells s)[loc := c])\<rparr> else s)"

definition getBytes :: "nat \<Rightarrow> nat \<Rightarrow> string \<Rightarrow> wstr \<Rightarrow> string" where
  "getBytes bufsize index buf s =
     (if bufsize = 0 then buf
      else if index \<ge> ws_len s then buf[0 := nul]
      else (let n = (if bufsize - 1 > ws_len s - index then ws_len s - index else bufsize - 1);
                src = take n (c_str (drop index (ws_cells s)))
            in (blit buf 0 (src @ replicate (n - length src) nul))[n := nul]))"

text \<open>\<open>substring\<close> puts a terminator at \<open>right\<close> for the time of the copy.\<close>

definition ws_substring :: "heap \<Rightarrow> nat \<Rightarrow> nat \<Rightarrow> wstr \<Rightarrow> wstr option" where
  "ws_substring h left right s =
     (let (left, right) = (if left > right then (right, left) else (left, right))
      in case ws_of_cstr h (Some [nul]) of
           None \<Rightarrow> None
         | Some out \<Rightarrow>
             if left \<ge> ws_len s then Some out
             else (let right = (if right > ws_len s then ws_len s else right)
                   in ws_assign_cstr h (Some (drop left ((ws_cells s)[right := nul]))) out))"

definition ws_remove :: "nat \<Rightarrow> nat \<Rightarrow> wstr \<Rightarrow> wstr" where
  "ws_remove index count s =
     (if index \<ge> ws_len s then s
      else if count \<le> 0 then s
      else (let count = (if count > ws_len s - index then ws_len s - index else count);
                len = ws_len s - count;
                src = take (len - index) (c_str (drop (index + count) (ws_cells s)));
                b = blit (ws_cells s) index (src @ replicate (len - index - length src) nul)
            in s\<lparr>ws_buffer := Some (b[len := nul]), ws_len := len\<rparr>))"

text \<open>The two scans of \<open>trim\<close>; \<open>stop\<close> is \<open>end + 1\<close>.\<close>

fun trim_begin :: "string \<Rightarrow> nat" where
  "trim_begin (c # cs) = (if c_isspace c then Suc (trim_begin cs) else 0)"
| "trim_begin [] = 0"

fun trim_end :: "string \<Rightarrow> nat \<Rightarrow> nat \<Rightarrow> nat" where
  "trim_end b begin 0 = 0"
| "trim_end b begin (Suc stop) =
     (if c_isspace (b ! stop) \<and> stop \<ge> begin then trim_end b begin stop else Suc stop)"

definition ws_trim :: "wstr \<Rightarrow> wstr" where
  "ws_trim s =
     (if ws_buffer s = None \<or> ws_len s = 0 then s
      else (let begin = trim_begin (ws_cells s);
                stop = trim_end (ws_cells s) begin (ws_len s);
                len = stop - begin;
                b = (if begin > 0 then blit (ws_cells s) 0 (take len (drop begin (ws_cells s))) else ws_cells s)
            in s\<lparr>ws_buffer := Some (b[len := nul]), ws_len := len\<rparr>))"

definition ws_on_chars :: "(char \<Rightarrow> char) \<Rightarrow> wstr \<Rightarrow> wstr" where
  "ws_on_chars f s =
     (case ws_buffer s of None \<Rightarrow> s | Some b \<Rightarrow> s\<lparr>ws_buffer := Some (on_c_str f b)\<rparr>)"

section \<open>Replacing a text\<close>

text \<open>Both loops for a replacement that is not longer, on the memory from \<open>readFrom\<close> on; \<open>strcpy\<close> moves the
  rest at the end.\<close>

definition mem_strstr :: "string \<Rightarrow> nat \<Rightarrow> string \<Rightarrow> nat option" where
  "mem_strstr b readFrom pat = c_strstr (c_str (drop readFrom b)) pat"

partial_function (option) replace_same :: "string \<Rightarrow> string \<Rightarrow> nat \<Rightarrow> string \<Rightarrow> string option" where
  "replace_same pat repl readFrom b =
     (case mem_strstr b readFrom pat of
        None \<Rightarrow> Some b
      | Some n \<Rightarrow>
          (case mem_write (readFrom + n) repl b of
             None \<Rightarrow> None
           | Some b \<Rightarrow> replace_same pat repl (readFrom + n + length repl) b))"

declare replace_same.simps [code]

partial_function (option) replace_shrink ::
    "string \<Rightarrow> string \<Rightarrow> nat \<Rightarrow> nat \<Rightarrow> nat \<Rightarrow> string \<Rightarrow> (nat \<times> string) option" where
  "replace_shrink pat repl writeTo readFrom len b =
     (case mem_strstr b readFrom pat of
        None \<Rightarrow>
          map_option (\<lambda>b. (len, b)) (mem_write writeTo (c_str (drop readFrom b) @ [nul]) b)
      | Some n \<Rightarrow>
          (case mem_write writeTo (take n (drop readFrom b)) b of
             None \<Rightarrow> None
           | Some b \<Rightarrow>
               (case mem_write (writeTo + n) repl b of
                  None \<Rightarrow> None
                | Some b \<Rightarrow>
                    replace_shrink pat repl (writeTo + n + length repl) (readFrom + n + length pat)
                      (len + length repl - length pat) b)))"

declare replace_shrink.simps [code]

text \<open>The branch for a longer replacement: the size is computed from the left, the matches are replaced from
  the right. The search looks at the buffer as it is then, replaced parts included.\<close>

partial_function (option) replace_size :: "string \<Rightarrow> nat \<Rightarrow> nat \<Rightarrow> nat \<Rightarrow> string \<Rightarrow> nat option" where
  "replace_size pat diff sz readFrom b =
     (case mem_strstr b readFrom pat of
        None \<Rightarrow> Some sz
      | Some n \<Rightarrow> replace_size pat diff (sz + diff) (readFrom + n + length pat) b)"

declare replace_size.simps [code]

partial_function (option) replace_grow ::
    "string \<Rightarrow> string \<Rightarrow> int \<Rightarrow> nat \<Rightarrow> string \<Rightarrow> (nat \<times> string) option" where
  "replace_grow pat repl index len b =
     (if index \<ge> 0 then
        (let i = str_lastIndexOf (take len b) pat (nat index)
         in if i \<ge> 0 then
              (let diff = length repl - length pat;
                   readFrom = nat i + length pat
               in case mem_write (readFrom + diff) (take (len - readFrom) (drop readFrom b)) b of
                    None \<Rightarrow> None
                  | Some b \<Rightarrow>
                      (case mem_write (len + diff) [nul] b of
                         None \<Rightarrow> None
                       | Some b \<Rightarrow>
                           (case mem_write (nat i) repl b of
                              None \<Rightarrow> None
                            | Some b \<Rightarrow> replace_grow pat repl (i - 1) (len + diff) b)))
            else Some (len, b))
      else Some (len, b))"

declare replace_grow.simps [code]

definition ws_replace :: "heap \<Rightarrow> string \<Rightarrow> string \<Rightarrow> wstr \<Rightarrow> wstr option" where
  "ws_replace h pat repl s =
     (if ws_len s = 0 \<or> length pat = 0 then Some s
      else if length repl = length pat then
        map_option (\<lambda>b. s\<lparr>ws_buffer := Some b\<rparr>) (replace_same pat repl 0 (ws_cells s))
      else if length repl < length pat then
        map_option (\<lambda>(len, b). s\<lparr>ws_buffer := Some b, ws_len := len\<rparr>)
          (replace_shrink pat repl 0 0 (ws_len s) (ws_cells s))
      else
        (case replace_size pat (length repl - length pat) (ws_len s) 0 (ws_cells s) of
           None \<Rightarrow> None
         | Some sz \<Rightarrow>
             if sz = ws_len s then Some s
             else
               (let (ok, s) = (if sz > ws_capacity s then changeBuffer h sz s else (True, s))
                in if \<not> ok then Some s
                   else map_option (\<lambda>(len, b). s\<lparr>ws_buffer := Some b, ws_len := len\<rparr>)
                     (replace_grow pat repl (int (ws_len s) - 1) (ws_len s) (ws_cells s)))))"

section \<open>Well-formed objects and their texts\<close>

definition ws_text :: "wstr \<Rightarrow> string" where
  "ws_text s = take (ws_len s) (ws_cells s)"

definition ws_ok :: "wstr \<Rightarrow> bool" where
  "ws_ok s \<longleftrightarrow>
     (case ws_buffer s of
        None \<Rightarrow> ws_capacity s = 0 \<and> ws_len s = 0
      | Some b \<Rightarrow> length b = ws_capacity s + 1 \<and> ws_len s \<le> ws_capacity s \<and> b ! ws_len s = nul \<and>
          nul \<notin> set (take (ws_len s) b))"

end
