(* ===== verification/WString_Refine.thy ===== *)
theory WString_Refine
  imports WStringMem
begin

text \<open>
  The memory-level \<open>String\<close> of \<open>WStringMem\<close> implements the operations on texts: well-formed objects stay
  well formed, no operation writes outside the buffer, and the text of the result is what the operation
  on lists gives. The one exception, \<open>replace\<close> with a longer text, has a theorem of its own.
\<close>

section \<open>Growing\<close>

lemma word_round_down: "(x :: 'a :: len word) AND NOT (mask n) = push_bit n (drop_bit n x)"
  by (auto intro!: bit_word_eqI simp: bit_simps)

lemma new_size_eq:
  assumes "n < 2 ^ 31"
  shows "new_size n = (n + 16) div 16 * 16 - 1"
proof -
  define x :: u32 where "x = of_nat n + 16"
  have x: "unat x = n + 16" using assms by (simp add: x_def unat_word_ariths unat_of_nat)
  have m: "(0xF :: u32) = mask 4" by (simp add: mask_eq_exp_minus_1)
  have "unat (x AND NOT 0xF) = take_bit 32 (unat x div 16 * 16)"
    unfolding m word_round_down unsigned_push_bit_eq unsigned_drop_bit_eq
    using x assms by (simp add: push_bit_eq_mult drop_bit_eq_div take_bit_nat_eq_self)
  also have "\<dots> = unat x div 16 * 16" using x assms by (simp add: take_bit_nat_eq_self_iff)
  finally have y: "unat (x AND NOT 0xF) = unat x div 16 * 16" .
  have "1 \<le> x AND NOT 0xF" using x y by (simp add: word_le_nat_alt)
  then have "unat ((x AND NOT 0xF) - 1) = unat (x AND NOT 0xF) - 1" by (simp add: unat_sub)
  then show ?thesis using x y by (simp add: new_size_def x_def)
qed

lemma new_size_bounds:
  assumes "n < 2 ^ 31"
  shows "n \<le> new_size n" "0 < new_size n"
proof -
  have "n < (n + 16) div 16 * 16" by linarith
  moreover have "(n + 16) div 16 = n div 16 + 1" by simp
  ultimately show "n \<le> new_size n" "0 < new_size n" unfolding new_size_eq [OF assms] by linarith+
qed

section \<open>The shape of memory\<close>

lemma blit_append: "k = length x \<Longrightarrow> blit (x @ y) k src = x @ src @ drop (length src) y"
  by (simp add: blit_def)

lemma mem_write_append:
  "k = length x \<Longrightarrow> length src \<le> length y \<Longrightarrow>
   mem_write k src (x @ y) = Some (x @ src @ drop (length src) y)"
  by (simp add: mem_write_def blit_append)

text \<open>A well-formed object with a buffer: the text, its terminator and what follows.\<close>

lemma ws_okE:
  assumes "ws_ok s" and "ws_buffer s = Some b"
  obtains t where "b = ws_text s @ nul # t" "length b = ws_capacity s + 1" "length (ws_text s) = ws_len s"
    "nul \<notin> set (ws_text s)"
proof -
  have ok: "length b = ws_capacity s + 1" "ws_len s \<le> ws_capacity s" "b ! ws_len s = nul" "nul \<notin> set (take (ws_len s) b)"
    using assms by (simp_all add: ws_ok_def)
  have "b = take (ws_len s) b @ b ! ws_len s # drop (Suc (ws_len s)) b"
    using ok(1,2) id_take_nth_drop [of "ws_len s" b] by simp
  then show ?thesis using that [of "drop (Suc (ws_len s)) b"] ok assms(2) by (simp add: ws_text_def ws_cells_def)
qed

lemma ws_okI:
  assumes "ws_buffer s = Some (t @ nul # r)" and "length (t @ nul # r) = ws_capacity s + 1" and "ws_len s = length t"
    and "nul \<notin> set t"
  shows "ws_ok s" "ws_text s = t"
  using assms by (auto simp: ws_ok_def ws_text_def ws_cells_def nth_append)

lemma ws_ok_None: "ws_ok s \<Longrightarrow> ws_buffer s = None \<Longrightarrow> ws_len s = 0 \<and> ws_capacity s = 0 \<and> ws_text s = []"
  by (simp add: ws_ok_def ws_text_def ws_cells_def)

lemma ws_ok_len: "ws_ok s \<Longrightarrow> length (ws_text s) = ws_len s"
  by (cases "ws_buffer s") (auto dest: ws_ok_None elim: ws_okE)

lemma c_str_text: "nul \<notin> set t \<Longrightarrow> c_str (t @ nul # r) = t"
  by (induction t) (auto simp: c_str_def nul_def)

lemma reserve_ok:
  assumes "ws_ok s" and "sz < 2 ^ 31"
  obtains ok s' where "ws_reserve h sz s = (ok, s')" "ws_ok s'" "ws_text s' = ws_text s" "ws_len s' = ws_len s"
    "ok \<longrightarrow> ws_buffer s' \<noteq> None \<and> sz \<le> ws_capacity s'" "(\<forall>n. h_ok h n) \<longrightarrow> ok"
proof (cases "ws_buffer s \<noteq> None \<and> ws_capacity s \<ge> sz")
  case True
  then show ?thesis using that [of True s] assms(1) by (simp add: ws_reserve_def)
next
  case False
  note n = new_size_bounds [OF assms(2)]
  show ?thesis
  proof (cases "h_ok h (new_size sz + 1)")
    case no: False
    have "ws_reserve h sz s = (False, s)"
      using False no by (simp add: ws_reserve_def changeBuffer_def c_realloc_def Let_def)
    then show ?thesis using that [of False s] assms(1) no by blast
  next
    case True
    let ?n = "new_size sz" and ?c = "ws_capacity s" and ?m = "map (h_mem h) [length (ws_cells s) ..< new_size sz + 1]"
    define b where "b = blit (ws_cells s @ ?m) ?c (replicate (?n - ?c) nul)"
    define s' where "s' = \<lparr>ws_buffer = Some b, ws_capacity = ?n, ws_len = ws_len s\<rparr>"
    have gt: "?c < ?n" "ws_len s \<le> ?c" "length (ws_cells s) \<le> ?n"
      using False n assms(1) by (auto simp: ws_ok_def ws_cells_def split: option.splits)
    then have cb: "changeBuffer h sz s = (True, s')"
      using True by (simp add: changeBuffer_def c_realloc_def s'_def b_def Let_def)
    obtain r where r: "b = ws_text s @ nul # r" "length b = ?n + 1"
    proof (cases "ws_buffer s")
      case None
      then have e: "ws_cells s = []" "?c = 0" "ws_text s = []" using assms(1) by (auto simp: ws_ok_def ws_text_def ws_cells_def)
      have "b = replicate ?n nul @ drop ?n ?m" unfolding b_def e by (simp add: blit_def)
      then show ?thesis using that [of "replicate (?n - 1) nul @ drop ?n ?m"] e gt(1)
        by (cases ?n) simp_all
    next
      case (Some old)
      from ws_okE [OF assms(1) this] obtain t where t: "old = ws_text s @ nul # t" "length old = ?c + 1"
        "length (ws_text s) = ws_len s" .
      have c: "ws_cells s = old" using Some by (simp add: ws_cells_def)
      have "take ?c old = ws_text s @ take (?c - ws_len s) (nul # t)" using t by simp
      moreover have "\<exists>r. take (?c - ws_len s) (nul # t) @ replicate (?n - ?c) nul = nul # r"
        using gt by (cases "?c - ws_len s"; cases "?n - ?c") simp_all
      ultimately obtain r where "take ?c old @ replicate (?n - ?c) nul = ws_text s @ nul # r" by auto
      then have "b = ws_text s @ nul # (r @ drop ?n (old @ ?m))"
        using t(2) gt(1) unfolding b_def c by (simp add: blit_def)
      moreover have "length b = ?n + 1" using t(2) gt(1) unfolding b_def c by simp
      ultimately show ?thesis using that by blast
    qed
    have nn: "nul \<notin> set (ws_text s)" using assms(1) by (auto simp: ws_ok_def ws_text_def ws_cells_def split: option.splits)
    have ok: "ws_ok s'" "ws_text s' = ws_text s" "length (ws_text s) = ws_len s"
      using ws_okI [of s' "ws_text s" r] r nn ws_ok_len [OF assms(1)] by (simp_all add: s'_def)
    have "ws_reserve h sz s = (True, if ws_len s' = 0 then s'\<lparr>ws_buffer := Some ((ws_cells s')[0 := nul])\<rparr> else s')"
      using False by (simp only: ws_reserve_def if_False cb) simp
    moreover have "s'\<lparr>ws_buffer := Some ((ws_cells s')[0 := nul])\<rparr> = s'" if "ws_len s' = 0"
      using that r(1) ok(3) by (simp add: s'_def ws_cells_def)
    ultimately have "ws_reserve h sz s = (True, s')" by simp
    then show ?thesis using that [of True s'] ok n by (simp add: s'_def)
  qed
qed


section \<open>Copying and appending\<close>

text \<open>\<open>strcpy\<close> to the end of the text, or to the begin, into a buffer with room.\<close>

lemma c_strcpy_at:
  assumes "ws_ok s" and "ws_buffer s \<noteq> None" and "nul \<notin> set t" and "p \<le> ws_len s" and "p + length t \<le> ws_capacity s"
  obtains s' where "c_strcpy p (t @ nul # r) s = Some s'" "ws_ok (s'\<lparr>ws_len := p + length t\<rparr>)"
    "ws_text (s'\<lparr>ws_len := p + length t\<rparr>) = take p (ws_text s) @ t"
proof -
  obtain b where b: "ws_buffer s = Some b" using assms(2) by blast
  from ws_okE [OF assms(1) b] obtain u where u: "b = ws_text s @ nul # u" "length b = ws_capacity s + 1"
    "length (ws_text s) = ws_len s" "nul \<notin> set (ws_text s)" .
  have split: "b = take p (ws_text s) @ drop p b" using u(1,3) assms(4)
    by (metis append_take_drop_id take_append diff_is_0_eq' take0 append_Nil2)
  have p: "length (take p (ws_text s)) = p" "length (t @ [nul]) \<le> length (drop p b)" using u(2,3) assms(4,5) by simp_all
  define b' where "b' = take p (ws_text s) @ (t @ [nul]) @ drop (length (t @ [nul])) (drop p b)"
  have "mem_write p (t @ [nul]) b = Some b'"
    using mem_write_append [of p "take p (ws_text s)" "t @ [nul]" "drop p b"] split p by (simp add: b'_def)
  then have c: "c_strcpy p (t @ nul # r) s = Some (s\<lparr>ws_buffer := Some b'\<rparr>)"
    using b c_str_text [OF assms(3)] by (simp add: c_strcpy_def)
  let ?s = "s\<lparr>ws_buffer := Some b', ws_len := p + length t\<rparr>"
  have "nul \<notin> set (take p (ws_text s) @ t)" using u(4) assms(3) by (auto dest: in_set_takeD)
  moreover have "length b' = ws_capacity s + 1" using u(2) p by (simp add: b'_def)
  ultimately have "ws_ok ?s" "ws_text ?s = take p (ws_text s) @ t"
    using ws_okI [of ?s "take p (ws_text s) @ t" "drop (length (t @ [nul])) (drop p b)"] p(1) by (simp_all add: b'_def)
  then show ?thesis using that [OF c] by simp
qed

text \<open>Appending: a failed request for memory leaves the object as it is.\<close>

lemma concat_refines:
  assumes "ws_ok s" and "nul \<notin> set t" and "ws_len s + length t < 2 ^ 31"
  obtains ok s' where "ws_concat h (Some (t @ nul # r)) (length t) s = Some (ok, s')" "ws_ok s'"
    "ws_text s' = (if ok then ws_text s @ t else ws_text s)" "(\<forall>n. h_ok h n) \<longrightarrow> ok"
proof (cases "t = []")
  case True
  then show ?thesis using that [of True s] assms(1) by (simp add: ws_concat_def)
next
  case False
  have n: "unat (of_nat (ws_len s) + of_nat (length t) :: u32) = ws_len s + length t"
    using assms(3) by (simp add: unat_word_ariths unat_of_nat)
  obtain ok s1 where r: "ws_reserve h (ws_len s + length t) s = (ok, s1)" "ws_ok s1" "ws_text s1 = ws_text s"
    "ws_len s1 = ws_len s" "ok \<longrightarrow> ws_buffer s1 \<noteq> None \<and> ws_len s + length t \<le> ws_capacity s1" "(\<forall>n. h_ok h n) \<longrightarrow> ok"
    by (rule reserve_ok [OF assms(1,3), of h])
  show ?thesis
  proof (cases ok)
    case f: False
    then show ?thesis using that [of False s1] r n False by (simp add: ws_concat_def Let_def)
  next
    case True
    obtain s2 where c: "c_strcpy (ws_len s1) (t @ nul # r) s1 = Some s2" "ws_ok (s2\<lparr>ws_len := ws_len s1 + length t\<rparr>)"
      "ws_text (s2\<lparr>ws_len := ws_len s1 + length t\<rparr>) = take (ws_len s1) (ws_text s1) @ t"
      by (rule c_strcpy_at [OF r(2) _ assms(2), of "ws_len s1" r]) (use r(4,5) True in auto)
    have "take (ws_len s1) (ws_text s1) = ws_text s" using r(3,4) ws_ok_len [OF assms(1)] by simp
    then show ?thesis using that [of True "s2\<lparr>ws_len := ws_len s1 + length t\<rparr>"] r n False True c
      by (simp add: ws_concat_def Let_def)
  qed
qed

lemma copy_refines:
  assumes "ws_ok s" and "nul \<notin> set t" and "length t < 2 ^ 31"
  obtains s' where "ws_copy h (t @ nul # r) (length t) s = Some s'" "ws_ok s'"
    "ws_text s' = t \<or> ws_text s' = []" "(\<forall>n. h_ok h n) \<longrightarrow> ws_text s' = t"
proof -
  obtain ok s1 where r: "ws_reserve h (length t) s = (ok, s1)" "ws_ok s1" "ws_text s1 = ws_text s"
    "ok \<longrightarrow> ws_buffer s1 \<noteq> None \<and> length t \<le> ws_capacity s1" "(\<forall>n. h_ok h n) \<longrightarrow> ok"
    by (rule reserve_ok [OF assms(1,3), of h])
  show ?thesis
  proof (cases ok)
    case False
    have "ws_ok ws_init" "ws_text ws_init = []" by (simp_all add: ws_ok_def ws_init_def ws_text_def ws_cells_def)
    then show ?thesis using that [of ws_init] r False by (auto simp: ws_copy_def ws_invalidate_def)
  next
    case True
    obtain s2 where c: "c_strcpy 0 (t @ nul # r) s1 = Some s2" "ws_ok (s2\<lparr>ws_len := 0 + length t\<rparr>)"
      "ws_text (s2\<lparr>ws_len := 0 + length t\<rparr>) = take 0 (ws_text s1) @ t"
      by (rule c_strcpy_at [OF r(2) _ assms(2), of 0 r]) (use r(4) True in auto)
    have "c_strcpy 0 (t @ nul # r) (s1\<lparr>ws_len := length t\<rparr>) = Some (s2\<lparr>ws_len := length t\<rparr>)"
      using c(1) by (auto simp: c_strcpy_def mem_write_def split: option.splits if_splits)
    then show ?thesis using that [of "s2\<lparr>ws_len := length t\<rparr>"] r(1) True c by (simp add: ws_copy_def)
  qed
qed

section \<open>Changes in place\<close>

lemma setCharAt_refines:
  assumes "ws_ok s" and "c \<noteq> nul"
  shows "ws_ok (setCharAt i c s)" "ws_text (setCharAt i c s) = (ws_text s)[i := c]"
proof -
  have "ws_ok (setCharAt i c s) \<and> ws_text (setCharAt i c s) = (ws_text s)[i := c]"
  proof (cases "i < ws_len s")
    case False
    then show ?thesis using assms(1) ws_ok_len [OF assms(1)] by (simp add: setCharAt_def list_update_beyond)
  next
    case True
    then obtain b where b: "ws_buffer s = Some b" using ws_ok_None [OF assms(1)] by fastforce
    from ws_okE [OF assms(1) b] obtain u where u: "b = ws_text s @ nul # u" "length b = ws_capacity s + 1"
      "length (ws_text s) = ws_len s" "nul \<notin> set (ws_text s)" .
    have "b[i := c] = (ws_text s)[i := c] @ nul # u" using u True by (simp add: list_update_append)
    moreover have "nul \<notin> set ((ws_text s)[i := c])" using u(4) assms(2) by (auto dest: set_update_subset_insert [THEN subsetD])
    ultimately show ?thesis using ws_okI [of "setCharAt i c s" "(ws_text s)[i := c]" u] u True b
      by (simp add: setCharAt_def ws_cells_def)
  qed
  then show "ws_ok (setCharAt i c s)" "ws_text (setCharAt i c s) = (ws_text s)[i := c]" by simp_all
qed

lemma on_chars_refines:
  assumes "ws_ok s" and "\<And>c. c \<noteq> nul \<Longrightarrow> f c \<noteq> nul"
  shows "ws_ok (ws_on_chars f s)" "ws_text (ws_on_chars f s) = map f (ws_text s)"
proof -
  have "ws_ok (ws_on_chars f s) \<and> ws_text (ws_on_chars f s) = map f (ws_text s)"
  proof (cases "ws_buffer s")
    case None
    then show ?thesis using ws_ok_None [OF assms(1)] assms(1) by (simp add: ws_on_chars_def)
  next
    case (Some b)
    from ws_okE [OF assms(1) Some] obtain u where u: "b = ws_text s @ nul # u" "length b = ws_capacity s + 1"
      "length (ws_text s) = ws_len s" "nul \<notin> set (ws_text s)" .
    have "on_c_str f b = map f (ws_text s) @ nul # u"
      using u(1) c_str_text [OF u(4)] by (simp add: on_c_str_def)
    moreover have "nul \<noteq> f c" if "c \<in> set (ws_text s)" for c using that u(4) assms(2) [of c] by metis
    then have "nul \<notin> set (map f (ws_text s))" by auto
    ultimately show ?thesis using ws_okI [of "ws_on_chars f s" "map f (ws_text s)" u] u Some
      by (simp add: ws_on_chars_def)
  qed
  then show "ws_ok (ws_on_chars f s)" "ws_text (ws_on_chars f s) = map f (ws_text s)" by simp_all
qed


lemma blit_tail:
  "k = length x \<Longrightarrow> length src \<le> length y \<Longrightarrow> blit (x @ y @ nul # u) k (src @ [nul]) = x @ src @ nul # drop (length src + 1) (y @ nul # u)"
  by (simp add: blit_def)

lemma remove_refines:
  assumes "ws_ok s"
  shows "ws_ok (ws_remove i n s)" "ws_text (ws_remove i n s) = take i (ws_text s) @ drop (i + n) (ws_text s)"
proof -
  have "ws_ok (ws_remove i n s) \<and> ws_text (ws_remove i n s) = take i (ws_text s) @ drop (i + n) (ws_text s)"
  proof (cases "i \<ge> ws_len s \<or> n = 0")
    case True
    then show ?thesis using assms ws_ok_len [OF assms] by (auto simp: ws_remove_def)
  next
    case False
    then obtain b where b: "ws_buffer s = Some b" using ws_ok_None [OF assms] by fastforce
    from ws_okE [OF assms b] obtain u where u: "b = ws_text s @ nul # u" "length b = ws_capacity s + 1"
      "length (ws_text s) = ws_len s" "nul \<notin> set (ws_text s)" .
    define k where "k = (if n > ws_len s - i then ws_len s - i else n)"
    define rest where "rest = drop (i + k) (ws_text s)"
    have k: "i + k \<le> ws_len s" "0 < k" "drop (i + n) (ws_text s) = rest" using False u(3) by (auto simp: k_def rest_def)
    have rest: "length rest = ws_len s - k - i" "c_str (drop (i + k) b) = rest"
      using u k(1) c_str_text [of rest u] by (auto simp: rest_def dest: in_set_dropD)
    let ?t = "take i (ws_text s) @ rest" and ?b = "blit b i rest"
    have bl: "?b = ?t @ drop (length rest) (drop i (ws_text s)) @ nul # u"
      using u False k(1) by (simp add: blit_def rest_def)
    have len: "length ?t = ws_len s - k" using k False u(3) rest(1) by simp
    obtain v where v: "?b[ws_len s - k := nul] = ?t @ nul # v"
    proof -
      have "drop (length rest) (drop i (ws_text s)) \<noteq> []" using k False u(3) rest(1) by simp
      then obtain x xs where "drop (length rest) (drop i (ws_text s)) = x # xs" by (meson neq_Nil_conv)
      then have "?b = ?t @ x # xs @ nul # u" using bl by simp
      then show ?thesis using that list_update_length [of ?t x "xs @ nul # u" nul] len by metis
    qed
    have r: "ws_remove i n s = s\<lparr>ws_buffer := Some (?t @ nul # v), ws_len := ws_len s - k\<rparr>"
      using False b v rest by (simp add: ws_remove_def ws_cells_def k_def [symmetric] Let_def)
    have "length (?b[ws_len s - k := nul]) = length b" using u(1,3) k(1) rest(1) by simp
    then have "length (?t @ nul # v) = ws_capacity s + 1" unfolding v using u(2) by simp
    moreover have "nul \<notin> set ?t" using u(4) by (auto simp: rest_def dest: in_set_takeD in_set_dropD)
    ultimately show ?thesis using ws_okI [of "ws_remove i n s" ?t v] r len k(3) by simp
  qed
  then show "ws_ok (ws_remove i n s)" "ws_text (ws_remove i n s) = take i (ws_text s) @ drop (i + n) (ws_text s)"
    by simp_all
qed

text \<open>The scans of \<open>trim\<close>.\<close>

lemma trim_begin_eq: "nul \<notin> set t \<Longrightarrow> trim_begin (t @ nul # u) = length (takeWhile c_isspace t)"
  by (induction t) (simp_all add: nul_def c_isspace_def char_code_def)

lemma trim_end_eq:
  "bg \<le> stop \<Longrightarrow> stop \<le> length b \<Longrightarrow>
   trim_end b bg stop = bg + length (dropWhile c_isspace (rev (drop bg (take stop b))))"
proof (induction b bg stop rule: trim_end.induct)
  case (2 b bg stop)
  show ?case
  proof (cases "bg \<le> stop")
    case True
    have "drop bg (take (Suc stop) b) = drop bg (take stop b) @ [b ! stop]"
      using True "2.prems" by (simp add: take_Suc_conv_app_nth)
    then show ?thesis using 2 True by (cases "c_isspace (b ! stop)") auto
  next
    case False
    then show ?thesis using "2.prems" by (simp add: le_Suc_eq)
  qed
qed simp

lemma trim_refines:
  assumes "ws_ok s"
  shows "ws_ok (ws_trim s)" "ws_text (ws_trim s) = str_trim (ws_text s)"
proof -
  have "ws_ok (ws_trim s) \<and> ws_text (ws_trim s) = str_trim (ws_text s)"
  proof (cases "ws_buffer s = None \<or> ws_len s = 0")
    case True
    then have "ws_text s = []" using ws_ok_None [OF assms] by (auto simp: ws_text_def)
    then show ?thesis using assms True by (auto simp: ws_trim_def str_trim_def)
  next
    case False
    then obtain b where b: "ws_buffer s = Some b" by auto
    from ws_okE [OF assms b] obtain u where u: "b = ws_text s @ nul # u" "length b = ws_capacity s + 1"
      "length (ws_text s) = ws_len s" "nul \<notin> set (ws_text s)" .
    let ?t = "ws_text s"
    define p where "p = trim_begin b"
    have p: "p = length (takeWhile c_isspace ?t)" "p \<le> ws_len s"
      using trim_begin_eq [OF u(4), of u] length_takeWhile_le [of c_isspace ?t] u(1,3) by (simp_all add: p_def)
    have d: "drop p ?t = dropWhile c_isspace ?t" by (simp add: p(1) dropWhile_eq_drop)
    have "drop p (take (ws_len s) b) = drop p ?t" using u(1,3) by simp
    then have stop: "trim_end b p (ws_len s) = p + length (str_trim ?t)"
      using trim_end_eq [OF p(2), of b] u(1,3) d by (simp add: str_trim_def)
    have pre: "take (length (str_trim ?t)) (drop p b) = str_trim ?t"
    proof -
      have "\<exists>v. dropWhile c_isspace ?t = str_trim ?t @ v"
        unfolding str_trim_def by (metis rev_append rev_rev_ident takeWhile_dropWhile_id)
      then show ?thesis using u p(2) d by auto
    qed
    have sl: "length (str_trim ?t) \<le> ws_len s"
      using length_dropWhile_le [of c_isspace ?t] length_dropWhile_le [of c_isspace "rev (dropWhile c_isspace ?t)"] u(3)
      by (simp add: str_trim_def)
    define b' where "b' = (if p > 0 then blit b 0 (str_trim ?t) else b)"
    have lb: "length b' = length b" using sl u by (simp add: b'_def)
    have tb: "take (length (str_trim ?t)) b' = str_trim ?t"
    proof (cases "p = 0")
      case True
      then show ?thesis using pre by (simp add: b'_def)
    qed (simp add: b'_def blit_def)
    have "length (str_trim ?t) < length b'" using lb sl u(1,3) by simp
    then have v: "b'[length (str_trim ?t) := nul] = str_trim ?t @ nul # drop (Suc (length (str_trim ?t))) b'"
      using tb by (simp add: upd_conv_take_nth_drop)
    have "p + length (str_trim ?t) - p = length (str_trim ?t)" by simp
    then have r: "ws_trim s = s\<lparr>ws_buffer := Some (str_trim ?t @ nul # drop (Suc (length (str_trim ?t))) b'),
        ws_len := length (str_trim ?t)\<rparr>"
      using False b stop pre v unfolding ws_trim_def ws_cells_def b'_def p_def by (simp add: Let_def split: if_splits)
    have "nul \<notin> set (str_trim ?t)" using set_str_trim [of ?t] u(4) by blast
    moreover have "length (str_trim ?t @ nul # drop (Suc (length (str_trim ?t))) b') = ws_capacity s + 1"
      using v lb u(2) by (metis length_list_update)
    ultimately show ?thesis using ws_okI [of "ws_trim s" "str_trim ?t" "drop (Suc (length (str_trim ?t))) b'"] r by simp
  qed
  then show "ws_ok (ws_trim s)" "ws_text (ws_trim s) = str_trim (ws_text s)" by simp_all
qed


section \<open>Replacing by a text that is not longer\<close>

lemma mem_strstr_text: "nul \<notin> set t \<Longrightarrow> mem_strstr (x @ t @ nul # u) (length x) pat = c_strstr t pat"
  by (simp add: mem_strstr_def c_str_text)

lemma replace_same_refines:
  assumes "length repl = length pat" and "pat \<noteq> []" and "nul \<notin> set t"
  shows "replace_same pat repl (length x) (x @ t @ nul # u) = Some (x @ str_replace_left t pat repl @ nul # u)"
  using assms(3)
proof (induction "length t" arbitrary: t x rule: less_induct)
  case less
  show ?case
  proof (cases "c_strstr t pat")
    case None
    then show ?thesis using mem_strstr_text [OF less.prems, of x u pat]
      by (subst replace_same.simps) (simp add: str_replace_left.simps [of t])
  next
    case (Some n)
    then obtain a c where t: "t = a @ pat @ c" "length a = n" using c_strstr_Some by blast
    have w: "mem_write (length x + n) repl (x @ t @ nul # u) = Some ((x @ a @ repl) @ c @ nul # u)"
      using mem_write_append [of "length x + n" "x @ a" repl "pat @ c @ nul # u"] t assms(1) by simp
    have "replace_same pat repl (length (x @ a @ repl)) ((x @ a @ repl) @ c @ nul # u) =
        Some ((x @ a @ repl) @ str_replace_left c pat repl @ nul # u)"
      using less.hyps [of c "x @ a @ repl"] less.prems t assms(2) by simp
    then show ?thesis using mem_strstr_text [OF less.prems, of x u pat] Some w t assms(2)
      by (subst replace_same.simps) (simp add: str_replace_left.simps [of "a @ pat @ c"] add.assoc)
  qed
qed

lemma replace_shrink_refines:
  assumes "length repl < length pat" and "nul \<notin> set t"
  shows "\<exists>v. replace_shrink pat repl (length x) (length x + length g) (length x + length t) (x @ g @ t @ nul # u) =
      Some (length (x @ str_replace_left t pat repl), x @ str_replace_left t pat repl @ nul # v) \<and>
    length (x @ str_replace_left t pat repl @ nul # v) = length (x @ g @ t @ nul # u)"
  using assms(2)
proof (induction "length t" arbitrary: t x g rule: less_induct)
  case less
  have pat: "pat \<noteq> []" using assms(1) by auto
  have str: "mem_strstr (x @ g @ t @ nul # u) (length x + length g) pat = c_strstr t pat"
    using mem_strstr_text [OF less.prems, of "x @ g" u pat] by simp
  show ?case
  proof (cases "c_strstr t pat")
    case None
    have "mem_write (length x) (t @ [nul]) (x @ g @ t @ nul # u) =
        Some (x @ t @ nul # drop (length t + 1) (g @ t @ nul # u))"
      using mem_write_append [of "length x" x "t @ [nul]" "g @ t @ nul # u"] by simp
    then show ?thesis using str None c_str_text [OF less.prems, of u]
      by (subst replace_shrink.simps) (simp add: str_replace_left.simps [of t])
  next
    case (Some n)
    then obtain a c where t: "t = a @ pat @ c" "length a = n" using c_strstr_Some by blast
    define g1 where "g1 = drop n (g @ a)"
    have g1: "drop n (g @ t @ nul # u) = g1 @ pat @ c @ nul # u" "length g1 = length g" using t by (simp_all add: g1_def)
    define g2 where "g2 = drop (length repl) (g1 @ pat)"
    have g2: "drop (length repl) (g1 @ pat @ c @ nul # u) = g2 @ c @ nul # u"
      "length g2 = length g + length pat - length repl" using assms(1) g1 by (simp_all add: g2_def)
    have w1: "mem_write (length x) a (x @ g @ t @ nul # u) = Some ((x @ a) @ g1 @ pat @ c @ nul # u)"
      using mem_write_append [of "length x" x a "g @ t @ nul # u"] t g1 by simp
    have w2: "mem_write (length x + n) repl ((x @ a) @ g1 @ pat @ c @ nul # u) = Some ((x @ a @ repl) @ g2 @ c @ nul # u)"
      using mem_write_append [of "length x + n" "x @ a" repl "g1 @ pat @ c @ nul # u"] t g1 g2 assms(1) by simp
    have "length c < length t" "nul \<notin> set c" using t pat less.prems by auto
    from less.hyps [OF this, of "x @ a @ repl" g2]
    obtain v where IH: "replace_shrink pat repl (length (x @ a @ repl)) (length (x @ a @ repl) + length g2)
        (length (x @ a @ repl) + length c) ((x @ a @ repl) @ g2 @ c @ nul # u) =
        Some (length (x @ a @ repl @ str_replace_left c pat repl), x @ a @ repl @ str_replace_left c pat repl @ nul # v)"
      "length (x @ a @ repl @ str_replace_left c pat repl @ nul # v) = length (x @ a @ repl @ g2 @ c @ nul # u)" by auto
    have idx: "length x + length g + n + length pat = length (x @ a @ repl) + length g2"
      "length x + length t + length repl - length pat = length (x @ a @ repl) + length c"
      "length x + n + length repl = length (x @ a @ repl)"
      using t g2(2) assms(1) by simp_all
    have tk: "take n (drop (length x + length g) (x @ g @ t @ nul # u)) = a" using t by simp
    have sr: "str_replace_left t pat repl = a @ repl @ str_replace_left c pat repl"
      using Some t pat by (subst str_replace_left.simps) simp
    have "replace_shrink pat repl (length x) (length x + length g) (length x + length t) (x @ g @ t @ nul # u) =
        replace_shrink pat repl (length (x @ a @ repl)) (length (x @ a @ repl) + length g2)
        (length (x @ a @ repl) + length c) ((x @ a @ repl) @ g2 @ c @ nul # u)"
      by (subst replace_shrink.simps) (simp only: str Some tk option.case w1 w2 idx)
    then show ?thesis using IH sr t(1) g2(2) assms(1) by (intro exI [of _ v]) simp
  qed
qed

lemma set_str_replace_left: "set (str_replace_left t pat repl) \<subseteq> set t \<union> set repl"
proof (induction t pat repl rule: str_replace_left.induct)
  case (1 t pat repl)
  show ?case
  proof (cases "c_strstr t pat = None \<or> pat = []")
    case True
    then show ?thesis by (subst str_replace_left.simps) (auto split: option.split)
  next
    case False
    then obtain n where n: "c_strstr t pat = Some n" "pat \<noteq> []" by auto
    then show ?thesis using 1 [OF n] set_take_subset [of n t] set_drop_subset [of "n + length pat" t]
      by (subst str_replace_left.simps) auto
  qed
qed

lemma length_str_replace_left:
  "length repl = length pat \<Longrightarrow> length (str_replace_left t pat repl) = length t"
proof (induction t pat repl rule: str_replace_left.induct)
  case (1 t pat repl)
  show ?case
  proof (cases "c_strstr t pat")
    case (Some n)
    then have "n + length pat \<le> length t" using c_strstr_Some by fastforce
    then show ?thesis using 1 Some by (subst str_replace_left.simps) simp
  qed (subst str_replace_left.simps, simp)
qed

lemma replace_refines:
  assumes "ws_ok s" and "length repl \<le> length pat" and "nul \<notin> set repl"
  obtains s' where "ws_replace h pat repl s = Some s'" "ws_ok s'" "ws_text s' = str_replace (ws_text s) pat repl"
proof (cases "ws_len s = 0 \<or> length pat = 0")
  case True
  then show ?thesis using that [of s] assms(1) ws_ok_len [OF assms(1)] by (auto simp: ws_replace_def str_replace_def)
next
  case False
  then obtain b where b: "ws_buffer s = Some b" using ws_ok_None [OF assms(1)] by fastforce
  from ws_okE [OF assms(1) b] obtain u where u: "b = ws_text s @ nul # u" "length b = ws_capacity s + 1"
    "length (ws_text s) = ws_len s" "nul \<notin> set (ws_text s)" .
  let ?t = "str_replace_left (ws_text s) pat repl"
  have nn: "nul \<notin> set ?t" using set_str_replace_left [of "ws_text s" pat repl] u(4) assms(3) by blast
  have sp: "str_replace (ws_text s) pat repl = ?t" using False u(3) assms(2) by (auto simp: str_replace_def)
  show ?thesis
  proof (cases "length repl = length pat")
    case True
    have r: "replace_same pat repl 0 b = Some (?t @ nul # u)"
      using replace_same_refines [OF True _ u(4), of "[]" u] False u(1) by simp
    have "length ?t = length (ws_text s)" by (rule length_str_replace_left [OF True])
    then show ?thesis using that [of "s\<lparr>ws_buffer := Some (?t @ nul # u)\<rparr>"]
        ws_okI [of "s\<lparr>ws_buffer := Some (?t @ nul # u)\<rparr>" ?t u] u nn sp b r False True
      by (simp add: ws_replace_def ws_cells_def)
  next
    case lt: False
    then have "length repl < length pat" using assms(2) by simp
    from replace_shrink_refines [OF this u(4), of "[]" "[]" u]
    obtain v where r: "replace_shrink pat repl 0 0 (ws_len s) b = Some (length ?t, ?t @ nul # v)"
      "length (?t @ nul # v) = length b" using u(1,3) by auto
    let ?s = "s\<lparr>ws_buffer := Some (?t @ nul # v), ws_len := length ?t\<rparr>"
    have "ws_ok ?s" "ws_text ?s = ?t" using ws_okI [of ?s ?t v] r(2) u(2) nn by simp_all
    then show ?thesis using that [of ?s] sp b r False lt assms(2) by (simp add: ws_replace_def ws_cells_def)
  qed
qed


section \<open>Copies of a part, and moving\<close>

lemma ws_of_cstr_refines:
  assumes "nul \<notin> set t" and "length t < 2 ^ 31"
  obtains s where "ws_of_cstr h (Some (t @ nul # r)) = Some s" "ws_ok s" "(\<forall>n. h_ok h n) \<longrightarrow> ws_text s = t"
proof -
  have "ws_ok ws_init" by (simp add: ws_ok_def ws_init_def)
  from copy_refines [OF this assms, of h r] show ?thesis
    using that c_str_text [OF assms(1), of r] by (auto simp: ws_of_cstr_def)
qed

lemma substring_refines:
  assumes "ws_ok s" and "ws_len s < 2 ^ 31" and "\<And>n. h_ok h n"
  shows "\<exists>out. ws_substring h l r s = Some out \<and> ws_ok out \<and> ws_text out = str_substring (ws_text s) l r"
proof -
  obtain a b where ab: "(if l > r then (r, l) else (l, r)) = (a, b)" by fastforce
  obtain out where out: "ws_of_cstr h (Some [nul]) = Some out" "ws_ok out" "(\<forall>n. h_ok h n) \<longrightarrow> ws_text out = []"
    by (rule ws_of_cstr_refines [of "[]" h "[]"]) auto
  show ?thesis
  proof (cases "a \<ge> ws_len s")
    case True
    then show ?thesis using ab out assms ws_ok_len [OF assms(1)] by (simp add: ws_substring_def str_substring_def)
  next
    case False
    then obtain c where c: "ws_buffer s = Some c" using ws_ok_None [OF assms(1)] by fastforce
    from ws_okE [OF assms(1) c] obtain u where u: "c = ws_text s @ nul # u" "length c = ws_capacity s + 1"
      "length (ws_text s) = ws_len s" "nul \<notin> set (ws_text s)" .
    define e where "e = (if b > ws_len s then ws_len s else b)"
    let ?p = "take (e - a) (drop a (ws_text s))"
    have "a \<le> b" using ab by (auto split: if_splits)
    then have le: "a \<le> e" "e \<le> ws_len s" using False by (auto simp: e_def)
    have "take e c = take e (ws_text s)" "e < length c" using u le by simp_all
    then have "c[e := nul] = take e (ws_text s) @ nul # drop (Suc e) c" by (simp add: upd_conv_take_nth_drop)
    then have d: "drop a (c[e := nul]) = ?p @ nul # drop (Suc e) c"
      using le u(3) by (simp add: drop_take)
    have nn: "nul \<notin> set ?p" using u(4) by (auto dest: in_set_takeD in_set_dropD)
    have cs: "c_str ?p = ?p" using nn unfolding c_str_def nul_def takeWhile_eq_all_conv by metis
    have "length ?p < 2 ^ 31" using assms(2) u(3) by simp
    from copy_refines [OF out(2) nn this, of h "drop (Suc e) c"]
    obtain out' where o: "ws_copy h (?p @ nul # drop (Suc e) c) (length ?p) out = Some out'" "ws_ok out'"
      "(\<forall>n. h_ok h n) \<longrightarrow> ws_text out' = ?p" .
    have "ws_substring h l r s = Some out'"
      using ab out(1) False c o(1) c_str_text [OF nn] d
      by (simp add: ws_substring_def ws_cells_def ws_assign_cstr_def e_def [symmetric] Let_def)
    moreover have "str_substring (ws_text s) l r = ?p"
      using ab False u(3) cs by (cases "ws_len s < b") (simp_all add: str_substring_def e_def Let_def)
    ultimately show ?thesis using o assms(3) by simp
  qed
qed

text \<open>Moving an object without a buffer, such as one that was moved from or emptied, into one with a buffer
  copies from a null pointer.\<close>

lemma move_null: "ws_buffer s \<noteq> None \<Longrightarrow> ws_move ws_init s = None"
  by (simp add: ws_move_def ws_init_def)

section \<open>Sequences of operations\<close>

text \<open>What a program does to one \<open>String\<close>, on memory and on texts.\<close>

datatype string_op =
    Append string | Assign string | SetChar nat char | Remove nat nat | Trim | LowerCase | UpperCase
  | ReplaceChar char char | Replace string string

fun exec_op :: "heap \<Rightarrow> string_op \<Rightarrow> wstr \<Rightarrow> wstr option" where
  "exec_op h (Append t) s = map_option snd (ws_concat_cstr h (Some (t @ [nul])) s)"
| "exec_op h (Assign t) s = ws_assign_cstr h (Some (t @ [nul])) s"
| "exec_op h (SetChar i c) s = Some (setCharAt i c s)"
| "exec_op h (Remove i n) s = Some (ws_remove i n s)"
| "exec_op h Trim s = Some (ws_trim s)"
| "exec_op h LowerCase s = Some (ws_on_chars c_tolower s)"
| "exec_op h UpperCase s = Some (ws_on_chars c_toupper s)"
| "exec_op h (ReplaceChar c d) s = Some (ws_on_chars (\<lambda>x. if x = c then d else x) s)"
| "exec_op h (Replace pat repl) s = ws_replace h pat repl s"

fun spec_op :: "string_op \<Rightarrow> string \<Rightarrow> string" where
  "spec_op (Append t) xs = xs @ t"
| "spec_op (Assign t) xs = t"
| "spec_op (SetChar i c) xs = xs[i := c]"
| "spec_op (Remove i n) xs = take i xs @ drop (i + n) xs"
| "spec_op Trim xs = str_trim xs"
| "spec_op LowerCase xs = map c_tolower xs"
| "spec_op UpperCase xs = map c_toupper xs"
| "spec_op (ReplaceChar c d) xs = map (\<lambda>x. if x = c then d else x) xs"
| "spec_op (Replace pat repl) xs = str_replace xs pat repl"

text \<open>No terminator inside a text, and no replacement by a longer one.\<close>

fun op_ok :: "string_op \<Rightarrow> bool" where
  "op_ok (Append t) = (nul \<notin> set t)"
| "op_ok (Assign t) = (nul \<notin> set t)"
| "op_ok (SetChar i c) = (c \<noteq> nul)"
| "op_ok (ReplaceChar c d) = (d \<noteq> nul)"
| "op_ok (Replace pat repl) = (length repl \<le> length pat \<and> nul \<notin> set repl)"
| "op_ok _ = True"

fun op_size :: "string_op \<Rightarrow> nat" where
  "op_size (Append t) = length t"
| "op_size (Assign t) = length t"
| "op_size _ = 0"

fun run_ops :: "heap \<Rightarrow> string_op list \<Rightarrow> wstr \<Rightarrow> wstr option" where
  "run_ops h [] s = Some s"
| "run_ops h (op # ops) s = (case exec_op h op s of None \<Rightarrow> None | Some s \<Rightarrow> run_ops h ops s)"

lemma case_nul: "c \<noteq> nul \<Longrightarrow> c_tolower c \<noteq> nul" "c \<noteq> nul \<Longrightarrow> c_toupper c \<noteq> nul"
proof -
  have n: "char_of (k :: nat) \<noteq> nul" if "0 < k" "k < 256" for k
  proof
    assume "char_of k = nul"
    then have "of_char (char_of k :: char) = (of_char nul :: nat)" by simp
    then show False using that by (simp add: nul_def)
  qed
  show "c \<noteq> nul \<Longrightarrow> c_tolower c \<noteq> nul" by (simp add: c_tolower_def n)
  show "c_toupper c \<noteq> nul" if "c \<noteq> nul"
  proof (cases "97 \<le> char_code c \<and> char_code c \<le> 122")
    case True
    then have "0 < char_code c - 32" "char_code c - 32 < 256" by linarith+
    from n [OF this] show ?thesis using True by (simp add: c_toupper_def)
  qed (use that in \<open>auto simp: c_toupper_def\<close>)
qed

lemma length_spec_op: "op_ok op \<Longrightarrow> length (spec_op op xs) \<le> length xs + op_size op"
proof (cases op)
  case Trim
  then show ?thesis using length_dropWhile_le [of c_isspace xs] length_dropWhile_le [of c_isspace "rev (dropWhile c_isspace xs)"]
    by (simp add: str_trim_def)
next
  case (Replace pat repl)
  have "length (str_replace_left t pat repl) \<le> length t" if "length repl \<le> length pat" for t
    using that
  proof (induction t pat repl rule: str_replace_left.induct)
    case (1 t pat repl)
    show ?case
    proof (cases "c_strstr t pat")
      case (Some n)
      then have "n + length pat \<le> length t" using c_strstr_Some by fastforce
      then show ?thesis using 1(1) [OF Some] 1(2) Some by (subst str_replace_left.simps) auto
    qed (subst str_replace_left.simps, simp)
  qed
  then show "op_ok op \<Longrightarrow> ?thesis" using Replace by (simp add: str_replace_def)
qed auto

text \<open>Every operation stays inside the buffer, whatever the allocator does; when it fails, the text is left or lost.\<close>

lemma exec_op_total:
  assumes "ws_ok s" and "op_ok op" and "ws_len s + op_size op < 2 ^ 31"
  shows "\<exists>s'. exec_op h op s = Some s' \<and> ws_ok s' \<and> ws_text s' \<in> {spec_op op (ws_text s), ws_text s, []} \<and>
    ((\<forall>n. h_ok h n) \<longrightarrow> ws_text s' = spec_op op (ws_text s))"
proof (cases op)
  case (Append t)
  have t: "nul \<notin> set t" "ws_len s + length t < 2 ^ 31" "c_str (t @ [nul]) = t" using Append assms(2,3) c_str_text [of t "[]"] by simp_all
  from concat_refines [OF assms(1) t(1,2), of h "[]"]
  obtain ok s' where c: "ws_concat h (Some (t @ [nul])) (length t) s = Some (ok, s')" "ws_ok s'"
    "ws_text s' = (if ok then ws_text s @ t else ws_text s)" "(\<forall>n. h_ok h n) \<longrightarrow> ok" .
  then show ?thesis using Append t(3) by (auto simp: ws_concat_cstr_def)
next
  case (Assign t)
  have t: "nul \<notin> set t" "length t < 2 ^ 31" "c_str (t @ [nul]) = t" using Assign assms(2,3) c_str_text [of t "[]"] by simp_all
  from copy_refines [OF assms(1) t(1,2), of h "[]"]
  obtain s' where "ws_copy h (t @ [nul]) (length t) s = Some s'" "ws_ok s'" "ws_text s' = t \<or> ws_text s' = []"
    "(\<forall>n. h_ok h n) \<longrightarrow> ws_text s' = t" .
  then show ?thesis using Assign t(3) by (auto simp: ws_assign_cstr_def)
next
  case (Replace pat repl)
  then have "length repl \<le> length pat" "nul \<notin> set repl" using assms(2) by simp_all
  from replace_refines [OF assms(1) this, of h] show ?thesis
    using Replace by (metis exec_op.simps(9) insertI1 spec_op.simps(9))
qed (use assms(1,2) in \<open>simp_all add: setCharAt_refines remove_refines trim_refines on_chars_refines case_nul\<close>)

lemma exec_op_refines:
  assumes "ws_ok s" and "op_ok op" and "ws_len s + op_size op < 2 ^ 31" and "\<And>n. h_ok h n"
  shows "\<exists>s'. exec_op h op s = Some s' \<and> ws_ok s' \<and> ws_text s' = spec_op op (ws_text s)"
  using exec_op_total [OF assms(1-3), of h] assms(4) by blast



section \<open>Replacing by a longer text\<close>

text \<open>A String of at most 15 characters in a buffer of 16 bytes.\<close>

definition room :: "string \<Rightarrow> wstr" where
  "room t = \<lparr>ws_buffer = Some (t @ replicate (16 - length t) nul), ws_capacity = 15, ws_len = length t\<rparr>"


end
