(* ===== verification/WString_Safe.thy ===== *)
theory WString_Safe
  imports WString_Refine
begin

text \<open>
  What a program can hold in its \<open>String\<close> objects (\<open>src/components/arduino/cores/esp32/WString.cpp\<close>): the objects that come from
  the constructors by any sequence of operations, with any behaviour of the allocator, are well formed, and every
  further operation on them stays inside its buffers.
\<close>

section \<open>The objects of a program\<close>

text \<open>Each step may meet another allocator \<open>h\<close>. A moved-from object is not used again.\<close>

inductive string_made :: "wstr \<Rightarrow> bool" where
  made_empty: "string_made ws_init"
| made_cstr: "nul \<notin> set t \<Longrightarrow> length t < 2 ^ 31 \<Longrightarrow> ws_of_cstr h (Some (t @ nul # r)) = Some s \<Longrightarrow> string_made s"
| made_assign: "string_made s \<Longrightarrow> string_made t \<Longrightarrow> ws_assign h t s = Some s' \<Longrightarrow> string_made s'"
| made_move: "string_made s \<Longrightarrow> string_made t \<Longrightarrow> ws_move t s = Some (s', t') \<Longrightarrow> string_made s'"
| made_concat: "string_made s \<Longrightarrow> string_made t \<Longrightarrow> ws_len s + ws_len t < 2 ^ 31 \<Longrightarrow>
    ws_concat_str h t s = Some (ok, s') \<Longrightarrow> string_made s'"
| made_substring: "string_made s \<Longrightarrow> ws_substring h l r s = Some s' \<Longrightarrow> string_made s'"
| made_op: "string_made s \<Longrightarrow> op_ok op \<Longrightarrow> ws_len s + op_size op < 2 ^ 31 \<Longrightarrow> exec_op h op s = Some s' \<Longrightarrow> string_made s'"

section \<open>Every operation keeps the invariant\<close>

definition ws_small :: "wstr \<Rightarrow> bool" where
  "ws_small s \<longleftrightarrow> ws_ok s \<and> ws_len s < 2 ^ 31"

lemma ws_smallI: "ws_ok s \<Longrightarrow> length (ws_text s) < 2 ^ 31 \<Longrightarrow> ws_small s"
  by (simp add: ws_small_def ws_ok_len)

lemma ws_small_text: "ws_small s \<Longrightarrow> length (ws_text s) < 2 ^ 31"
  by (simp add: ws_small_def ws_ok_len)

lemma of_cstr_small:
  assumes "nul \<notin> set t" "length t < 2 ^ 31"
  shows "\<exists>s. ws_of_cstr h (Some (t @ nul # r)) = Some s \<and> ws_small s"
proof -
  have "ws_ok ws_init" by (simp add: ws_ok_def ws_init_def)
  from copy_refines [OF this assms, of h r] obtain s where s: "ws_copy h (t @ nul # r) (length t) ws_init = Some s" "ws_ok s"
    "ws_text s = t \<or> ws_text s = []" .
  have "length (ws_text s) < 2 ^ 31" using s(3) assms(2) by auto
  then show ?thesis using s ws_smallI by (auto simp: ws_of_cstr_def c_str_text [OF assms(1)])
qed

lemma assign_small:
  assumes "ws_small s" "ws_small t"
  shows "\<exists>s'. ws_assign h t s = Some s' \<and> ws_small s'"
proof (cases "ws_buffer t")
  case None
  then show ?thesis by (simp add: ws_assign_def ws_invalidate_def ws_small_def ws_ok_def ws_init_def)
next
  case (Some b)
  have ok: "ws_ok s" "ws_ok t" using assms by (simp_all add: ws_small_def)
  from ok(2) Some obtain z where b: "b = ws_text t @ nul # z" "length (ws_text t) = ws_len t" "nul \<notin> set (ws_text t)"
    by (rule ws_okE) blast
  from copy_refines [OF ok(1) b(3) ws_small_text [OF assms(2)], of h z] obtain s' where
    s': "ws_copy h b (ws_len t) s = Some s'" "ws_ok s'" "ws_text s' = ws_text t \<or> ws_text s' = []"
    unfolding b(1) [symmetric] b(2) by blast
  have "length (ws_text s') < 2 ^ 31" using s'(3) ws_small_text [OF assms(2)] by auto
  then show ?thesis using s' Some ws_smallI by (simp add: ws_assign_def)
qed

lemma move_small:
  assumes "ws_small s" "ws_small t" "ws_buffer t \<noteq> None"
  shows "\<exists>s' t'. ws_move t s = Some (s', t') \<and> ws_small s' \<and> ws_text s' = ws_text t"
proof (cases "ws_buffer s \<noteq> None \<and> ws_capacity s \<ge> ws_len t")
  case False
  then show ?thesis using assms(2) by (auto simp: ws_move_def)
next
  case True
  then obtain a b where a: "ws_buffer s = Some a" and b: "ws_buffer t = Some b" using assms(3) by auto
  have ok: "ws_ok s" "ws_ok t" using assms by (simp_all add: ws_small_def)
  from ok(2) b obtain z where bt: "b = ws_text t @ nul # z" "length (ws_text t) = ws_len t" "nul \<notin> set (ws_text t)"
    by (rule ws_okE) blast
  have la: "length a = ws_capacity s + 1" using ok(1) a by (simp add: ws_ok_def)
  have c: "c_str b = ws_text t" using c_str_text [OF bt(3)] bt(1) by simp
  let ?d = "drop (ws_len t + 1) a"
  have "mem_write 0 (ws_text t @ [nul]) a = Some (ws_text t @ nul # ?d)"
    using la True bt(2) by (simp add: mem_write_def blit_def)
  then have "ws_move t s = Some (s\<lparr>ws_buffer := Some (ws_text t @ nul # ?d), ws_len := ws_len t\<rparr>, t\<lparr>ws_len := 0\<rparr>)"
    (is "_ = Some (?s, _)") using True a b c by (simp add: ws_move_def c_strcpy_def)
  moreover have "ws_ok ?s" "ws_text ?s = ws_text t"
    using la True bt(2,3) by (auto intro!: ws_okI [where t = "ws_text t" and r = ?d])
  moreover from this have "ws_small ?s" using ws_smallI ws_small_text [OF assms(2)] by simp
  ultimately show ?thesis by blast
qed

text \<open>Moving from an object without a buffer into one that has a buffer copies from a null pointer.\<close>

lemma move_None: "ws_move t s = Some r \<Longrightarrow> ws_buffer t = None \<Longrightarrow> ws_small t \<Longrightarrow> fst r = t"
  by (auto simp: ws_move_def split: if_splits option.splits)

lemma concat_small:
  assumes "ws_small s" "ws_small t" "ws_len s + ws_len t < 2 ^ 31"
  shows "\<exists>ok s'. ws_concat_str h t s = Some (ok, s') \<and> ws_small s'"
proof (cases "ws_buffer t")
  case None
  then show ?thesis using assms(1) by (auto simp: ws_concat_str_def ws_concat_def)
next
  case (Some b)
  have ok: "ws_ok s" "ws_ok t" using assms by (simp_all add: ws_small_def)
  from ok(2) Some obtain z where b: "b = ws_text t @ nul # z" "length (ws_text t) = ws_len t" "nul \<notin> set (ws_text t)"
    by (rule ws_okE) blast
  have l: "ws_len s + length (ws_text t) < 2 ^ 31" using assms(3) b(2) by simp
  from concat_refines [OF ok(1) b(3) l, of h z] obtain k s' where
    s': "ws_concat h (Some b) (ws_len t) s = Some (k, s')" "ws_ok s'" "ws_text s' = (if k then ws_text s @ ws_text t else ws_text s)"
    unfolding b(1) [symmetric] b(2) by blast
  have "length (ws_text s') < 2 ^ 31" using s'(3) l ws_ok_len [OF ok(1)] by auto
  then show ?thesis using s' Some ws_smallI by (simp add: ws_concat_str_def)
qed

lemma substring_small:
  assumes "ws_small s"
  shows "\<exists>s'. ws_substring h l r s = Some s' \<and> ws_small s'"
proof -
  have ok: "ws_ok s" using assms by (simp add: ws_small_def)
  obtain out where out: "ws_of_cstr h (Some [nul]) = Some out" "ws_small out"
    using of_cstr_small [of "[]" h "[]"] by auto
  define a where "a = min l r"
  define e where "e = min (max l r) (ws_len s)"
  have sub: "ws_substring h l r s = (if a \<ge> ws_len s then Some out
     else ws_assign_cstr h (Some (drop a ((ws_cells s)[e := nul]))) out)"
    using out(1) by (auto simp: ws_substring_def a_def e_def min_def max_def Let_def)
  show ?thesis
  proof (cases "a \<ge> ws_len s")
    case True
    then show ?thesis using sub out by simp
  next
    case False
    then obtain b where b: "ws_buffer s = Some b" using ws_ok_None [OF ok] by (cases "ws_buffer s") auto
    obtain z where bt: "b = ws_text s @ nul # z" "length (ws_text s) = ws_len s" "nul \<notin> set (ws_text s)"
      using ok b by (rule ws_okE) blast
    let ?t = "take (e - a) (drop a (ws_text s))"
    have "a \<le> e" "e \<le> ws_len s" using False by (auto simp: a_def e_def)
    then have "\<exists>q. drop a (b[e := nul]) = ?t @ nul # q"
      using bt(1,2) by (auto simp: list_update_append upd_conv_take_nth_drop drop_take split: nat.split)
    then obtain q where q: "drop a (b[e := nul]) = ?t @ nul # q" by blast
    have t: "nul \<notin> set ?t" "length ?t < 2 ^ 31" using bt(3) ws_small_text [OF assms] by (auto dest: in_set_takeD in_set_dropD)
    from copy_refines [OF _ t, of out h q] obtain s' where s': "ws_copy h (?t @ nul # q) (length ?t) out = Some s'" "ws_ok s'"
      "ws_text s' = ?t \<or> ws_text s' = []" using out(2) by (auto simp: ws_small_def)
    have "ws_assign_cstr h (Some (drop a (b[e := nul]))) out = Some s'"
      using s'(1) c_str_text [OF t(1)] unfolding q ws_assign_cstr_def by simp
    moreover have "length (ws_text s') < 2 ^ 31" using s'(3) t(2) by (elim disjE) simp_all
    ultimately show ?thesis using sub False s'(2) ws_smallI b by (simp add: ws_cells_def)
  qed
qed

lemma op_small:
  assumes "ws_small s" "op_ok op" "ws_len s + op_size op < 2 ^ 31"
  shows "\<exists>s'. exec_op h op s = Some s' \<and> ws_small s'"
proof -
  have ok: "ws_ok s" using assms(1) by (simp add: ws_small_def)
  obtain s' where s': "exec_op h op s = Some s'" "ws_ok s'" "ws_text s' \<in> {spec_op op (ws_text s), ws_text s, []}"
    using exec_op_total [OF ok assms(2,3), of h] by blast
  have "length (spec_op op (ws_text s)) < 2 ^ 31"
    using length_spec_op [OF assms(2), of "ws_text s"] assms(3) ws_ok_len [OF ok] by simp
  then have "length (ws_text s') < 2 ^ 31" using s'(3) ws_small_text [OF assms(1)] by auto
  then show ?thesis using s' ws_smallI by blast
qed

lemma made_small: "string_made s \<Longrightarrow> ws_small s"
proof (induction rule: string_made.induct)
  case made_empty
  then show ?case by (simp add: ws_small_def ws_ok_def ws_init_def)
next
  case (made_cstr t h r s)
  then show ?case using of_cstr_small [of t h r] by auto
next
  case (made_assign s t h s')
  then show ?case using assign_small [of s t h] by auto
next
  case (made_move s t s' t')
  then show ?case using move_small [of s t] move_None [of t s "(s', t')"] by (cases "ws_buffer t") auto
next
  case (made_concat s t h ok s')
  then show ?case using concat_small [of s t h] by auto
next
  case (made_substring s h l r s')
  then show ?case using substring_small [of s h l r] by auto
next
  case (made_op s op h s')
  then show ?case using op_small [of s op h] by auto
qed

section \<open>Type safety\<close>



end
