(* ===== verification/WString_Order.thy ===== *)
theory WString_Order
  imports WString_Refine "HOL-Library.Char_ord" "HOL-Library.List_Lexorder"
begin

text \<open>
  The comparisons of the class \<open>String\<close> (\<open>src/components/arduino/cores/esp32/WString.cpp\<close>): its relational operators give the
  objects an order in the sense of the library, and on well-formed objects that is the lexicographic order of the texts,
  although objects without a buffer and objects with an empty one are handled apart.
\<close>

section \<open>The operators\<close>

definition ws_less :: "'a wstr_scheme \<Rightarrow> 'a wstr_scheme \<Rightarrow> bool" where
  "ws_less s rhs \<longleftrightarrow> compareTo s rhs < 0"

definition ws_less_eq :: "'a wstr_scheme \<Rightarrow> 'a wstr_scheme \<Rightarrow> bool" where
  "ws_less_eq s rhs \<longleftrightarrow> compareTo s rhs \<le> 0"

definition ws_greater :: "wstr \<Rightarrow> wstr \<Rightarrow> bool" where
  "ws_greater s rhs \<longleftrightarrow> compareTo s rhs > 0"

definition ws_greater_eq :: "wstr \<Rightarrow> wstr \<Rightarrow> bool" where
  "ws_greater_eq s rhs \<longleftrightarrow> compareTo s rhs \<ge> 0"

text \<open>They are the order of the objects for the library.\<close>

instantiation wstr_ext :: (type) ord
begin

definition less_eq_wstr_ext :: "'a wstr_scheme \<Rightarrow> 'a wstr_scheme \<Rightarrow> bool" where
  "less_eq_wstr_ext s rhs \<longleftrightarrow> ws_less_eq s rhs"

definition less_wstr_ext :: "'a wstr_scheme \<Rightarrow> 'a wstr_scheme \<Rightarrow> bool" where
  "less_wstr_ext s rhs \<longleftrightarrow> ws_less s rhs"

instance ..

end

section \<open>The order of texts\<close>

lemma char_code_less: "char_code x < char_code y \<longleftrightarrow> x < y"
  by (simp add: char_code_def less_char_def)

lemma char_code_eq: "char_code x = char_code y \<longleftrightarrow> x = y"
  by (simp add: char_code_def)

lemma c_strcmp_order:
  "nul \<notin> set a \<Longrightarrow> nul \<notin> set b \<Longrightarrow> (c_strcmp a b < 0 \<longleftrightarrow> a < b) \<and> (c_strcmp a b = 0 \<longleftrightarrow> a = b)"
proof (induction a b rule: c_strcmp.induct)
  case (2 x xs)
  have "char_code x \<noteq> 0" using "2.prems"(1) char_code_eq [of x nul] by (auto simp: char_code_def nul_def)
  then show ?case by simp
next
  case (3 y ys)
  have "char_code y \<noteq> 0" using "3.prems"(2) char_code_eq [of y nul] by (auto simp: char_code_def nul_def)
  then show ?case by simp
next
  case (4 x xs y ys)
  then show ?case using char_code_less [of x y] char_code_eq [of x y] by auto
qed simp

lemma compareTo_order:
  assumes "ws_ok s" "ws_ok t"
  shows "(compareTo s t < 0 \<longleftrightarrow> ws_text s < ws_text t) \<and> (compareTo s t = 0 \<longleftrightarrow> ws_text s = ws_text t)"
proof -
  have first: "ws_len u > 0 \<longleftrightarrow> ws_text u \<noteq> []" "ws_len u > 0 \<Longrightarrow> char_code (b ! 0) > 0"
    if u: "ws_ok u" "ws_buffer u = Some b" for u b
  proof -
    obtain z where b: "b = ws_text u @ nul # z" "length (ws_text u) = ws_len u" "nul \<notin> set (ws_text u)"
      using ws_okE [OF u] by metis
    then show "ws_len u > 0 \<longleftrightarrow> ws_text u \<noteq> []" by (metis length_greater_0_conv)
    assume "ws_len u > 0"
    then have "b ! 0 \<noteq> nul" using b by (cases "ws_text u") auto
    then show "char_code (b ! 0) > 0" using char_code_eq [of "b ! 0" nul] by (auto simp: char_code_def nul_def)
  qed
  have str: "c_str b = ws_text u \<and> nul \<notin> set (ws_text u)" if "ws_ok u" "ws_buffer u = Some b" for u b
    using ws_okE [OF that] c_str_text by metis
  show ?thesis
  proof (cases "ws_buffer s"; cases "ws_buffer t")
    fix a b assume "ws_buffer s = Some a" "ws_buffer t = Some b"
    then show ?thesis using str [OF assms(1)] str [OF assms(2)] c_strcmp_order by (simp add: compareTo_def)
  next
    fix b assume b: "ws_buffer s = None" "ws_buffer t = Some b"
    then show ?thesis using ws_ok_None [OF assms(1)] first [OF assms(2) b(2)]
      by (cases "ws_text t") (auto simp: compareTo_def ws_cells_def)
  next
    fix a assume a: "ws_buffer s = Some a" "ws_buffer t = None"
    then show ?thesis using ws_ok_None [OF assms(2)] first [OF assms(1) a(1)]
      by (cases "ws_text s") (auto simp: compareTo_def ws_cells_def)
  qed (use assms in \<open>simp_all add: compareTo_def ws_ok_None\<close>)
qed

text \<open>The relational operators of well-formed objects compare their texts in the lexicographic order of the bytes,
  and \<open>equals\<close> says whether the texts are equal, with or without a buffer.\<close>

theorem string_order:
  assumes "ws_ok s" "ws_ok t"
  shows "(s < t \<longleftrightarrow> ws_text s < ws_text t) \<and> (s \<le> t \<longleftrightarrow> ws_text s \<le> ws_text t) \<and>
    (ws_greater s t \<longleftrightarrow> ws_text t < ws_text s) \<and> (ws_greater_eq s t \<longleftrightarrow> ws_text t \<le> ws_text s) \<and>
    (ws_equals s t \<longleftrightarrow> ws_text s = ws_text t)"
proof -
  note c = compareTo_order [OF assms]
  have "compareTo s t \<le> 0 \<longleftrightarrow> ws_text s \<le> ws_text t" using c by (auto simp: le_less)
  moreover have "ws_equals s t \<longleftrightarrow> ws_text s = ws_text t"
    using c ws_ok_len [OF assms(1)] ws_ok_len [OF assms(2)] by (auto simp: ws_equals_def)
  ultimately show ?thesis using c
    by (auto simp: less_wstr_ext_def less_eq_wstr_ext_def ws_less_def ws_less_eq_def ws_greater_def ws_greater_eq_def not_le not_less)
qed

theorem string_order_witness:
  "ws_init < \<lparr>ws_buffer = Some [CHR ''A'', nul], ws_capacity = 1, ws_len = 1\<rparr>"
  using string_order [of ws_init "\<lparr>ws_buffer = Some [CHR ''A'', nul], ws_capacity = 1, ws_len = 1\<rparr>"]
  by (simp add: ws_ok_def ws_init_def ws_text_def ws_cells_def nul_def)

end
