(* ===== verification/StrTools.thy ===== *)
theory StrTools
  imports WString Noniso
begin

text \<open>
  The string helpers of \<open>src/main/str_tools.h\<close>. \<open>clear_string\<close> works in place: the model keeps
  the buffer with its terminator and the two moving positions. A read or a write outside the
  buffer is \<open>None\<close>.
\<close>

section \<open>clear_string\<close>

text \<open>
  The literal as the compiler sees it: adjacent literals are joined, so the two double quotes
  written before the bar only end one literal and begin the next.
\<close>

definition valid_chars :: string where
  "valid_chars = '',./'' @ [CHR 0x5C] @ ''~!@#$%%^&*()_-+=<>?;:'' @ [CHR 0x27] @
     ''|`[]{}0123456789abcdefghijklmnopqrstuvwxyzABCDEFGHIJKLMNOPQRSTUVWXYZ''"

function (sequential) clear_loop :: "string \<Rightarrow> nat \<Rightarrow> nat \<Rightarrow> string option" where
  "clear_loop buf src dst =
     (if src \<ge> length buf then None
      else if buf ! src = CHR 0x00 then Some (buf[dst := CHR 0x00])
      else if c_strchr valid_chars (buf ! src) \<noteq> None
           then clear_loop (buf[dst := buf ! src]) (src + 1) (dst + 1)
           else clear_loop buf (src + 1) dst)"
  by pat_completeness auto
termination
  by (relation "measure (\<lambda>(buf, src, dst). length buf - src)") auto

declare clear_loop.simps [simp del]

definition clear_string :: "string \<Rightarrow> string option" where
  "clear_string str = clear_loop str 0 0"

section \<open>only_digits and at_str_digits\<close>

fun only_digits :: "string \<Rightarrow> bool" where
  "only_digits [] = True"
| "only_digits (c # s) =
     (if c = CHR 0x00 then True else if \<not> c_isdigit c then False else only_digits s)"

definition valid_digit_chars :: string where
  "valid_digit_chars = ''-,0123456789''"

text \<open>
  The loop reads \<open>str[i]\<close> once more after the last step, before it compares \<open>i\<close> with \<open>len\<close>.
\<close>

function (sequential) at_str_digits_loop :: "string \<Rightarrow> int \<Rightarrow> nat \<Rightarrow> char \<Rightarrow> string \<Rightarrow> string option" where
  "at_str_digits_loop str len i c result =
     (if int i < len \<and> c \<noteq> CHR 0x0D then
        (let result' = (if c_strchr valid_digit_chars c \<noteq> None then result @ [c] else result)
         in if i + 1 \<ge> length str then None
            else at_str_digits_loop str len (i + 1) (str ! (i + 1)) result')
      else Some result)"
  by pat_completeness auto
termination
  by (relation "measure (\<lambda>(str, len, i, c, result). nat (len - int i))") auto

declare at_str_digits_loop.simps [simp del]

definition at_str_digits :: "string \<Rightarrow> int \<Rightarrow> string option" where
  "at_str_digits str len =
     (if str = [] then None else at_str_digits_loop str len 0 (str ! 0) [])"

section \<open>strtoint\<close>

text \<open>A store \<open>args[i] = v\<close> into the caller's array.\<close>

definition args_store :: "int list \<Rightarrow> nat \<Rightarrow> int \<Rightarrow> int list option" where
  "args_store args i v = (if i < length args then Some (args[i := v]) else None)"

function (sequential) strtoint_loop ::
    "string \<Rightarrow> char \<Rightarrow> nat \<Rightarrow> int \<Rightarrow> int list \<Rightarrow> (nat \<times> int \<times> int list) option" where
  "strtoint_loop str delimiter i idx0 args =
     (if idx0 > - 1 then
        (let idx1 = str_indexOf str delimiter (c_uint (idx0 + 1));
             i = i + 1
         in if idx1 > - 1 then
              (case args_store args i (str_toInt (str_substring str (c_uint (idx0 + 1)) (c_uint idx1))) of
                 None \<Rightarrow> None
               | Some args' \<Rightarrow>
                   if idx1 \<le> idx0 then None
                   else strtoint_loop str delimiter i idx1 args')
            else Some (i, idx0, args))
      else Some (i, idx0, args))"
  by pat_completeness auto
termination
proof (relation "measure (\<lambda>(str, d, i, idx0, args). nat (int (length str) + 1 - idx0))", simp)
  fix str d i idx0 and args :: "int list" and idx1 j args'
  assume "idx1 = str_indexOf str d (c_uint (idx0 + 1))" and "\<not> idx1 \<le> idx0"
  then have "idx1 \<le> int (length str)" "idx0 < idx1" using str_indexOf_le by auto
  then show "((str, d, j, idx1, args'), str, d, i, idx0, args) \<in>
      measure (\<lambda>(str, d, i, idx0, args). nat (int (length str) + 1 - idx0))" by simp
qed

declare strtoint_loop.simps [simp del]

definition strtoint :: "string \<Rightarrow> char \<Rightarrow> int list \<Rightarrow> (int \<times> int list) option" where
  "strtoint str delimiter args =
     (let idx0 = str_indexOf str delimiter 0
      in case args_store args 0 (str_toInt (str_substring str 0 (c_uint idx0))) of
           None \<Rightarrow> None
         | Some args \<Rightarrow>
             (case strtoint_loop str delimiter 0 idx0 args of
                None \<Rightarrow> None
              | Some (i, idx0, args) \<Rightarrow>
                  (if c_uint (int (length str) - 1) > c_uint idx0
                   then map_option (Pair (int i + 1))
                          (args_store args i (str_toInt (str_substring str (c_uint (idx0 + 1)) (length str))))
                   else Some (int i + 1, args))))"

section \<open>Correctness\<close>

definition is_valid_char :: "char \<Rightarrow> bool" where
  "is_valid_char c \<longleftrightarrow> c_strchr valid_chars c \<noteq> None"

lemma clear_loop_correct:
  assumes "CHR 0x00 \<notin> set s" and "buf = a @ b @ s @ CHR 0x00 # r"
  shows "\<exists>t. clear_loop buf (length a + length b) (length a) =
           Some (a @ filter is_valid_char s @ CHR 0x00 # t @ r) \<and>
           length t + length (filter is_valid_char s) = length b + length s"
  using assms
proof (induction s arbitrary: buf a b)
  case Nil
  then have "buf ! (length a + length b) = CHR 0x00" by (simp add: nth_append)
  then have step: "clear_loop buf (length a + length b) (length a) = Some (buf[length a := CHR 0x00])"
    using Nil by (subst clear_loop.simps) simp
  show ?case
  proof (cases b)
    case Nil
    then show ?thesis using step \<open>buf = a @ b @ [] @ CHR 0x00 # r\<close>
      by (intro exI [of _ "[]"]) (simp add: list_update_append)
  next
    case (Cons y b')
    then show ?thesis using step \<open>buf = a @ b @ [] @ CHR 0x00 # r\<close>
      by (intro exI [of _ "b' @ [CHR 0x00]"]) (simp add: list_update_append)
  qed
next
  case (Cons x s)
  have x: "buf ! (length a + length b) = x" "x \<noteq> CHR 0x00" "length a + length b < length buf"
    using Cons.prems by (auto simp: nth_append)
  show ?case
  proof (cases "is_valid_char x")
    case True
    have step: "clear_loop buf (length a + length b) (length a) =
        clear_loop (buf[length a := x]) (length a + length b + 1) (length a + 1)"
      using True x by (subst clear_loop.simps) (simp add: is_valid_char_def)
    obtain b' where b': "buf[length a := x] = (a @ [x]) @ b' @ s @ CHR 0x00 # r" "length b' = length b"
    proof (cases b)
      case Nil
      then show thesis using that [of "[]"] Cons.prems(2) by (simp add: list_update_append)
    next
      case (Cons y b'')
      then show thesis using that [of "b'' @ [x]"] \<open>buf = a @ b @ (x # s) @ CHR 0x00 # r\<close>
        by (simp add: list_update_append)
    qed
    show ?thesis using Cons.IH [of "buf[length a := x]" "a @ [x]" b'] Cons.prems(1) b' step True
      by auto
  next
    case False
    have step: "clear_loop buf (length a + length b) (length a) =
        clear_loop buf (length a + length b + 1) (length a)"
      using False x by (subst clear_loop.simps) (simp add: is_valid_char_def)
    show ?thesis using Cons.IH [of buf a "b @ [x]"] Cons.prems step False by auto
  qed
qed

lemma at_str_digits_loop_correct:
  assumes "length str > n" and "i \<le> n"
  shows "at_str_digits_loop str (int n) i (str ! i) acc =
    Some (acc @ filter (\<lambda>c. c \<in> set valid_digit_chars \<or> c = CHR 0x00)
                  (takeWhile (\<lambda>c. c \<noteq> CHR 0x0D) (drop i (take n str))))"
  using assms
proof (induction "n - i" arbitrary: i acc)
  case 0
  then show ?case by (subst at_str_digits_loop.simps) simp
next
  case (Suc k)
  then have lt: "i < n" by simp
  then have split: "drop i (take n str) = str ! i # drop (Suc i) (take n str)"
    using Suc.prems by (metis Cons_nth_drop_Suc length_take min_less_iff_conj nth_take order.strict_trans)
  have valid: "c_strchr valid_digit_chars c \<noteq> None \<longleftrightarrow> c \<in> set valid_digit_chars \<or> c = CHR 0x00" for c
    by (subst c_strchr_None) (auto simp: valid_digit_chars_def c_str_def)
  show ?case
  proof (cases "str ! i = CHR 0x0D")
    case True
    then show ?thesis using split by (subst at_str_digits_loop.simps) simp
  next
    case False
    have "Suc i \<le> n" "k = n - Suc i" using lt Suc.hyps(2) by auto
    then show ?thesis using Suc.hyps(1) [of "Suc i"] Suc.prems(1) lt False split valid
      by (subst at_str_digits_loop.simps) (auto simp: Let_def)
  qed
qed

text \<open>The part of \<open>strtoint\<close> after the first number.\<close>

definition strtoint_rest :: "string \<Rightarrow> char \<Rightarrow> nat \<Rightarrow> int \<Rightarrow> int list \<Rightarrow> (int \<times> int list) option" where
  "strtoint_rest str delimiter i idx0 args =
     (case strtoint_loop str delimiter i idx0 args of
        None \<Rightarrow> None
      | Some (i, idx0, args) \<Rightarrow>
          (if c_uint (int (length str) - 1) > c_uint idx0
           then map_option (Pair (int i + 1))
                  (args_store args i (str_toInt (str_substring str (c_uint (idx0 + 1)) (length str))))
           else Some (int i + 1, args)))"

definition field_of :: "char \<Rightarrow> string \<Rightarrow> bool" where
  "field_of d x \<longleftrightarrow> x \<noteq> [] \<and> d \<notin> set x \<and> CHR 0x00 \<notin> set x"

lemma c_uint_of_nat [simp]: "n < 2 ^ 32 \<Longrightarrow> c_uint (int n) = n"
  by (simp add: c_uint_def)

lemma strtoint_rest_correct:
  assumes "xs \<noteq> []" and "\<forall>x \<in> set xs. field_of d x" and "d \<noteq> CHR 0x00"
    and "length (p @ d # join_with d xs) < 2 ^ 31" and "i + 1 + length xs \<le> length args"
  shows "strtoint_rest (p @ d # join_with d xs) d i (int (length p)) args =
    Some (int (i + length xs) + 1, blit args (i + 1) (map str_toInt xs))"
  using assms
proof (induction xs arbitrary: p i args rule: induct_list012)
  case 1
  then show ?case by simp
next
  case (2 x)
  let ?s = "p @ d # x"
  have x: "x \<noteq> []" "d \<notin> set x" "CHR 0x00 \<notin> set x" using "2.prems"(2) by (auto simp: field_of_def)
  have len: "length p + 1 + length x < 2 ^ 31" using "2.prems"(4) by simp
  have c1: "c_uint (int (length p) + 1) = length p + 1"
    using len c_uint_of_nat [of "length p + 1"] by (simp add: algebra_simps)
  have c2: "c_uint (int (length ?s) - 1) = length p + length x"
    using len c_uint_of_nat [of "length p + length x"] by (simp add: algebra_simps)
  have c3: "c_uint (int (length p)) = length p" using len by simp
  have "str_indexOf ((p @ [d]) @ x) d (length p + 1) = - 1"
    using x "2.prems"(3) by (intro str_indexOf_absent) auto
  then have loop: "strtoint_loop ?s d i (int (length p)) args = Some (i + 1, int (length p), args)"
    by (subst strtoint_loop.simps) (simp add: c1)
  have "str_substring ((p @ [d]) @ x @ []) (length p + 1) (length ?s) = x"
    using x by (intro str_substring_mid) auto
  then show ?case using loop x c1 c2 c3 "2.prems"(5)
    by (simp add: strtoint_rest_def args_store_def blit_Cons [symmetric])
next
  case (3 x y zs)
  let ?s = "p @ d # join_with d (x # y # zs)"
  let ?p = "p @ d # x"
  have s: "?s = (p @ [d]) @ x @ d # join_with d (y # zs)" and s': "?s = ?p @ d # join_with d (y # zs)"
    by simp_all
  have x: "d \<notin> set x" "CHR 0x00 \<notin> set x" using "3.prems"(2) by (auto simp: field_of_def)
  have len: "length p + 1 + length x < 2 ^ 31" using "3.prems"(4) by simp
  have c1: "c_uint (int (length p) + 1) = length p + 1"
    using len c_uint_of_nat [of "length p + 1"] by (simp add: algebra_simps)
  have c2: "c_uint (int (length ?p)) = length ?p" using len by (intro c_uint_of_nat) simp
  have idx: "str_indexOf ?s d (length p + 1) = int (length ?p)"
    unfolding s using x str_indexOf_append [of d x "length p + 1" "p @ [d]"] by simp
  have sub: "str_substring ?s (length p + 1) (length ?p) = x"
    unfolding s using x by (intro str_substring_mid) auto
  let ?args = "args[i + 1 := str_toInt x]"
  have "strtoint_loop ?s d i (int (length p)) args = strtoint_loop ?s d (i + 1) (int (length ?p)) ?args"
    using "3.prems"(5) c1 c2 idx sub
    by (subst strtoint_loop.simps) (simp add: Let_def args_store_def)
  then have "strtoint_rest ?s d i (int (length p)) args = strtoint_rest ?s d (i + 1) (int (length ?p)) ?args"
    by (simp add: strtoint_rest_def)
  also have "\<dots> = Some (int (i + 1 + length (y # zs)) + 1, blit ?args (i + 1 + 1) (map str_toInt (y # zs)))"
    unfolding s' using "3.prems" by (intro "3.IH"(2)) auto
  also have "blit ?args (i + 1 + 1) (map str_toInt (y # zs)) = blit args (i + 1) (map str_toInt (x # y # zs))"
    using "3.prems"(5) blit_Cons [of "i + 1" args "str_toInt x"] by simp
  finally show ?case by simp
qed

lemma strtoint_fields:
  assumes "xs \<noteq> []" and "\<forall>x \<in> set xs. field_of d x" and "d \<noteq> CHR 0x00"
    and "length (join_with d xs) < 2 ^ 31" and "length xs \<le> length args"
  shows "strtoint (join_with d xs) d args = Some (int (length xs), blit args 0 (map str_toInt xs))"
proof (cases xs)
  case (Cons x ys)
  have x: "x \<noteq> []" "d \<notin> set x" "CHR 0x00 \<notin> set x" using assms(2) Cons by (auto simp: field_of_def)
  have pos: "0 < length args" using assms(5) Cons by (cases args) auto
  show ?thesis
  proof (cases ys)
    case Nil
    have len: "length x < 2 ^ 31" using assms(4) Cons Nil by simp
    have "str_indexOf ([] @ x) d 0 = - 1" using x assms(3) by (intro str_indexOf_absent) auto
    moreover have "str_substring x 0 (c_uint (- 1)) = x"
      using x(3) len by (intro str_substring_whole) (simp_all add: c_uint_minus1)
    moreover have "c_uint (int (length x) - 1) \<le> c_uint (- 1)"
      using len x(1) by (simp add: c_uint_minus1 c_uint_def nat_le_iff)
    moreover have "strtoint_loop x d 0 (- 1) args' = Some (0, - 1, args')" for args'
      by (subst strtoint_loop.simps) simp
    ultimately show ?thesis using Cons Nil pos
      by (simp add: strtoint_def args_store_def Let_def blit_Cons [symmetric])
  next
    case (Cons y zs)
    let ?s = "x @ d # join_with d (y # zs)"
    have s: "join_with d xs = ?s" using \<open>xs = x # ys\<close> Cons by simp
    have "str_indexOf ([] @ ?s) d 0 = int (length x)"
      using x str_indexOf_append [of d x 0 "[]"] by simp
    moreover have "length x < 2 ^ 32" using assms(4) s by simp
    moreover have "str_substring ([] @ x @ d # join_with d (y # zs)) 0 (length x) = x"
      using x by (intro str_substring_mid) auto
    ultimately have "strtoint ?s d args = strtoint_rest ?s d 0 (int (length x)) (args[0 := str_toInt x])"
      using pos by (simp add: strtoint_def strtoint_rest_def args_store_def Let_def)
    also have "\<dots> = Some (int (0 + length (y # zs)) + 1, blit (args[0 := str_toInt x]) (0 + 1) (map str_toInt (y # zs)))"
      using assms \<open>xs = x # ys\<close> Cons s by (intro strtoint_rest_correct) auto
    finally show ?thesis using \<open>xs = x # ys\<close> Cons pos s blit_Cons [of 0 args "str_toInt x"] by simp
  qed
qed (use assms in simp)

section \<open>Properties\<close>

text \<open>\<open>clear_string\<close> leaves in the buffer the characters of its whitelist, in order and
  terminated, and does not touch the memory behind the old terminator.\<close>

theorem clear_string_filters:
  assumes "CHR 0x00 \<notin> set s"
  shows "\<exists>buf. clear_string (s @ CHR 0x00 # r) = Some buf \<and>
    c_str buf = filter (\<lambda>c. c \<in> set valid_chars) s \<and>
    length buf = length s + 1 + length r \<and> drop (length s + 1) buf = r"
proof -
  have valid: "is_valid_char c \<longleftrightarrow> c \<in> set valid_chars \<or> c = CHR 0x00" for c
    unfolding is_valid_char_def by (subst c_strchr_None) (auto simp: valid_chars_def c_str_def)
  have "filter is_valid_char s = filter (\<lambda>c. c \<in> set valid_chars) s"
    using assms by (intro filter_cong) (auto simp: valid)
  moreover obtain t where t: "clear_string (s @ CHR 0x00 # r) =
      Some (filter is_valid_char s @ CHR 0x00 # t @ r)" "length t + length (filter is_valid_char s) = length s"
    using clear_loop_correct [OF assms, of _ "[]" "[]" r] by (auto simp: clear_string_def)
  moreover have "CHR 0x00 \<notin> set (filter (\<lambda>c. c \<in> set valid_chars) s)" using assms by auto
  moreover have "Suc (length s) - length (filter is_valid_char s) = Suc (length t)"
    using t(2) by simp
  ultimately show ?thesis using t(2) by (simp add: c_str_append_nul)
qed

theorem clear_string_filters_witness:
  "\<exists>buf. clear_string (''a b'' @ CHR 0x00 # ''zz'') = Some buf \<and> c_str buf = ''ab'' \<and> drop 4 buf = ''zz''"
  using clear_string_filters [of "''a b''" "''zz''"]
  by (auto simp: valid_chars_def eval_nat_numeral)

text \<open>C23: \<open>strtoint\<close> inverts printing: for numbers printed in decimal and joined by the
  delimiter it returns their number and stores them from the front of the array.\<close>

theorem strtoint_roundtrip:
  assumes "vs \<noteq> []" and "\<forall>v \<in> set vs. - (2 ^ 31) < v \<and> v < 2 ^ 31" and "d \<in> set '',;: ''"
    and "length (join_with d (map (\<lambda>v. the (ltoa v 10)) vs)) < 2 ^ 31" and "length vs \<le> length args"
  shows "strtoint (join_with d (map (\<lambda>v. the (ltoa v 10)) vs)) d args =
    Some (int (length vs), vs @ drop (length vs) args)"
proof -
  let ?xs = "map (\<lambda>v. the (ltoa v 10)) vs"
  have num: "field_of d (the (ltoa v 10)) \<and> str_toInt (the (ltoa v 10)) = v" if "v \<in> set vs" for v
  proof -
    obtain s where s: "ltoa v 10 = Some s" "c_strtol 10 s = v"
      using ltoa_strtol [of 10 v] assms(2) \<open>v \<in> set vs\<close> by auto
    have "c \<noteq> d \<and> c \<noteq> CHR 0x00" if "c \<in> set s" for c
    proof -
      have "\<forall>d \<in> set [0..<10]. ltoa_digits ! d \<notin> set '',;: '' \<and> ltoa_digits ! d \<noteq> CHR 0x00" by code_simp
      moreover have "is_digit_of 10 c \<or> c = CHR ''-''" using ltoa_chars(2) [OF _ _ s(1) that] by simp
      ultimately show ?thesis using assms(3) by (auto simp: is_digit_of_def)
    qed
    then show ?thesis using s ltoa_chars(1) [OF _ _ s(1)]
      by (auto simp: field_of_def str_toInt_def c_atol_def)
  qed
  have "strtoint (join_with d ?xs) d args = Some (int (length ?xs), blit args 0 (map str_toInt ?xs))"
    using assms num by (intro strtoint_fields) auto
  moreover have "map str_toInt ?xs = vs" using num by (simp add: map_idI)
  ultimately show ?thesis by (simp add: blit_def)
qed

theorem strtoint_roundtrip_witness:
  "strtoint (join_with (CHR '','') (map (\<lambda>v. the (ltoa v 10)) [12, - 7])) (CHR '','') [0, 0, 5] =
     Some (2, [12, - 7, 5])"
proof -
  have "join_with (CHR '','') (map (\<lambda>v. the (ltoa v 10)) [12, - 7]) = ''12,-7''"
    by (simp add: ltoa_eq ltoa_loop_rec ltoa_digits_def)
  then show ?thesis using strtoint_roundtrip [of "[12, - 7]" "CHR '',''" "[0, 0, 5]"] by simp
qed

end
