(* ===== verification/GsmCommon.thy ===== *)
theory GsmCommon
  imports StrTools
begin

text \<open>
  The pure helpers of \<open>src/main/TinyGsmCommon.h\<close>: parsing of the dotted address the modem
  reports and decoding of the hexadecimal text of USSD answers (7-bit, 8-bit and 16-bit).
\<close>

section \<open>Small helpers\<close>

definition TinyGsmMin :: "'a::linorder \<Rightarrow> 'a \<Rightarrow> 'a" where
  "TinyGsmMin a b = (if b < a then b else a)"

definition TinyGsmMax :: "'a::linorder \<Rightarrow> 'a \<Rightarrow> 'a" where
  "TinyGsmMax a b = (if b < a then a else b)"

section \<open>TinyGsmIpFromString\<close>

type_synonym ip_address = "u8 \<times> u8 \<times> u8 \<times> u8"

definition ip_of_parts :: "int list \<Rightarrow> ip_address" where
  "ip_of_parts Parts =
     (word_of_int (Parts ! 0), word_of_int (Parts ! 1), word_of_int (Parts ! 2), word_of_int (Parts ! 3))"

text \<open>
  The loop index is a \<open>uint8_t\<close>, so for a string of 256 characters or more the loop starts over
  at the first character; \<open>None\<close> is a call that does not return. The parts are \<open>int\<close>s (taken
  unbounded here) of which \<open>IPAddress\<close> keeps the low byte.
\<close>

partial_function (option) ip_loop :: "string \<Rightarrow> u8 \<Rightarrow> nat \<Rightarrow> int list \<Rightarrow> ip_address option" where
  "ip_loop strIP i Part Parts =
     (if unat i < length strIP then
        (let c = strIP ! unat i in
         if c = CHR ''.'' then
           (if Part + 1 > 3 then Some (0, 0, 0, 0)
            else ip_loop strIP (i + 1) (Part + 1) Parts)
         else if c_isdigit c then
           ip_loop strIP (i + 1) Part
             (Parts[Part := Parts ! Part * 10 + (int (char_code c) - 48)])
         else if Part = 3 then Some (ip_of_parts Parts)
         else ip_loop strIP (i + 1) Part Parts)
      else Some (ip_of_parts Parts))"

declare ip_loop.simps [code]

definition TinyGsmIpFromString :: "string \<Rightarrow> ip_address option" where
  "TinyGsmIpFromString strIP = ip_loop strIP 0 0 [0, 0, 0, 0]"

section \<open>Hexadecimal decoding\<close>

text \<open>\<open>strtol(buf, NULL, 16)\<close> on the two characters at \<open>i\<close>, stored in a byte.\<close>

definition hex_octet :: "string \<Rightarrow> nat \<Rightarrow> u8" where
  "hex_octet instr i =
     word_of_int (c_strtol 16 [str_at instr i, str_at instr (i + 1), CHR 0x00, CHR 0x00])"

function (sequential) decode7_loop :: "string \<Rightarrow> nat \<Rightarrow> u8 \<Rightarrow> nat \<Rightarrow> string \<Rightarrow> string" where
  "decode7_loop instr i reminder bitstate result =
     (if i < length instr then
        (let b = hex_octet instr i;
             bb = push_bit (7 - bitstate) b;
             c = and (bb + reminder) 0x7F;
             result = result @ [byte_char c];
             reminder = drop_bit bitstate b;
             bitstate = bitstate - 1
         in if bitstate = 0
            then decode7_loop instr (i + 2) 0 7 (result @ [byte_char reminder])
            else decode7_loop instr (i + 2) reminder bitstate result)
      else result)"
  by pat_completeness auto
termination
  by (relation "measure (\<lambda>(instr, i, r, s, res). length instr - i)") auto

declare decode7_loop.simps [simp del]

definition TinyGsmDecodeHex7bit :: "string \<Rightarrow> string" where
  "TinyGsmDecodeHex7bit instr = decode7_loop instr 0 0 7 []"

function (sequential) decode8_loop :: "string \<Rightarrow> nat \<Rightarrow> string \<Rightarrow> string" where
  "decode8_loop instr i result =
     (if i < length instr
      then decode8_loop instr (i + 2) (result @ [byte_char (hex_octet instr i)])
      else result)"
  by pat_completeness auto
termination
  by (relation "measure (\<lambda>(instr, i, res). length instr - i)") auto

declare decode8_loop.simps [simp del]

definition TinyGsmDecodeHex8bit :: "string \<Rightarrow> string" where
  "TinyGsmDecodeHex8bit instr = decode8_loop instr 0 []"

text \<open>\<open>TINY_GSM_UNICODE_TO_HEX\<close> is not defined: a character above 255 becomes a question mark.\<close>

function (sequential) decode16_loop :: "string \<Rightarrow> nat \<Rightarrow> string \<Rightarrow> string" where
  "decode16_loop instr i result =
     (if i < length instr
      then decode16_loop instr (i + 4)
             (if hex_octet instr i \<noteq> 0 then result @ ''?''
              else result @ [byte_char (hex_octet instr (i + 2))])
      else result)"
  by pat_completeness auto
termination
  by (relation "measure (\<lambda>(instr, i, res). length instr - i)") auto

declare decode16_loop.simps [simp del]

definition TinyGsmDecodeHex16bit :: "string \<Rightarrow> string" where
  "TinyGsmDecodeHex16bit instr = decode16_loop instr 0 []"

section \<open>Reference encodings\<close>

text \<open>The hexadecimal text of a list of octets, as the modem writes it.\<close>

definition hex_digits :: string where
  "hex_digits = ''0123456789ABCDEF''"

definition hex2 :: "u8 \<Rightarrow> string" where
  "hex2 b = [hex_digits ! (unat b div 16), hex_digits ! (unat b mod 16)]"

definition hex_of :: "u8 list \<Rightarrow> string" where
  "hex_of bs = concat (map hex2 bs)"

text \<open>Little-endian digits and their value.\<close>

fun digits_value :: "nat \<Rightarrow> nat list \<Rightarrow> nat" where
  "digits_value b [] = 0"
| "digits_value b (d # ds) = d + b * digits_value b ds"

definition digits_of :: "nat \<Rightarrow> nat \<Rightarrow> nat \<Rightarrow> nat list" where
  "digits_of b n v = map (\<lambda>i. v div b ^ i mod b) [0..<n]"

section \<open>Lemmas\<close>

lemma hex_digit:
  assumes "d < 16"
  shows "c_digit (hex_digits ! d) = Some d \<and> hex_digits ! d \<noteq> CHR 0x00 \<and>
    \<not> c_isspace (hex_digits ! d) \<and> hex_digits ! d \<notin> set ''-+xX''"
proof -
  have "\<forall>d \<in> set [0..<16]. c_digit (hex_digits ! d) = Some d \<and> hex_digits ! d \<noteq> CHR 0x00 \<and>
    \<not> c_isspace (hex_digits ! d) \<and> hex_digits ! d \<notin> set ''-+xX''"
    by code_simp
  moreover have "d \<in> set [0..<16]" using assms by simp
  ultimately show ?thesis by blast
qed

lemma c_strtol_hex2: "c_strtol 16 (hex2 b @ [CHR 0x00, CHR 0x00]) = int (unat b)"
proof -
  have lt: "unat b div 16 < 16" "unat b mod 16 < 16"
    using unat_u8 [of b] by (simp_all add: less_mult_imp_div_less del: unat_u8)
  note h = hex_digit [OF lt(1)] and l = hex_digit [OF lt(2)]
  have s: "c_str (hex2 b @ [CHR 0x00, CHR 0x00]) = hex2 b"
    using h l by (simp add: hex2_def c_str_def)
  have p: "\<not> c_prefix ''0x'' (hex2 b)" "\<not> c_prefix ''0X'' (hex2 b)"
    using h l by (auto simp: hex2_def)
  have hp: "c_hex_prefix 16 (hex2 b) = hex2 b" using p by (simp add: c_hex_prefix_def)
  have sg: "c_sign (dropWhile c_isspace (hex2 b)) = (False, hex2 b)"
    using h by (simp add: hex2_def c_sign_def)
  have dg: "c_digits 16 0 (hex2 b) = unat b" using h l lt by (simp add: hex2_def)
  have "unat b < 2147483648" using unat_u8 [of b] by (rule less_trans) simp
  then have "long_clamp False (unat b) = int (unat b)" by (rule long_clamp_small)
  then show ?thesis by (simp add: c_strtol_def s sg hp dg del: of_nat_unat)
qed

lemma hex_octet_at:
  assumes "i = length p"
  shows "hex_octet (p @ hex2 b @ s) i = b"
proof -
  have "[str_at (p @ hex2 b @ s) i, str_at (p @ hex2 b @ s) (i + 1), CHR 0x00, CHR 0x00] =
      hex2 b @ [CHR 0x00, CHR 0x00]"
    using assms by (simp add: str_at_def hex2_def nth_append)
  then show ?thesis using c_strtol_hex2 [of b] by (simp only: hex_octet_def) simp
qed

lemma length_hex2 [simp]: "length (hex2 b) = 2"
  by (simp add: hex2_def)

lemma length_hex_of [simp]: "length (hex_of bs) = 2 * length bs"
  by (induction bs) (simp_all add: hex_of_def)

lemma hex_of_Cons: "hex_of (b # bs) = hex2 b @ hex_of bs"
  by (simp add: hex_of_def)

text \<open>The decoder on octets: the loop without the hexadecimal text.\<close>

fun septets :: "u8 list \<Rightarrow> u8 \<Rightarrow> nat \<Rightarrow> u8 list" where
  "septets [] r s = []"
| "septets (b # bs) r s =
     and (push_bit (7 - s) b + r) 0x7F #
     (if s - 1 = 0 then drop_bit s b # septets bs 0 7 else septets bs (drop_bit s b) (s - 1))"

lemma decode7_loop_hex:
  assumes "i = length p"
  shows "decode7_loop (p @ hex_of bs) i r s res = res @ map byte_char (septets bs r s)"
  using assms
proof (induction bs arbitrary: p i r s res)
  case Nil
  then show ?case by (subst decode7_loop.simps) (simp add: hex_of_def)
next
  case (Cons b bs)
  have "hex_octet (p @ hex_of (b # bs)) i = b"
    using hex_octet_at [OF Cons.prems, of b "hex_of bs"] by (simp add: hex_of_Cons)
  moreover have "i < length (p @ hex_of (b # bs))" using Cons.prems by simp
  moreover have "decode7_loop (p @ hex_of (b # bs)) (i + 2) r' s' res' =
      res' @ map byte_char (septets bs r' s')" for r' s' res'
    using Cons.IH [of "i + 2" "p @ hex2 b"] Cons.prems by (simp add: hex_of_Cons)
  ultimately show ?case
    by (subst decode7_loop.simps) (simp add: Let_def)
qed

lemma decode8_loop_hex:
  assumes "i = length p"
  shows "decode8_loop (p @ hex_of bs) i res = res @ map byte_char bs"
  using assms
proof (induction bs arbitrary: p i res)
  case Nil
  then show ?case by (subst decode8_loop.simps) (simp add: hex_of_def)
next
  case (Cons b bs)
  have "hex_octet (p @ hex_of (b # bs)) i = b"
    using hex_octet_at [OF Cons.prems, of b "hex_of bs"] by (simp add: hex_of_Cons)
  moreover have "i < length (p @ hex_of (b # bs))" using Cons.prems by simp
  moreover have "decode8_loop (p @ hex_of (b # bs)) (i + 2) res' = res' @ map byte_char bs" for res'
    using Cons.IH [of "i + 2" "p @ hex2 b"] Cons.prems by (simp add: hex_of_Cons)
  ultimately show ?case by (subst decode8_loop.simps) simp
qed

section \<open>The seven-bit alphabet\<close>

lemma septet_step:
  assumes s: "1 \<le> s" "s \<le> 7" and r: "unat (r :: u8) < 2 ^ (7 - s)"
  shows "unat (and (push_bit (7 - s) b + r) 0x7F) + 128 * unat (drop_bit s b) =
           unat r + 2 ^ (7 - s) * unat (b :: u8)"
    and "unat (drop_bit s b) < 2 ^ (8 - s)"
proof -
  let ?b = "unat b"
  have "s \<in> {1,2,3,4,5,6,7}" using s by auto
  then have pw: "2 ^ (7 - s) * 2 ^ s = (128::nat)" "2 ^ (8 - s) * 2 ^ s = (256::nat)"
    by (elim insertE; simp)+
  have mask: "unat (and x 0x7F) = unat x mod 128" for x :: u8
  proof -
    have "and x 0x7F = take_bit 7 x" by (simp add: take_bit_eq_mask mask_eq_exp_minus_1)
    then have "unat (and x 0x7F) = take_bit 7 (unat x)" by (simp only: unsigned_take_bit_eq)
    then show ?thesis by (simp only: take_bit_eq_mod) simp
  qed
  have dropb: "unat (drop_bit s b) = ?b div 2 ^ s"
    by (simp only: unsigned_drop_bit_eq) (simp add: drop_bit_eq_div take_bit_nat_eq_self)
  have pushb: "unat (push_bit (7 - s) b) = (2 ^ (7 - s) * ?b) mod 256"
    by (simp only: unsigned_push_bit_eq) (simp add: push_bit_eq_mult take_bit_eq_mod mult.commute)
  have "unat (push_bit (7 - s) b + r) mod 128 = (2 ^ (7 - s) * ?b + unat r) mod 128"
  proof -
    have "unat (push_bit (7 - s) b + r) = ((2 ^ (7 - s) * ?b) mod 256 + unat r) mod 256"
      by (simp add: unat_word_ariths pushb)
    moreover have "(x mod 256 + y) mod 256 mod 128 = (x + y) mod 128" for x y :: nat
    proof -
      have "(x mod 256 + y) mod 256 mod 128 = (x mod 256 + y) mod 128"
        by (rule mod_mod_cancel) simp
      also have "\<dots> = (x mod 256 mod 128 + y) mod 128" by (simp only: mod_add_left_eq)
      also have "x mod 256 mod 128 = x mod 128" by (rule mod_mod_cancel) simp
      finally show ?thesis by (simp only: mod_add_left_eq)
    qed
    ultimately show ?thesis by simp
  qed
  also have "2 ^ (7 - s) * ?b = 2 ^ (7 - s) * (?b mod 2 ^ s) + 128 * (?b div 2 ^ s)"
  proof -
    have "?b = ?b mod 2 ^ s + 2 ^ s * (?b div 2 ^ s)" by simp
    then have "2 ^ (7 - s) * ?b = 2 ^ (7 - s) * (?b mod 2 ^ s) + (2 ^ (7 - s) * 2 ^ s) * (?b div 2 ^ s)"
      by (metis add_mult_distrib2 mult.assoc)
    then show ?thesis by (simp add: pw)
  qed
  finally have eq1: "unat (push_bit (7 - s) b + r) mod 128 = (2 ^ (7 - s) * (?b mod 2 ^ s) + unat r) mod 128"
    by (simp add: add.assoc add.left_commute)
  have "2 ^ (7 - s) * (?b mod 2 ^ s) + unat r < 2 ^ (7 - s) * (?b mod 2 ^ s) + 2 ^ (7 - s)"
    using r by simp
  also have "\<dots> = 2 ^ (7 - s) * Suc (?b mod 2 ^ s)" by simp
  also have "\<dots> \<le> 2 ^ (7 - s) * 2 ^ s" by (intro mult_le_mono2) (simp add: Suc_le_eq)
  finally have "2 ^ (7 - s) * (?b mod 2 ^ s) + unat r < 128" by (simp add: pw)
  then have c: "unat (and (push_bit (7 - s) b + r) 0x7F) = 2 ^ (7 - s) * (?b mod 2 ^ s) + unat r"
    by (simp add: mask eq1)
  show "unat (and (push_bit (7 - s) b + r) 0x7F) + 128 * unat (drop_bit s b) =
      unat r + 2 ^ (7 - s) * ?b"
    using \<open>2 ^ (7 - s) * ?b = _\<close> c dropb by simp
  have "?b < 2 ^ (8 - s) * 2 ^ s" by (simp add: pw)
  then show "unat (drop_bit s b) < 2 ^ (8 - s)" by (simp add: dropb less_mult_imp_div_less)
qed

lemma digits_value_digits:
  assumes "0 < b" and "\<forall>d \<in> set ds. d < b"
  shows "ds = digits_of b (length ds) (digits_value b ds + b ^ length ds * k)"
  using assms(2)
proof (induction ds)
  case Nil
  then show ?case by (simp add: digits_of_def)
next
  case (Cons d ds)
  let ?v = "digits_value b ds + b ^ length ds * k"
  have v: "digits_value b (d # ds) + b ^ length (d # ds) * k = d + b * ?v"
    by (simp add: algebra_simps)
  have "(d + b * ?v) div b ^ Suc i mod b = ?v div b ^ i mod b" for i
    using Cons.prems assms(1) by (simp add: div_mult2_eq)
  moreover have "(d + b * ?v) div b ^ 0 mod b = d" using Cons.prems by simp
  ultimately have "digits_of b (length (d # ds)) (d + b * ?v) = d # digits_of b (length ds) ?v"
    by (simp add: digits_of_def upt_conv_Cons map_Suc_upt [symmetric] del: upt_Suc power.simps)
  then show ?case using Cons unfolding v by simp
qed

lemma septets_value:
  assumes "1 \<le> s" "s \<le> 7" "unat r < 2 ^ (7 - s)"
  shows "(\<exists>k. digits_value 128 (map unat (septets bs r s)) + 128 ^ length (septets bs r s) * k =
            unat r + 2 ^ (7 - s) * digits_value 256 (map unat bs)) \<and>
         (\<forall>c \<in> set (septets bs r s). unat c < 128) \<and>
         length (septets bs r s) = length bs + (length bs + 7 - s) div 7"
  using assms
proof (induction bs arbitrary: r s)
  case Nil
  then show ?case by (auto intro: exI [of _ "unat r"])
next
  case (Cons b bs)
  let ?c = "and (push_bit (7 - s) b + r) 0x7F" and ?r = "drop_bit s b"
  note step = septet_step [OF Cons.prems, of b]
  have c: "unat ?c < 128"
  proof -
    have "?c \<le> 0x7F" by (rule word_and_le1)
    then show ?thesis by (simp add: word_le_nat_alt)
  qed
  have key: "unat r + 2 ^ (7 - s) * (unat b + 256 * E) =
      unat ?c + 128 * (unat ?r + 2 ^ (8 - s) * E)" for E
  proof -
    have "s \<in> {1,2,3,4,5,6,7}" using Cons.prems by auto
    then have "2 ^ (7 - s) * 256 = (128::nat) * 2 ^ (8 - s)" by (elim insertE; simp)
    then have "2 ^ (7 - s) * (256 * E) = 128 * (2 ^ (8 - s) * E)" by (metis mult.assoc)
    then show ?thesis using step(1) by (simp only: add_mult_distrib2)
  qed
  show ?case
  proof (cases "s = 1")
    case True
    have r: "unat ?r < 128" using step(2) True by simp
    obtain k where k: "digits_value 128 (map unat (septets bs 0 7)) + 128 ^ length (septets bs 0 7) * k =
        digits_value 256 (map unat bs)"
      using Cons.IH [of 7 0] by auto
    have "digits_value 128 (map unat (septets (b # bs) r s)) + 128 ^ length (septets (b # bs) r s) * k =
        unat ?c + 128 * (unat ?r + 128 * (digits_value 128 (map unat (septets bs 0 7)) +
          128 ^ length (septets bs 0 7) * k))"
      using True by (simp add: algebra_simps)
    also have "\<dots> = unat r + 2 ^ (7 - s) * digits_value 256 (map unat (b # bs))"
      using key [of "digits_value 256 (map unat bs)"] True k by simp
    finally show ?thesis using Cons.IH [of 7 0] True c r by auto
  next
    case False
    then have s: "1 \<le> s - 1" "s - 1 \<le> 7" "7 - (s - 1) = 8 - s" "s - 1 \<noteq> 0" using Cons.prems by auto
    then obtain k where k: "digits_value 128 (map unat (septets bs ?r (s - 1))) +
        128 ^ length (septets bs ?r (s - 1)) * k = unat ?r + 2 ^ (8 - s) * digits_value 256 (map unat bs)"
      using Cons.IH [of "s - 1" ?r] step(2) by auto
    have "digits_value 128 (map unat (septets (b # bs) r s)) + 128 ^ length (septets (b # bs) r s) * k =
        unat ?c + 128 * (digits_value 128 (map unat (septets bs ?r (s - 1))) +
          128 ^ length (septets bs ?r (s - 1)) * k)"
      using s by (simp add: algebra_simps)
    also have "\<dots> = unat r + 2 ^ (7 - s) * digits_value 256 (map unat (b # bs))"
      using key [of "digits_value 256 (map unat bs)"] k by simp
    finally have v: "\<exists>k. digits_value 128 (map unat (septets (b # bs) r s)) +
        128 ^ length (septets (b # bs) r s) * k = unat r + 2 ^ (7 - s) * digits_value 256 (map unat (b # bs))" ..
    have "length bs + 7 - (s - 1) = length (b # bs) + 7 - s" using s Cons.prems by simp
    then show ?thesis using v Cons.IH [of "s - 1" ?r] step(2) s c by auto
  qed
qed

text \<open>C11: the 7-bit decoder unpacks the septets: on the hexadecimal text of any octets, the
  characters it returns are the base-128 digits of the number whose base-256 digits are the
  octets, one character per octet and one more after every seventh.\<close>

theorem decode7_unpacks:
  "TinyGsmDecodeHex7bit (hex_of bs) =
     map (\<lambda>d. byte_char (of_nat d))
       (digits_of 128 (length bs + length bs div 7) (digits_value 256 (map unat bs)))"
proof -
  let ?cs = "septets bs 0 7"
  obtain k where k: "digits_value 128 (map unat ?cs) + 128 ^ length ?cs * k = digits_value 256 (map unat bs)"
    and small: "\<forall>c \<in> set ?cs. unat c < 128" and len: "length ?cs = length bs + length bs div 7"
    using septets_value [of 7 0 bs] by auto
  have "map unat ?cs = digits_of 128 (length ?cs) (digits_value 256 (map unat bs))"
    using digits_value_digits [of 128 "map unat ?cs" k] small k by simp
  then have "map (\<lambda>d. byte_char (of_nat d)) (digits_of 128 (length ?cs) (digits_value 256 (map unat bs))) =
      map byte_char ?cs" by (simp flip: \<open>map unat ?cs = _\<close> add: comp_def)
  then show ?thesis
    using decode7_loop_hex [of 0 "[]" bs 0 7 "[]"] len by (simp add: TinyGsmDecodeHex7bit_def)
qed

lemma decode16_loop_hex:
  assumes "i = length p"
  shows "decode16_loop (p @ concat (map (\<lambda>(hi, lo). hex2 hi @ hex2 lo) us)) i res =
    res @ map (\<lambda>(hi, lo). if hi \<noteq> 0 then CHR ''?'' else byte_char lo) us"
  using assms
proof (induction us arbitrary: p i res)
  case Nil
  then show ?case by (subst decode16_loop.simps) simp
next
  case (Cons u us)
  obtain hi lo where u: "u = (hi, lo)" by fastforce
  let ?rest = "concat (map (\<lambda>(hi, lo). hex2 hi @ hex2 lo) us)"
  have "hex_octet (p @ hex2 hi @ hex2 lo @ ?rest) i = hi"
    using hex_octet_at [OF Cons.prems] .
  moreover have "hex_octet (p @ hex2 hi @ hex2 lo @ ?rest) (i + 2) = lo"
    using hex_octet_at [of "i + 2" "p @ hex2 hi" lo ?rest] Cons.prems by simp
  moreover have "decode16_loop (p @ hex2 hi @ hex2 lo @ ?rest) (i + 4) res' =
      res' @ map (\<lambda>(hi, lo). if hi \<noteq> 0 then CHR ''?'' else byte_char lo) us" for res'
    using Cons.IH [of "i + 4" "p @ hex2 hi @ hex2 lo"] Cons.prems by simp
  ultimately show ?case using Cons.prems u
    by (cases "hi = 0") (subst decode16_loop.simps, simp)+
qed

lemma decode8_hex: "TinyGsmDecodeHex8bit (hex_of bs) = map byte_char bs"
  using decode8_loop_hex [of 0 "[]" bs "[]"] by (simp add: TinyGsmDecodeHex8bit_def)

lemma char_byte_chars: "map char_byte (map byte_char bs) = bs"
  by (simp add: comp_def)

interpretation hex8: codec hex_of "\<lambda>s. Some (map char_byte (TinyGsmDecodeHex8bit s))" "\<lambda>_. True"
  by unfold_locales (simp add: decode8_hex char_byte_chars del: map_map)

lemma decode16_hex:
  "TinyGsmDecodeHex16bit (concat (map (\<lambda>(hi, lo). hex2 hi @ hex2 lo) us)) =
     map (\<lambda>(hi, lo). if hi \<noteq> 0 then CHR ''?'' else byte_char lo) us"
  using decode16_loop_hex [of 0 "[]" us "[]"] by (simp add: TinyGsmDecodeHex16bit_def)

text \<open>USSD text decoding inverts the modem's hexadecimal writing: 8-bit text comes back
  octet by octet, and 16-bit text (high octet first) character by character, with a question
  mark for every character above 255.\<close>

theorem decode_hex_text:
  "TinyGsmDecodeHex8bit (hex_of bs) = map byte_char bs \<and>
   TinyGsmDecodeHex16bit (concat (map (\<lambda>(hi, lo). hex2 hi @ hex2 lo) us)) =
     map (\<lambda>(hi, lo). if hi \<noteq> 0 then CHR ''?'' else byte_char lo) us"
  by (simp add: decode8_hex decode16_hex)

section \<open>Addresses\<close>

lemma unat_of_nat_u8: "n < 256 \<Longrightarrow> unat (of_nat n :: u8) = n"
  by (simp add: unat_of_nat)

lemma ip_loop_digits:
  assumes "length (p @ ds @ r) < 256" and "list_all c_isdigit ds" and "Part < length Parts"
    and "Parts ! Part = int n" and "i = of_nat (length p)"
  shows "ip_loop (p @ ds @ r) i Part Parts =
    ip_loop (p @ ds @ r) (of_nat (length p + length ds)) Part (Parts[Part := int (c_digits 10 n ds)])"
  using assms
proof (induction ds arbitrary: p n Parts i)
  case Nil
  then show ?case by (simp flip: Nil.prems(4))
next
  case (Cons x ds)
  have i: "unat i = length p" using Cons.prems by (simp add: unat_of_nat_u8)
  have x: "c_isdigit x" "(p @ (x # ds) @ r) ! length p = x" using Cons.prems(2) by (simp_all add: nth_append)
  then have dig: "c_digit x = Some (char_code x - 48)" "char_code x - 48 < 10" "48 \<le> char_code x"
    by (auto simp: c_isdigit_def c_digit_def)
  have "x \<noteq> CHR ''.''" using x by (auto simp: c_isdigit_def char_code_def)
  then have "ip_loop (p @ (x # ds) @ r) i Part Parts = ip_loop (p @ (x # ds) @ r) (i + 1) Part
      (Parts[Part := Parts ! Part * 10 + (int (char_code x) - 48)])"
    using i x by (subst ip_loop.simps) simp
  moreover have "Parts ! Part * 10 + (int (char_code x) - 48) = int (n * 10 + (char_code x - 48))"
    using Cons.prems(4) dig(3) by simp
  moreover have "ip_loop ((p @ [x]) @ ds @ r) (i + 1) Part (Parts[Part := int (n * 10 + (char_code x - 48))]) =
      ip_loop ((p @ [x]) @ ds @ r) (of_nat (length (p @ [x]) + length ds)) Part
        (Parts[Part := int (n * 10 + (char_code x - 48)), Part := int (c_digits 10 (n * 10 + (char_code x - 48)) ds)])"
    using Cons.prems by (intro Cons.IH) (auto simp: add.commute)
  ultimately show ?case using dig by simp
qed

lemma ip_loop_dot:
  assumes "length (p @ CHR ''.'' # r) < 256" and "i = of_nat (length p)" and "Part < 3"
  shows "ip_loop (p @ CHR ''.'' # r) i Part Parts = ip_loop (p @ CHR ''.'' # r) (of_nat (Suc (length p))) (Part + 1) Parts"
  using assms by (subst ip_loop.simps) (simp add: unat_of_nat_u8 add.commute)

lemma ip_loop_end:
  "length s < 256 \<Longrightarrow> ip_loop s (of_nat (length s)) Part Parts = Some (ip_of_parts Parts)"
  by (subst ip_loop.simps) (simp add: unat_of_nat_u8)

lemma ultoa_octet:
  fixes x :: u8
  shows "list_all c_isdigit (ultoa (unat x) 10)" and "length (ultoa (unat x) 10) \<le> 3"
    and "c_digits 10 0 (ultoa (unat x) 10) = unat x"
proof -
  have "c_isdigit c" if "is_digit_of 10 c" for c
  proof -
    have "\<forall>d \<in> set [0..<10]. c_isdigit (ltoa_digits ! d)" by code_simp
    then show ?thesis using that by (auto simp: is_digit_of_def)
  qed
  then show "list_all c_isdigit (ultoa (unat x) 10)"
    using ltoa_loop_digits [of 10 "unat x"] by (auto simp: ultoa_eq list_all_iff)
  have "unat x div 10 div 10 div 10 = 0" using unat_u8 [of x] by (simp add: div_mult2_eq [symmetric] del: unat_u8)
  then show "length (ultoa (unat x) 10) \<le> 3"
    by (simp add: ultoa_eq ltoa_loop_rec [of 10 "unat x"] ltoa_loop_rec [of 10 "unat x div 10"]
        ltoa_loop_rec [of 10 "unat x div 10 div 10"])
  show "c_digits 10 0 (ultoa (unat x) 10) = unat x"
    by (simp add: ultoa_eq c_digits_ltoa_loop)
qed

definition dotted :: "ip_address \<Rightarrow> string" where
  "dotted ip = (case ip of (a, b, c, d) \<Rightarrow>
     join_with (CHR ''.'') (map (\<lambda>x. ultoa (unat x) 10) [a, b, c, d]))"

text \<open>A text of four fields of digits, which may be empty.\<close>

lemma ip_four_fields:
  assumes dig: "list_all c_isdigit A" "list_all c_isdigit B" "list_all c_isdigit C" "list_all c_isdigit D"
    and len: "length (A @ CHR ''.'' # B @ CHR ''.'' # C @ CHR ''.'' # D) < 256"
  shows "TinyGsmIpFromString (A @ CHR ''.'' # B @ CHR ''.'' # C @ CHR ''.'' # D) =
    Some (of_nat (c_digits 10 0 A), of_nat (c_digits 10 0 B), of_nat (c_digits 10 0 C), of_nat (c_digits 10 0 D))"
proof -
  let ?s = "A @ CHR ''.'' # B @ CHR ''.'' # C @ CHR ''.'' # D"
  let ?v = "\<lambda>f. int (c_digits 10 0 f)"
  have "ip_loop ([] @ A @ (CHR ''.'' # B @ CHR ''.'' # C @ CHR ''.'' # D)) 0 0 [0,0,0,0] =
      ip_loop ?s (of_nat (length A)) 0 [?v A,0,0,0]"
    using dig len ip_loop_digits [of "[]" A _ 0 "[0,0,0,0]" 0 0] by simp
  also have "\<dots> = ip_loop ?s (of_nat (Suc (length A))) 1 [?v A,0,0,0]"
    using len ip_loop_dot [of A _ _ 0] by simp
  also have "\<dots> = ip_loop ?s (of_nat (Suc (length A) + length B)) 1 [?v A, ?v B,0,0]"
    using dig len ip_loop_digits [of "A @ ''.''" B "CHR ''.'' # C @ CHR ''.'' # D" 1
        "[?v A,0,0,0]" 0 "of_nat (Suc (length A))"] by simp
  also have "\<dots> = ip_loop ?s (of_nat (Suc (Suc (length A) + length B))) 2 [?v A, ?v B,0,0]"
    using len ip_loop_dot [of "A @ CHR ''.'' # B" "C @ CHR ''.'' # D"
        "of_nat (Suc (length A) + length B)" 1] by (simp add: numeral_2_eq_2)
  also have "\<dots> = ip_loop ?s (of_nat (Suc (Suc (length A) + length B) + length C)) 2 [?v A, ?v B, ?v C, 0]"
    using dig len ip_loop_digits [of "A @ CHR ''.'' # B @ ''.''" C "CHR ''.'' # D" 2
        "[?v A, ?v B,0,0]" 0 "of_nat (Suc (Suc (length A) + length B))"] by simp
  also have "\<dots> = ip_loop ?s (of_nat (Suc (Suc (Suc (length A) + length B) + length C))) 3 [?v A, ?v B, ?v C, 0]"
    using len ip_loop_dot [of "A @ CHR ''.'' # B @ CHR ''.'' # C" D
        "of_nat (Suc (Suc (length A) + length B) + length C)" 2] by (simp add: numeral_3_eq_3)
  also have "\<dots> = ip_loop ?s (of_nat (length ?s)) 3 [?v A, ?v B, ?v C, ?v D]"
    using dig len ip_loop_digits [of "A @ CHR ''.'' # B @ CHR ''.'' # C @ ''.''" D "[]" 3
        "[?v A, ?v B, ?v C, 0]" 0 "of_nat (Suc (Suc (Suc (length A) + length B) + length C))"]
    by (simp add: algebra_simps)
  finally show ?thesis using ip_loop_end [OF len] by (simp add: TinyGsmIpFromString_def ip_of_parts_def)
qed

lemma ip_of_dotted: "TinyGsmIpFromString (dotted ip) = Some ip"
proof -
  obtain a b c d where ip: "ip = (a, b, c, d)" by (cases ip)
  note oct = ultoa_octet [of a] ultoa_octet [of b] ultoa_octet [of c] ultoa_octet [of d]
  show ?thesis
    using ip_four_fields [OF oct(1,4,7,10)] oct unfolding ip dotted_def by simp
qed

interpretation dotted_ip: codec dotted TinyGsmIpFromString "\<lambda>_. True"
  by unfold_locales (rule ip_of_dotted)

text \<open>The address parser inverts dotted-decimal printing.\<close>

theorem ip_roundtrip: "TinyGsmIpFromString (dotted ip) = Some ip"
  by (rule dotted_ip.dec_enc) simp

lemma ip_loop_terminates:
  assumes "length s \<le> 255"
  shows "ip_loop s i Part Parts \<noteq> None"
proof (induction "length s - unat i" arbitrary: i Part Parts rule: less_induct)
  case less
  show ?case
  proof (cases "unat i < length s")
    case True
    then have "unat i + 1 < 256" using assms by simp
    then have "unat (i + 1) = unat i + 1" by (simp add: unat_word_ariths)
    then have "length s - unat (i + 1) < length s - unat i" using True by simp
    then have IH: "ip_loop s (i + 1) Part' Parts' \<noteq> None" for Part' Parts'
      by (rule less)
    then show ?thesis using IH by (subst ip_loop.simps) (simp add: Let_def del: not_None_eq)
  qed (subst ip_loop.simps, simp)
qed

lemma ip_loop_diverges:
  assumes ret: "ip_loop s i 0 Parts = Some ip"
    and long: "256 \<le> length s" and nodot: "CHR ''.'' \<notin> set (take 256 s)"
  shows False
proof -
  have "s' = s \<longrightarrow> Part \<noteq> 0" if "ip_loop s' i' Part Parts' = Some ip'" for s' i' Part Parts' ip'
  proof (rule ip_loop.raw_induct [where P = "\<lambda>s' i' Part Parts' ip'. s' = s \<longrightarrow> Part \<noteq> 0", OF _ that])
    fix f s' and i :: u8 and Part Parts and ip :: ip_address
    assume IH: "\<And>s' i Part Parts ip. f s' i Part Parts = Some ip \<Longrightarrow> s' = s \<longrightarrow> Part \<noteq> 0"
      and eq: "(if unat i < length s' then (let c = s' ! unat i in
         if c = CHR ''.'' then (if Part + 1 > 3 then Some (0, 0, 0, 0) else f s' (i + 1) (Part + 1) Parts)
         else if c_isdigit c then f s' (i + 1) Part (Parts[Part := Parts ! Part * 10 + (int (char_code c) - 48)])
         else if Part = 3 then Some (ip_of_parts Parts)
         else f s' (i + 1) Part Parts) else Some (ip_of_parts Parts)) = Some ip"
    show "s' = s \<longrightarrow> Part \<noteq> 0"
    proof (intro impI notI)
      assume [simp]: "s' = s" "Part = 0"
      have lt: "unat i < length s" "unat i < 256" using less_le_trans [OF unat_u8 [of i] long] by simp_all
      then have "s ! unat i \<in> set (take 256 s)"
        by (metis in_set_conv_nth length_take min_less_iff_conj nth_take)
      then have "s ! unat i \<noteq> CHR ''.''" using nodot by auto
      then show False
        using eq lt IH [of s "i + 1" 0 _ ip] by (cases "c_isdigit (s ! unat i)") (auto simp: Let_def)
    qed
  qed
  then show False using ret by blast
qed

text \<open>C21: the address parser returns for every string of at most 255 characters; for a longer
  one whose first 256 characters hold no dot it never returns, because its loop index is a byte.\<close>

theorem ip_termination:
  "(length s \<le> 255 \<longrightarrow> (\<exists>ip. TinyGsmIpFromString s = Some ip)) \<and>
   (256 \<le> length s \<and> CHR ''.'' \<notin> set (take 256 s) \<longrightarrow> TinyGsmIpFromString s = None)"
  using ip_loop_terminates [of s 0 0 "[0, 0, 0, 0]"] ip_loop_diverges [of s 0 "[0, 0, 0, 0]"]
  by (cases "ip_loop s 0 0 [0, 0, 0, 0]") (auto simp: TinyGsmIpFromString_def)

theorem ip_termination_witness:
  "(\<exists>ip. TinyGsmIpFromString ''10.0.0.1'' = Some ip) \<and>
   TinyGsmIpFromString (replicate 256 (CHR ''x'')) = None"
  using ip_termination [of "''10.0.0.1''"] ip_termination [of "replicate 256 (CHR ''x'')"]
  by simp

end
