(* ===== verification/Serial.thy ===== *)
theory Serial
  imports WString Noniso "HOL-Library.Monad_Syntax"
begin

text \<open>
  The serial line to the modem as the driver sees it through the \<open>Stream\<close> class
  (\<open>src/components/arduino/cores/esp32/Stream.cpp\<close>, \<open>Print.cpp\<close>).

  The modem and the interrupt routine that queues its bytes are the environment: a state holds
  the bytes that will reach the receive queue with the millisecond at which they do
  (\<open>w_in\<close>), the milliseconds since boot (\<open>w_now\<close>) and everything written (\<open>w_out\<close>). The
  theorems hold for every \<open>w_in\<close>, hence for every behaviour of the modem. Time passes when the
  code sleeps and when it polls: a poll that finds nothing takes one millisecond. \<open>millis()\<close> is
  the low 32 bits of the clock.
\<close>

section \<open>The line\<close>

record world =
  w_now :: nat
  w_in :: "(nat \<times> char) list"
  w_out :: string

definition millis :: "'a world_scheme \<Rightarrow> u32" where
  "millis w = of_nat (w_now w)"

definition delay :: "nat \<Rightarrow> 'a world_scheme \<Rightarrow> 'a world_scheme" where
  "delay ms w = w\<lparr>w_now := w_now w + ms\<rparr>"

definition idle_poll :: "'a world_scheme \<Rightarrow> 'a world_scheme" where
  "idle_poll w = w\<lparr>w_now := w_now w + 1\<rparr>"

text \<open>\<open>available()\<close>: the bytes already in the receive queue.\<close>

definition available :: "'a world_scheme \<Rightarrow> nat" where
  "available w = length (takeWhile (\<lambda>(t, c). t \<le> w_now w) (w_in w))"

text \<open>\<open>read()\<close>: the next byte, or \<open>None\<close> for \<open>-1\<close>.\<close>

definition stream_read :: "'a world_scheme \<Rightarrow> char option \<times> 'a world_scheme" where
  "stream_read w =
     (case w_in w of
        [] \<Rightarrow> (None, w)
      | (t, c) # rest \<Rightarrow> if t \<le> w_now w then (Some c, w\<lparr>w_in := rest\<rparr>) else (None, w))"

definition stream_print :: "string \<Rightarrow> 'a world_scheme \<Rightarrow> 'a world_scheme" where
  "stream_print s w = w\<lparr>w_out := w_out w @ s\<rparr>"

text \<open>\<open>Print::printNumber\<close>, digits most significant first.\<close>

function (sequential) print_digits :: "nat \<Rightarrow> nat \<Rightarrow> string \<Rightarrow> string" where
  "print_digits base n str =
     (let m = n;
          n = n div base;
          c = m - base * n;
          str = (byte_char (if c < 10 then of_nat (c + 48) else of_nat (c + 65 - 10))) # str
      in if n = 0 \<or> base < 2 then str else print_digits base n str)"
  by pat_completeness auto
termination
  by (relation "measure (\<lambda>(base, n, str). n)") (auto simp: div_greater_zero_iff)

declare print_digits.simps [simp del]

definition print_number :: "nat \<Rightarrow> nat \<Rightarrow> string" where
  "print_number n base = print_digits (if base < 2 then 10 else base) n []"

section \<open>Timed reads\<close>

text \<open>\<open>unsigned long _timeout = 1000\<close>, set by the constructor of \<open>Stream\<close>.\<close>

definition stream_timeout :: u32 where
  "stream_timeout = 1000"

text \<open>The limit is an argument of the loop: \<open>setTimeout\<close> changes the field.\<close>

function (sequential) timed_read_loop ::
    "u32 \<Rightarrow> u32 \<Rightarrow> 'a world_scheme \<Rightarrow> char option \<times> 'a world_scheme" where
  "timed_read_loop tmo start w =
     (case stream_read w of
        (Some c, w') \<Rightarrow> (Some c, w')
      | (None, w') \<Rightarrow>
          if millis w' - start < tmo
          then timed_read_loop tmo start (idle_poll w')
          else (None, w'))"
  by pat_completeness auto
termination
proof (relation "measure (\<lambda>(tmo, start, w). unat (tmo - (millis w - start)))", simp)
  fix tmo start and w :: "'a world_scheme" and a w'
  assume "(a, w') = stream_read w" and lt: "millis w' - start < tmo" and "a = None"
  then have w': "w' = w" by (auto simp: stream_read_def split: list.splits if_splits)
  define e where "e = millis w - start"
  have step: "millis (idle_poll w) - start = e + 1" by (simp add: millis_def idle_poll_def e_def)
  have "e < tmo" using lt w' by (simp add: e_def)
  then have "unat (tmo - (e + 1)) < unat (tmo - e)" by unat_arith
  then show "((tmo, start, idle_poll w'), tmo, start, w) \<in>
      measure (\<lambda>(tmo, start, w). unat (tmo - (millis w - start)))"
    unfolding in_measure prod.case w' step e_def [symmetric] .
qed

declare timed_read_loop.simps [simp del]

definition timedRead_for :: "u32 \<Rightarrow> 'a world_scheme \<Rightarrow> char option \<times> 'a world_scheme" where
  "timedRead_for tmo w = timed_read_loop tmo (millis w) w"

definition timedRead :: "'a world_scheme \<Rightarrow> char option \<times> 'a world_scheme" where
  "timedRead w = timedRead_for stream_timeout w"

text \<open>Reading never lengthens the line.\<close>

lemma stream_read_Some: "stream_read w = (Some c, w') \<Longrightarrow> length (w_in w) = Suc (length (w_in w'))"
  by (auto simp: stream_read_def split: list.splits if_splits)

lemma stream_read_None: "stream_read w = (None, w') \<Longrightarrow> w' = w"
  by (auto simp: stream_read_def split: list.splits if_splits)

lemma timed_read_loop_Some:
  "timed_read_loop tmo start w = (Some c, w') \<Longrightarrow> length (w_in w) = Suc (length (w_in w'))"
proof (induction tmo start w rule: timed_read_loop.induct)
  case (1 tmo start w)
  show ?case
  proof (cases "stream_read w")
    case (Pair a w1)
    show ?thesis
    proof (cases a)
      case (Some d)
      then show ?thesis using Pair "1.prems" stream_read_Some [of w d]
        by (subst (asm) timed_read_loop.simps) auto
    next
      case None
      then have w1: "w1 = w" using Pair stream_read_None by blast
      then have "millis w - start < tmo \<and> timed_read_loop tmo start (idle_poll w) = (Some c, w')"
        using Pair None "1.prems" by (subst (asm) timed_read_loop.simps) (auto split: if_splits)
      then have "length (w_in (idle_poll w)) = Suc (length (w_in w'))"
        using "1.IH" [OF Pair [symmetric] None] w1 by simp
      then show ?thesis by (simp add: idle_poll_def)
    qed
  qed
qed

lemma timedRead_Some: "timedRead w = (Some c, w') \<Longrightarrow> length (w_in w') < length (w_in w)"
  unfolding timedRead_def timedRead_for_def by (drule timed_read_loop_Some) simp

function (sequential) read_until_loop :: "char option \<Rightarrow> string \<Rightarrow> 'a world_scheme \<Rightarrow> string \<times> 'a world_scheme" where
  "read_until_loop terminator ret w =
     (case timedRead w of
        (None, w') \<Rightarrow> (ret, w')
      | (Some c, w') \<Rightarrow>
          if terminator = Some c then (ret, w')
          else read_until_loop terminator (ret @ [c]) w')"
  by pat_completeness auto
termination
  by (relation "measure (\<lambda>(tm, ret, w). length (w_in w))") (auto intro: timedRead_Some [OF sym])

declare read_until_loop.simps [simp del]

definition readStringUntil :: "char \<Rightarrow> 'a world_scheme \<Rightarrow> string \<times> 'a world_scheme" where
  "readStringUntil terminator w = read_until_loop (Some terminator) [] w"

definition readString :: "'a world_scheme \<Rightarrow> string \<times> 'a world_scheme" where
  "readString w = read_until_loop None [] w"

text \<open>\<open>Stream::readBytes\<close> and \<open>readBytesUntil\<close>: the bytes stored, as many as the count returned.\<close>

fun readBytes_loop :: "u32 \<Rightarrow> char option \<Rightarrow> nat \<Rightarrow> 'a world_scheme \<Rightarrow> string \<times> 'a world_scheme" where
  "readBytes_loop tmo terminator 0 w = ([], w)"
| "readBytes_loop tmo terminator (Suc n) w =
     (case timedRead_for tmo w of
        (None, w) \<Rightarrow> ([], w)
      | (Some c, w) \<Rightarrow>
          if terminator = Some c then ([], w)
          else (case readBytes_loop tmo terminator n w of (s, w) \<Rightarrow> (c # s, w)))"

definition readBytes :: "u32 \<Rightarrow> nat \<Rightarrow> 'a world_scheme \<Rightarrow> string \<times> 'a world_scheme" where
  "readBytes tmo n w = readBytes_loop tmo None n w"

definition readBytesUntil :: "u32 \<Rightarrow> char \<Rightarrow> nat \<Rightarrow> 'a world_scheme \<Rightarrow> string \<times> 'a world_scheme" where
  "readBytesUntil tmo terminator n w = readBytes_loop tmo (Some terminator) n w"

section \<open>Lemmas\<close>

text \<open>The loop of \<open>timedRead\<close> in closed form: it takes the next byte if that arrives within the
  limit, and otherwise gives up at the limit.\<close>

lemma timed_read_loop_eq:
  assumes "n0 \<le> w_now w" and "w_now w \<le> n0 + unat tmo"
  shows "timed_read_loop tmo (of_nat n0) w =
    (case w_in w of
       [] \<Rightarrow> (None, w\<lparr>w_now := n0 + unat tmo\<rparr>)
     | (t, c) # rest \<Rightarrow>
         if t \<le> n0 + unat tmo then (Some c, w\<lparr>w_now := max t (w_now w), w_in := rest\<rparr>)
         else (None, w\<lparr>w_now := n0 + unat tmo\<rparr>))"
  using assms
proof (induction "n0 + unat tmo - w_now w" arbitrary: w rule: less_induct)
  case less
  have diff: "millis w - of_nat n0 = of_nat (w_now w - n0)"
    using less.prems by (simp add: millis_def)
  have "unat (of_nat (w_now w - n0) :: u32) = w_now w - n0"
    using less.prems unsigned_less [of tmo, where ?'a = nat] by (simp add: unat_of_nat del: of_nat_diff)
  then have e: "millis w - of_nat n0 < tmo \<longleftrightarrow> w_now w < n0 + unat tmo"
    using less.prems unfolding diff word_less_nat_alt by auto
  have step: "timed_read_loop tmo (of_nat n0) (idle_poll w) =
    (case w_in w of
       [] \<Rightarrow> (None, w\<lparr>w_now := n0 + unat tmo\<rparr>)
     | (t, c) # rest \<Rightarrow>
         if t \<le> n0 + unat tmo then (Some c, w\<lparr>w_now := max t (w_now w + 1), w_in := rest\<rparr>)
         else (None, w\<lparr>w_now := n0 + unat tmo\<rparr>))" if "w_now w < n0 + unat tmo"
    using less.hyps [of "w\<lparr>w_now := w_now w + 1\<rparr>"] less.prems that
    by (cases "w_in w") (auto simp: idle_poll_def max_def)
  show ?case
  proof (cases "w_in w")
    case Nil
    then show ?thesis using e step less.prems
      by (subst timed_read_loop.simps) (auto simp: stream_read_def)
  next
    case (Cons tc rest)
    obtain t c where tc: "tc = (t, c)" by fastforce
    show ?thesis
    proof (cases "t \<le> w_now w")
      case True
      then show ?thesis using Cons tc less.prems
        by (subst timed_read_loop.simps) (simp add: stream_read_def max_def)
    next
      case False
      then show ?thesis using Cons tc e step less.prems
        by (subst timed_read_loop.simps) (auto simp: stream_read_def max_def)
    qed
  qed
qed

lemma timedRead_for_eq:
  "timedRead_for tmo w =
    (case w_in w of
       [] \<Rightarrow> (None, w\<lparr>w_now := w_now w + unat tmo\<rparr>)
     | (t, c) # rest \<Rightarrow>
         if t \<le> w_now w + unat tmo then (Some c, w\<lparr>w_now := max t (w_now w), w_in := rest\<rparr>)
         else (None, w\<lparr>w_now := w_now w + unat tmo\<rparr>))"
  unfolding timedRead_for_def millis_def by (rule timed_read_loop_eq) simp_all

lemma timedRead_eq [wire_simps]:
  "timedRead w =
    (case w_in w of
       [] \<Rightarrow> (None, w\<lparr>w_now := w_now w + 1000\<rparr>)
     | (t, c) # rest \<Rightarrow>
         if t \<le> w_now w + 1000 then (Some c, w\<lparr>w_now := max t (w_now w), w_in := rest\<rparr>)
         else (None, w\<lparr>w_now := w_now w + 1000\<rparr>))"
proof -
  have tmo: "unat (1000 :: u32) = 1000" by simp
  show ?thesis unfolding timedRead_def timedRead_for_eq stream_timeout_def tmo ..
qed

text \<open>
  What every operation of the line keeps: the clock does not run backwards, only a prefix of the
  incoming bytes is consumed, and a reading operation writes nothing.
\<close>

definition line_le :: "'a world_scheme \<Rightarrow> 'a world_scheme \<Rightarrow> bool" where
  "line_le w w' \<longleftrightarrow> w_now w \<le> w_now w' \<and> (\<exists>used. w_in w = used @ w_in w')"

definition reads_only :: "'a world_scheme \<Rightarrow> 'a world_scheme \<Rightarrow> bool" where
  "reads_only w w' \<longleftrightarrow> line_le w w' \<and> w_out w' = w_out w \<and> world.more w' = world.more w"

lemma line_le_refl [intro, simp]: "line_le w w"
  by (simp add: line_le_def)

lemma line_le_trans: "line_le a b \<Longrightarrow> line_le b c \<Longrightarrow> line_le a c"
  unfolding line_le_def by (metis append.assoc order_trans)

lemma reads_only_refl [intro, simp]: "reads_only w w"
  by (simp add: reads_only_def)

lemma reads_only_trans: "reads_only a b \<Longrightarrow> reads_only b c \<Longrightarrow> reads_only a c"
  unfolding reads_only_def by (metis line_le_trans)

lemma line_le_length: "line_le w w' \<Longrightarrow> length (w_in w') \<le> length (w_in w)"
  by (auto simp: line_le_def)

lemma reads_only_length: "reads_only w w' \<Longrightarrow> length (w_in w') \<le> length (w_in w)"
  by (auto simp: reads_only_def line_le_length)

lemma stream_read_reads_only: "stream_read w = (r, w') \<Longrightarrow> reads_only w w'"
  by (auto simp: stream_read_def reads_only_def line_le_def split: list.splits if_splits)

lemma idle_poll_reads_only [simp]: "reads_only w (idle_poll w)"
  by (simp add: idle_poll_def reads_only_def line_le_def)

lemma timedRead_for_reads_only: "timedRead_for tmo w = (r, w') \<Longrightarrow> reads_only w w'"
  by (auto simp: timedRead_for_eq reads_only_def line_le_def split: list.splits if_splits)

lemma readBytes_loop_reads_only: "readBytes_loop tmo tm n w = (s, w') \<Longrightarrow> reads_only w w'"
proof (induction tmo tm n w arbitrary: s w' rule: readBytes_loop.induct)
  case (2 tmo tm n w)
  obtain r w1 where r: "timedRead_for tmo w = (r, w1)" by fastforce
  obtain s2 w2 where l: "readBytes_loop tmo tm n w1 = (s2, w2)" by fastforce
  show ?case using "2.prems" "2.IH" [OF r [symmetric] _ _ l] r l timedRead_for_reads_only [OF r]
    by (auto split: option.splits if_splits intro: reads_only_trans)
qed simp

lemma readBytes_reads_only: "readBytes tmo n w = (s, w') \<Longrightarrow> reads_only w w'"
  unfolding readBytes_def by (rule readBytes_loop_reads_only)

lemma readBytes_consumed: "readBytes tmo n w = (s, w') \<Longrightarrow> length (w_in w) = length s + length (w_in w')"
  unfolding readBytes_def
proof (induction n arbitrary: w s)
  case (Suc n)
  obtain r w1 where r: "timedRead_for tmo w = (r, w1)" by fastforce
  show ?case
  proof (cases r)
    case None
    then show ?thesis using Suc.prems r by (auto simp: timedRead_for_eq split: list.splits if_splits)
  next
    case (Some c)
    then obtain s' where "readBytes_loop tmo None n w1 = (s', w')" "s = c # s'"
      using Suc.prems r by (auto split: prod.splits)
    moreover have "length (w_in w) = Suc (length (w_in w1))"
      using r Some by (auto simp: timedRead_for_eq split: list.splits if_splits)
    ultimately show ?thesis using Suc.IH by simp
  qed
qed simp

lemma readBytes_length: "readBytes tmo n w = (s, w') \<Longrightarrow> length s \<le> n"
  unfolding readBytes_def
proof (induction n arbitrary: w s)
  case (Suc n)
  then show ?case by (fastforce split: option.splits prod.splits)
qed simp

lemma timedRead_reads_only: "timedRead w = (r, w') \<Longrightarrow> reads_only w w'"
  by (auto simp: timedRead_eq reads_only_def line_le_def split: list.splits if_splits)

lemma read_until_loop_reads_only: "read_until_loop tm ret w = (s, w') \<Longrightarrow> reads_only w w'"
proof (induction tm ret w arbitrary: s w' rule: read_until_loop.induct)
  case (1 tm ret w)
  obtain r w1 where r: "timedRead w = (r, w1)" by fastforce
  show ?case
  proof (cases "r = None \<or> r = tm")
    case True
    then have "w1 = w'" using "1.prems" r
      by (subst (asm) read_until_loop.simps) (auto split: option.splits if_splits)
    then show ?thesis using r timedRead_reads_only by blast
  next
    case False
    then obtain c where c: "r = Some c" "tm \<noteq> Some c" by auto
    then have "read_until_loop tm (ret @ [c]) w1 = (s, w')"
      using "1.prems" r by (subst (asm) read_until_loop.simps) simp
    then have "reads_only w1 w'" using "1.IH" [OF r [symmetric]] c by blast
    then show ?thesis using r timedRead_reads_only reads_only_trans by blast
  qed
qed

lemma readStringUntil_reads_only: "readStringUntil c w = (s, w') \<Longrightarrow> reads_only w w'"
  unfolding readStringUntil_def by (rule read_until_loop_reads_only)

text \<open>A field that is completely there is read without waiting.\<close>

lemma read_until_loop_ready:
  assumes "\<forall>(t, b) \<in> set xs. t \<le> w_now w \<and> b \<noteq> c" and "t \<le> w_now w"
    and "w_in w = xs @ (t, c) # rest"
  shows "read_until_loop (Some c) ret w = (ret @ map snd xs, w\<lparr>w_in := rest\<rparr>)"
  using assms
proof (induction xs arbitrary: ret w)
  case Nil
  then show ?case by (subst read_until_loop.simps) (simp add: timedRead_eq max_def)
next
  case (Cons x xs)
  obtain u b where x: "x = (u, b)" by fastforce
  have "timedRead w = (Some b, w\<lparr>w_in := xs @ (t, c) # rest\<rparr>)"
    using Cons.prems x by (simp add: timedRead_eq max_def)
  then show ?case using Cons.IH [of "w\<lparr>w_in := xs @ (t, c) # rest\<rparr>" "ret @ [b]"] Cons.prems x
    by (subst read_until_loop.simps) auto
qed

lemma readStringUntil_ready:
  assumes "\<forall>(t, b) \<in> set xs. t \<le> w_now w \<and> b \<noteq> c" and "t \<le> w_now w"
    and "w_in w = xs @ (t, c) # rest"
  shows "readStringUntil c w = (map snd xs, w\<lparr>w_in := rest\<rparr>)"
  unfolding readStringUntil_def using read_until_loop_ready [OF assms, of "[]"] by simp


section \<open>Answers on the line\<close>

text \<open>
  \<open>incoming T s rest w\<close>: the next bytes of the line are the text \<open>s\<close>, all of them are there by the
  millisecond \<open>T\<close>, and \<open>rest\<close> follows. \<open>after T rest w w'\<close>: exactly those bytes were consumed, not
  later than \<open>T\<close>, and nothing else changed.
\<close>

definition incoming :: "nat \<Rightarrow> string \<Rightarrow> (nat \<times> char) list \<Rightarrow> 'a world_scheme \<Rightarrow> bool" where
  "incoming T s rest w \<longleftrightarrow> w_now w \<le> T \<and>
     (\<exists>xs. w_in w = xs @ rest \<and> map snd xs = s \<and> (\<forall>(t, c) \<in> set xs. t \<le> T))"

definition after :: "nat \<Rightarrow> (nat \<times> char) list \<Rightarrow> 'a world_scheme \<Rightarrow> 'a world_scheme \<Rightarrow> bool" where
  "after T rest w w' \<longleftrightarrow> (\<exists>n. w_now w \<le> n \<and> n \<le> T \<and> w' = w\<lparr>w_now := n, w_in := rest\<rparr>)"

lemma after_trans: "after T r w1 w2 \<Longrightarrow> after T r' w2 w3 \<Longrightarrow> after T r' w1 w3"
  unfolding after_def by (elim exE conjE, rule_tac x = na in exI) simp

lemma after_now: "after T r w w' \<Longrightarrow> w_now w \<le> w_now w' \<and> w_now w' \<le> T"
  by (auto simp: after_def)

lemma after_out: "after T r w w' \<Longrightarrow> w_out w' = w_out w"
  by (auto simp: after_def)

lemma after_in: "after T r w w' \<Longrightarrow> w_in w' = r"
  by (auto simp: after_def)

lemma after_intro [intro]: "w_now w \<le> n \<Longrightarrow> n \<le> T \<Longrightarrow> after T r w (w\<lparr>w_now := n, w_in := r\<rparr>)"
  unfolding after_def by (rule exI [of _ n]) simp

lemma after_step:
  assumes "after T r (w\<lparr>w_now := n, w_in := m\<rparr>) w'" and "w_now w \<le> n"
  shows "after T r w w'"
proof -
  obtain k where "n \<le> k" "k \<le> T" "w' = w\<lparr>w_now := k, w_in := r\<rparr>"
    using assms(1) by (auto simp: after_def)
  then show ?thesis using assms(2) by auto
qed

lemma incoming_Cons:
  "incoming T (c # s) rest w \<longleftrightarrow>
    (\<exists>t mid. w_in w = (t, c) # mid \<and> t \<le> T \<and>
      incoming T s rest (w\<lparr>w_now := max t (w_now w), w_in := mid\<rparr>))"
  (is "?l = ?r")
proof
  assume ?l
  then obtain xs where xs: "w_in w = xs @ rest" "map snd xs = c # s" "\<forall>(t, c) \<in> set xs. t \<le> T"
    and "w_now w \<le> T"
    unfolding incoming_def by auto
  then show ?r by (auto simp: incoming_def)
next
  assume ?r
  then obtain t mid xs where "w_in w = (t, c) # mid" "t \<le> T" "mid = xs @ rest" "map snd xs = s"
    "\<forall>(t, c) \<in> set xs. t \<le> T" "max t (w_now w) \<le> T"
    unfolding incoming_def by auto
  then show ?l unfolding incoming_def by (intro conjI exI [of _ "(t, c) # xs"]) auto
qed

lemma incoming_Nil: "incoming T [] rest w \<longleftrightarrow> w_now w \<le> T \<and> w_in w = rest"
  by (auto simp: incoming_def)

lemma incoming_split:
  assumes "incoming T (a @ b) rest w"
  obtains mid where "incoming T a mid w"
    and "\<And>w'. after T mid w w' \<Longrightarrow> incoming T b rest w'"
proof -
  obtain xs where xs: "w_in w = xs @ rest" "map snd xs = a @ b" "\<forall>(t, c) \<in> set xs. t \<le> T"
    and le: "w_now w \<le> T"
    using assms unfolding incoming_def by auto
  obtain xa xb where "xs = xa @ xb" "map snd xa = a" "map snd xb = b"
    using xs(2) by (auto simp: map_eq_append_conv)
  then have "incoming T a (xb @ rest) w" and "after T (xb @ rest) w w' \<Longrightarrow> incoming T b rest w'" for w'
    using xs le by (auto simp: incoming_def after_def)
  then show ?thesis by (rule that)
qed

lemma incoming_before: "incoming T s rest w \<Longrightarrow> w_now w \<le> T"
  by (simp add: incoming_def)

lemma incoming_sent: "incoming T s rest (stream_print x w) = incoming T s rest w"
  by (simp add: incoming_def stream_print_def)

text \<open>A field whose bytes come within a second is read up to its terminator.\<close>

lemma read_until_loop_incoming:
  assumes "incoming T (s @ [c]) rest w" and "c \<notin> set s" and "T \<le> w_now w + 1000"
  shows "\<exists>w'. read_until_loop (Some c) ret w = (ret @ s, w') \<and> after T rest w w'"
  using assms
proof (induction s arbitrary: ret w)
  case Nil
  then obtain t where t: "w_in w = (t, c) # rest" "t \<le> T" "w_now w \<le> T"
    by (auto simp: incoming_Cons incoming_Nil)
  then show ?case using Nil.prems
    by (subst read_until_loop.simps) (auto simp: timedRead_eq)
next
  case (Cons b s)
  obtain t mid where t: "w_in w = (t, b) # mid" "t \<le> T"
    and inc: "incoming T (s @ [c]) rest (w\<lparr>w_now := max t (w_now w), w_in := mid\<rparr>)"
    using Cons.prems(1) by (auto simp: incoming_Cons)
  have le: "w_now w \<le> T" using Cons.prems(1) by (rule incoming_before)
  let ?w = "w\<lparr>w_now := max t (w_now w), w_in := mid\<rparr>"
  have rd: "timedRead w = (Some b, ?w)" using t Cons.prems by (simp add: timedRead_eq)
  have "T \<le> w_now ?w + 1000" "c \<notin> set s" using Cons.prems by simp_all
  then obtain w' where "read_until_loop (Some c) (ret @ [b]) ?w = ((ret @ [b]) @ s, w')" "after T rest ?w w'"
    using Cons.IH [OF inc, of "ret @ [b]"] by blast
  then show ?case using rd Cons.prems after_step
    by (subst read_until_loop.simps) fastforce
qed

lemma readStringUntil_incoming:
  assumes "incoming T (s @ c # b) rest w" and "c \<notin> set s" and "T \<le> w_now w + 1000"
  obtains mid w' where "readStringUntil c w = (s, w')" "after T mid w w'" "incoming T b rest w'"
proof -
  have "incoming T ((s @ [c]) @ b) rest w" using assms(1) by simp
  from incoming_split [OF this] obtain mid where mid: "incoming T (s @ [c]) mid w"
    "\<And>w'. after T mid w w' \<Longrightarrow> incoming T b rest w'"
    by metis
  then obtain w' where "read_until_loop (Some c) [] w = ([] @ s, w')" "after T mid w w'"
    using read_until_loop_incoming [OF mid(1) assms(2,3), of "[]"] by blast
  then show ?thesis using that [of w' mid] mid(2) by (simp add: readStringUntil_def)
qed


lemma readBytes_incoming:
  assumes "incoming T s rest w" and "T \<le> w_now w + unat tmo"
  shows "\<exists>w'. readBytes tmo (length s) w = (s, w') \<and> after T rest w w'"
  unfolding readBytes_def using assms
proof (induction s arbitrary: w)
  case Nil
  then have "w = w\<lparr>w_now := w_now w, w_in := rest\<rparr>" "w_now w \<le> T" by (auto simp: incoming_Nil)
  then show ?case by (metis after_intro list.size(3) order_refl readBytes_loop.simps(1))
next
  case (Cons b s)
  obtain t mid where t: "w_in w = (t, b) # mid" "t \<le> T"
    and inc: "incoming T s rest (w\<lparr>w_now := max t (w_now w), w_in := mid\<rparr>)"
    using Cons.prems(1) by (auto simp: incoming_Cons)
  let ?w = "w\<lparr>w_now := max t (w_now w), w_in := mid\<rparr>"
  have "timedRead_for tmo w = (Some b, ?w)" using t Cons.prems by (simp add: timedRead_for_eq)
  moreover have "T \<le> w_now ?w + unat tmo" using Cons.prems(2) by simp
  from Cons.IH [OF inc this] obtain w' where "readBytes_loop tmo None (length s) ?w = (s, w')" "after T rest ?w w'"
    by blast
  moreover from this have "after T rest w w'" by (auto intro: after_step)
  ultimately show ?case by simp
qed


section \<open>Decimal numbers on the line\<close>

definition digit_char :: "nat \<Rightarrow> char" where
  "digit_char c = byte_char (of_nat (c + 48))"

lemma digit_char_value: 
  assumes "c < 10"
  shows "c_digit (digit_char c) = Some c \<and> c_isdigit (digit_char c)"
proof -
  have "unat (of_nat (c + 48) :: u8) = c + 48" using assms by (simp add: unat_of_nat del: of_nat_add)
  then have "char_code (digit_char c) = c + 48"
    using assms by (simp add: digit_char_def byte_char_def char_code_def)
  then show ?thesis using assms by (simp add: c_digit_def c_isdigit_def)
qed

definition digit_at :: "nat \<Rightarrow> nat \<Rightarrow> char" where
  "digit_at base n =
     (let c = n - base * (n div base) in byte_char (if c < 10 then of_nat (c + 48) else of_nat (c + 65 - 10)))"

lemma print_digits_unfold:
  "print_digits base n str =
     (if n div base = 0 \<or> base < 2 then digit_at base n # str
      else print_digits base (n div base) (digit_at base n # str))"
  by (subst print_digits.simps) (simp only: Let_def digit_at_def)

lemma print_digits_acc: "print_digits base n str = print_digits base n [] @ str"
proof (induction n arbitrary: str rule: less_induct)
  case (less n)
  show ?case
  proof (cases "n div base = 0 \<or> base < 2")
    case True
    then show ?thesis by (simp only: print_digits_unfold [of base n] if_True append_Cons append_Nil)
  next
    case False
    then have "n div base < n" by (intro div_less_dividend) (auto intro: Nat.gr0I)
    from less.IH [OF this, of "digit_at base n # str"] less.IH [OF this, of "[digit_at base n]"]
    show ?thesis using False
      by (simp only: print_digits_unfold [of base n] if_False append_assoc append_Cons append_Nil)
  qed
qed

lemma digit_at_10: "digit_at 10 n = digit_char (n mod 10)"
proof -
  have "n - 10 * (n div 10) = n mod 10" by (simp only: minus_mult_div_eq_mod)
  then show ?thesis by (simp add: digit_at_def digit_char_def)
qed

lemma print_digits_10:
  "print_digits 10 n [] = (if n < 10 then [] else print_digits 10 (n div 10) []) @ [digit_char (n mod 10)]"
  using print_digits_acc [of 10 "n div 10" "[digit_char (n mod 10)]"]
  by (simp add: print_digits_unfold [of 10 n] digit_at_10 div_eq_0_iff)

lemma print_digits_value:
  "c_digits 10 0 (print_digits 10 n []) = n \<and> list_all c_isdigit (print_digits 10 n []) \<and>
   list_all (\<lambda>c. \<exists>d. c_digit c = Some d \<and> d < 10) (print_digits 10 n [])"
proof (induction n rule: less_induct)
  case (less n)
  have d: "c_digit (digit_char (n mod 10)) = Some (n mod 10)" "c_isdigit (digit_char (n mod 10))"
    using digit_char_value by simp_all
  show ?case
  proof (cases "n < 10")
    case True
    then show ?thesis using d by (subst (1 2 3) print_digits_10) simp
  next
    case False
    then have "n div 10 < n" by simp
    from less.IH [OF this] show ?thesis using False d
      by (subst (1 2 3) print_digits_10) (simp add: c_digits_app)
  qed
qed

lemma print_number_nonempty: "print_number n 10 \<noteq> []"
  by (simp add: print_number_def print_digits_10 [of n])

lemma print_number_digits: "list_all c_isdigit (print_number n 10)"
  using print_digits_value by (simp add: print_number_def)

lemma isdigit_sep: "list_all c_isdigit s \<Longrightarrow> \<not> c_isdigit c \<Longrightarrow> c \<notin> set s"
  by (auto simp: list_all_iff)

lemma nondigits [simp]:
  "\<not> c_isdigit CHR 0x00" "\<not> c_isdigit CHR '',''" "\<not> c_isdigit CHR 0x0A" "\<not> c_isdigit CHR 0x0D"
  "\<not> c_isdigit CHR '' ''" "\<not> c_isdigit CHR 0x22"
  by (simp_all add: c_isdigit_def char_code_def)

lemma print_number_sep [simp]: "\<not> c_isdigit c \<Longrightarrow> c \<notin> set (print_number n 10)"
  by (rule isdigit_sep [OF print_number_digits])

text \<open>\<open>toInt\<close> reads back a printed number, with blanks before it and other text behind it.\<close>

lemma toInt_print_number:
  assumes "list_all c_isspace a" and "n < 2 ^ 31" and "b = [] \<or> \<not> c_isdigit (hd b) \<and> CHR 0x00 \<notin> set b"
  shows "str_toInt (a @ print_number n 10 @ b) = int n"
proof -
  let ?p = "print_number n 10"
  obtain x xs where p: "?p = x # xs" using print_number_nonempty by (cases ?p) auto
  then have x: "c_isdigit x" using print_number_digits [of n] by simp
  then have nx: "\<not> c_isspace x" "x \<noteq> CHR ''-''" "x \<noteq> CHR ''+''"
    by (auto simp: c_isdigit_def c_isspace_def char_code_def)
  have az: "CHR 0x00 \<notin> set a" using assms(1) by (auto simp: list_all_iff c_isspace_def char_code_def)
  have bz: "CHR 0x00 \<notin> set b" using assms(3) by auto
  have drop: "dropWhile c_isspace (a @ ?p @ b) = ?p @ b"
    using assms(1) nx p by (induction a) auto
  have b0: "c_digits 10 v b = v" for v
  proof (cases b)
    case (Cons y ys)
    then have "\<not> c_isdigit y" using assms(3) by simp
    then have "\<not> (\<exists>d. c_digit y = Some d \<and> d < 10)"
      by (auto simp: c_digit_def c_isdigit_def Let_def split: if_splits)
    then show ?thesis using Cons by (auto split: option.splits)
  qed simp
  have "c_digits 10 0 (?p @ b) = n"
    using print_digits_value [of n] by (simp add: print_number_def c_digits_app b0)
  moreover have "c_str (a @ ?p @ b) = a @ ?p @ b" using az bz by (intro c_str_id) auto
  ultimately show ?thesis using drop nx p assms(2)
    by (simp add: str_toInt_def c_atol_def c_strtol_def c_sign_def c_hex_prefix_def long_clamp_def)
qed

end
