(* ===== verification/StreamOps.thy ===== *)
theory StreamOps
  imports Serial Codec
begin

text \<open>
  The rest of the classes \<open>Stream\<close> and \<open>Print\<close> (\<open>src/components/arduino/cores/esp32/Stream.cpp\<close>,
  \<open>Print.cpp\<close>, \<open>Print.h\<close>): looking ahead, searching for a text, reading a number, and the overloads of
  \<open>print\<close> and \<open>println\<close> with the counts they return. The conversions of floating-point numbers
  (\<open>parseFloat\<close>, \<open>printFloat\<close>) are not modelled.
\<close>

section \<open>Print\<close>

text \<open>\<open>write\<close> of a buffer, of a C string and of a byte: the count returned and the line.\<close>

definition write_buf :: "string \<Rightarrow> 'a world_scheme \<Rightarrow> nat \<times> 'a world_scheme" where
  "write_buf s w = (length s, stream_print s w)"

definition write_cstr :: "string \<Rightarrow> 'a world_scheme \<Rightarrow> nat \<times> 'a world_scheme" where
  "write_cstr str w = write_buf (c_str str) w"

definition write_byte :: "u8 \<Rightarrow> 'a world_scheme \<Rightarrow> nat \<times> 'a world_scheme" where
  "write_byte b w = (1, stream_print [byte_char b] w)"

definition print_String :: "string \<Rightarrow> 'a world_scheme \<Rightarrow> nat \<times> 'a world_scheme" where
  "print_String s w = write_buf s w"

definition print_cstr :: "string \<Rightarrow> 'a world_scheme \<Rightarrow> nat \<times> 'a world_scheme" where
  "print_cstr str w = write_cstr str w"

definition print_char :: "char \<Rightarrow> 'a world_scheme \<Rightarrow> nat \<times> 'a world_scheme" where
  "print_char c w = write_byte (char_byte c) w"

text \<open>\<open>printNumber\<close> takes the base as a byte.\<close>

definition printNumber :: "u32 \<Rightarrow> u8 \<Rightarrow> 'a world_scheme \<Rightarrow> nat \<times> 'a world_scheme" where
  "printNumber n base w = write_cstr (print_number (unat n) (unat base)) w"

definition print_ulong :: "u32 \<Rightarrow> int \<Rightarrow> 'a world_scheme \<Rightarrow> nat \<times> 'a world_scheme" where
  "print_ulong n base w =
     (if base = 0 then write_byte (ucast n) w else printNumber n (word_of_int base) w)"

text \<open>A \<open>long\<close> is the signed reading of 32 bits; the negation of the least one leaves it as it is.\<close>

definition print_signed :: "u32 \<Rightarrow> int \<Rightarrow> 'a world_scheme \<Rightarrow> nat \<times> 'a world_scheme" where
  "print_signed n base w =
     (if base = 0 then write_byte (ucast n) w
      else if base = 10 then
        (if sint n < 0 then
           (let (t, w) = print_char (CHR ''-'') w;
                n = - n;
                (k, w) = printNumber n 10 w
            in (k + t, w))
         else printNumber n 10 w)
      else printNumber n (word_of_int base) w)"

definition print_uchar :: "u8 \<Rightarrow> int \<Rightarrow> 'a world_scheme \<Rightarrow> nat \<times> 'a world_scheme" where
  "print_uchar b base w = print_ulong (ucast b) base w"

definition print_int :: "u32 \<Rightarrow> int \<Rightarrow> 'a world_scheme \<Rightarrow> nat \<times> 'a world_scheme" where
  "print_int n base w = print_signed n base w"

definition print_uint :: "u32 \<Rightarrow> int \<Rightarrow> 'a world_scheme \<Rightarrow> nat \<times> 'a world_scheme" where
  "print_uint n base w = print_ulong n base w"

definition println_end :: "'a world_scheme \<Rightarrow> nat \<times> 'a world_scheme" where
  "println_end w = print_cstr [CHR 0x0D, CHR 0x0A] w"

text \<open>The \<open>println\<close> of each kind of value: its \<open>print\<close>, and then the end of the line.\<close>

definition println_of :: "('a world_scheme \<Rightarrow> nat \<times> 'a world_scheme) \<Rightarrow> 'a world_scheme \<Rightarrow> nat \<times> 'a world_scheme" where
  "println_of pr w =
     (let (n, w) = pr w;
          (m, w) = println_end w
      in (n + m, w))"

definition println_String :: "string \<Rightarrow> 'a world_scheme \<Rightarrow> nat \<times> 'a world_scheme" where
  "println_String s w = println_of (print_String s) w"

definition println_cstr :: "string \<Rightarrow> 'a world_scheme \<Rightarrow> nat \<times> 'a world_scheme" where
  "println_cstr s w = println_of (print_cstr s) w"

definition println_char :: "char \<Rightarrow> 'a world_scheme \<Rightarrow> nat \<times> 'a world_scheme" where
  "println_char c w = println_of (print_char c) w"

definition println_uchar :: "u8 \<Rightarrow> int \<Rightarrow> 'a world_scheme \<Rightarrow> nat \<times> 'a world_scheme" where
  "println_uchar n base w = println_of (print_uchar n base) w"

definition println_int :: "u32 \<Rightarrow> int \<Rightarrow> 'a world_scheme \<Rightarrow> nat \<times> 'a world_scheme" where
  "println_int n base w = println_of (print_int n base) w"

definition println_uint :: "u32 \<Rightarrow> int \<Rightarrow> 'a world_scheme \<Rightarrow> nat \<times> 'a world_scheme" where
  "println_uint n base w = println_of (print_uint n base) w"

definition println_long :: "u32 \<Rightarrow> int \<Rightarrow> 'a world_scheme \<Rightarrow> nat \<times> 'a world_scheme" where
  "println_long n base w = println_of (print_signed n base) w"

definition println_ulong :: "u32 \<Rightarrow> int \<Rightarrow> 'a world_scheme \<Rightarrow> nat \<times> 'a world_scheme" where
  "println_ulong n base w = println_of (print_ulong n base) w"

text \<open>
  \<open>printf\<close>, for the text that \<open>vsnprintf\<close> makes of the format: the count, how many bytes of the heap it
  took and did not give back, and the line.
\<close>

definition print_printf :: "string \<Rightarrow> 'a world_scheme \<Rightarrow> nat \<times> nat \<times> 'a world_scheme" where
  "print_printf formatted w =
     (let len = length formatted;
          taken = (if len \<ge> 64 then len + 1 else 0);
          (n, w) = write_buf formatted w;
          freed = (if len > 64 then taken else 0)
      in (len, taken - freed, w))"

section \<open>Looking ahead\<close>

definition stream_peek :: "'a world_scheme \<Rightarrow> char option" where
  "stream_peek w = (case w_in w of [] \<Rightarrow> None | (t, c) # rest \<Rightarrow> if t \<le> w_now w then Some c else None)"

function (sequential) timed_peek_loop ::
    "u32 \<Rightarrow> u32 \<Rightarrow> 'a world_scheme \<Rightarrow> char option \<times> 'a world_scheme" where
  "timed_peek_loop tmo start w =
     (case stream_peek w of
        Some c \<Rightarrow> (Some c, w)
      | None \<Rightarrow>
          if millis w - start < tmo
          then timed_peek_loop tmo start (idle_poll w)
          else (None, w))"
  by pat_completeness auto
termination
proof (relation "measure (\<lambda>(tmo, start, w). unat (tmo - (millis w - start)))", simp)
  fix tmo start and w :: "'a world_scheme"
  assume lt: "millis w - start < tmo"
  define e where "e = millis w - start"
  have step: "millis (idle_poll w) - start = e + 1" by (simp add: millis_def idle_poll_def e_def)
  have "unat (tmo - (e + 1)) < unat (tmo - e)" using lt unfolding e_def [symmetric] by unat_arith
  then show "((tmo, start, idle_poll w), tmo, start, w) \<in> measure (\<lambda>(tmo, start, w). unat (tmo - (millis w - start)))"
    unfolding in_measure prod.case step e_def [symmetric] .
qed

declare timed_peek_loop.simps [simp del]

definition timedPeek :: "u32 \<Rightarrow> 'a world_scheme \<Rightarrow> char option \<times> 'a world_scheme" where
  "timedPeek tmo w = timed_peek_loop tmo (millis w) w"

text \<open>\<open>timedPeek\<close> waits as \<open>timedRead\<close> does, and leaves the character on the line.\<close>

lemma timed_peek_loop_eq:
  "timed_peek_loop tmo start w =
     (case timed_read_loop tmo start w of (r, w') \<Rightarrow> (r, w'\<lparr>w_in := w_in w\<rparr>))"
proof (induction tmo start w rule: timed_peek_loop.induct)
  case (1 tmo start w)
  show ?case
  proof (cases "stream_peek w")
    case None
    then have "stream_read w = (None, w)" by (auto simp: stream_peek_def stream_read_def split: list.splits if_splits)
    then show ?thesis using 1 None
      by (subst timed_peek_loop.simps, subst timed_read_loop.simps) (auto simp: idle_poll_def split: prod.split)
  next
    case (Some c)
    then obtain t rest where "w_in w = (t, c) # rest" "t \<le> w_now w"
      by (auto simp: stream_peek_def split: list.splits if_splits)
    then show ?thesis using Some
      by (subst timed_peek_loop.simps, subst timed_read_loop.simps) (simp add: stream_read_def)
  qed
qed

lemma timedPeek_eq:
  "timedPeek tmo w =
    (case w_in w of
       [] \<Rightarrow> (None, w\<lparr>w_now := w_now w + unat tmo\<rparr>)
     | (t, c) # rest \<Rightarrow>
         if t \<le> w_now w + unat tmo then (Some c, w\<lparr>w_now := max t (w_now w)\<rparr>)
         else (None, w\<lparr>w_now := w_now w + unat tmo\<rparr>))"
proof -
  have "timedPeek tmo w = (case timedRead_for tmo w of (r, w') \<Rightarrow> (r, w'\<lparr>w_in := w_in w\<rparr>))"
    unfolding timedPeek_def timedRead_for_def by (rule timed_peek_loop_eq)
  then show ?thesis by (simp add: timedRead_for_eq split: list.split)
qed

section \<open>Reading a number\<close>

lemma timedPeek_ready: "timedPeek tmo w = (Some c, w') \<Longrightarrow> \<exists>t rest. w_in w = (t, c) # rest \<and> w_in w' = w_in w \<and> t \<le> w_now w'"
  by (auto simp: timedPeek_eq split: list.splits if_splits)

lemma stream_read_ready: "w_in w = (t, c) # rest \<Longrightarrow> t \<le> w_now w \<Longrightarrow> stream_read w = (Some c, w\<lparr>w_in := rest\<rparr>)"
  by (simp add: stream_read_def)

function (sequential) peekNextDigit :: "u32 \<Rightarrow> 'a world_scheme \<Rightarrow> char option \<times> 'a world_scheme" where
  "peekNextDigit tmo w =
     (case timedPeek tmo w of
        (None, w) \<Rightarrow> (None, w)
      | (Some c, w) \<Rightarrow>
          if c = CHR ''-'' then (Some c, w)
          else if c_isdigit c then (Some c, w)
          else peekNextDigit tmo (snd (stream_read w)))"
  by pat_completeness auto
termination
  by (relation "measure (\<lambda>(tmo, w). length (w_in w))")
    (auto dest!: sym [of _ "timedPeek _ _"] timedPeek_ready simp: stream_read_def)

declare peekNextDigit.simps [simp del]

text \<open>
  The loop of \<open>parseInt\<close> on the character that was looked at, the sign and the value, which is computed
  in 32 bits. It reads that character, and goes on with the next one if it is a digit or to be skipped.
\<close>

function (sequential) parse_int_loop ::
    "u32 \<Rightarrow> char \<Rightarrow> char \<Rightarrow> bool \<Rightarrow> u32 \<Rightarrow> 'a world_scheme \<Rightarrow> (bool \<times> u32) \<times> 'a world_scheme" where
  "parse_int_loop tmo skipChar c isNegative val w =
     (let (isNegative, val) =
            (if c = skipChar then (isNegative, val)
             else if c = CHR ''-'' then (True, val)
             else if c_isdigit c then (isNegative, val * 10 + of_nat (char_code c) - 48)
             else (isNegative, val));
          w = snd (stream_read w)
      in case timedPeek tmo w of
           (None, w) \<Rightarrow> ((isNegative, val), w)
         | (Some c, w) \<Rightarrow>
             if c_isdigit c \<or> c = skipChar
             then parse_int_loop tmo skipChar c isNegative val w
             else ((isNegative, val), w))"
  by pat_completeness auto
termination
  by (relation "measure (\<lambda>(tmo, sk, c, neg, v, w). 2 * length (w_in w) + (if stream_peek w = None then 1 else 0))")
    (auto dest!: sym [of _ "timedPeek _ _"] timedPeek_ready simp: stream_read_def stream_peek_def split: list.splits if_splits)

declare parse_int_loop.simps [simp del]

definition parseInt_skip :: "u32 \<Rightarrow> char \<Rightarrow> 'a world_scheme \<Rightarrow> u32 \<times> 'a world_scheme" where
  "parseInt_skip tmo skipChar w =
     (case peekNextDigit tmo w of
        (None, w) \<Rightarrow> (0, w)
      | (Some c, w) \<Rightarrow>
          (case parse_int_loop tmo skipChar c False 0 w of
             ((isNegative, val), w) \<Rightarrow> (if isNegative then - val else val, w)))"

definition parseInt :: "u32 \<Rightarrow> 'a world_scheme \<Rightarrow> u32 \<times> 'a world_scheme" where
  "parseInt tmo w = parseInt_skip tmo (CHR 0x01) w"

section \<open>Searching for a text\<close>

text \<open>
  The loop of \<open>findUntil\<close>: a byte that does not go on the match begins it again, and is then compared
  with the first one. A zero byte ends the search like the time limit.
\<close>

function (sequential) find_loop ::
    "u32 \<Rightarrow> string \<Rightarrow> nat \<Rightarrow> string \<Rightarrow> nat \<Rightarrow> nat \<Rightarrow> nat \<Rightarrow> 'a world_scheme \<Rightarrow> bool \<times> 'a world_scheme" where
  "find_loop tmo target targetLen trm termLen idx termIndex w =
     (case timedRead_for tmo w of
        (None, w) \<Rightarrow> (False, w)
      | (Some c, w) \<Rightarrow>
          if c = CHR 0x00 then (False, w)
          else
            (let idx = (if c \<noteq> str_at target idx then 0 else idx);
                 idx' = (if c = str_at target idx then idx + 1 else idx)
             in if c = str_at target idx \<and> idx' \<ge> targetLen then (True, w)
                else if termLen > 0 \<and> c = str_at trm termIndex
                then (if termIndex + 1 \<ge> termLen then (False, w)
                      else find_loop tmo target targetLen trm termLen idx' (termIndex + 1) w)
                else find_loop tmo target targetLen trm termLen idx' 0 w))"
  by pat_completeness auto
termination
  by (relation "measure (\<lambda>(tmo, tg, tl, tr, trl, i, j, w). length (w_in w))")
    (auto dest!: sym [of _ "timedRead_for _ _"] simp: timedRead_for_eq split: list.splits if_splits)

declare find_loop.simps [simp del]

definition findUntil_len ::
    "u32 \<Rightarrow> string \<Rightarrow> nat \<Rightarrow> string \<Rightarrow> nat \<Rightarrow> 'a world_scheme \<Rightarrow> bool \<times> 'a world_scheme" where
  "findUntil_len tmo target targetLen trm termLen w =
     (if str_at target 0 = CHR 0x00 then (True, w) else find_loop tmo target targetLen trm termLen 0 0 w)"

definition findUntil :: "u32 \<Rightarrow> string \<Rightarrow> string \<Rightarrow> 'a world_scheme \<Rightarrow> bool \<times> 'a world_scheme" where
  "findUntil tmo target trm w = findUntil_len tmo target (length (c_str target)) trm (length (c_str trm)) w"

definition stream_find :: "u32 \<Rightarrow> string \<Rightarrow> 'a world_scheme \<Rightarrow> bool \<times> 'a world_scheme" where
  "stream_find tmo target w = findUntil tmo target [] w"

definition stream_find_len :: "u32 \<Rightarrow> string \<Rightarrow> nat \<Rightarrow> 'a world_scheme \<Rightarrow> bool \<times> 'a world_scheme" where
  "stream_find_len tmo target targetLen w = findUntil_len tmo target targetLen [] 0 w"

section \<open>Numbers\<close>

lemma peek_incoming:
  assumes "incoming T (c # s) rest w" "T \<le> w_now w + unat tmo"
  obtains w1 where "timedPeek tmo w = (Some c, w1)" "stream_peek w1 = Some c" "incoming T (c # s) rest w1"
    "T \<le> w_now w1 + unat tmo"
proof -
  obtain t mid where t: "w_in w = (t, c) # mid" "t \<le> T" "incoming T s rest (w\<lparr>w_now := max t (w_now w), w_in := mid\<rparr>)"
    using assms(1) by (auto simp: incoming_Cons)
  let ?w = "w\<lparr>w_now := max t (w_now w)\<rparr>"
  have "timedPeek tmo w = (Some c, ?w)" using t assms(2) by (simp add: timedPeek_eq)
  moreover have "stream_peek ?w = Some c" using t by (simp add: stream_peek_def)
  moreover have "incoming T (c # s) rest ?w" using t by (auto simp: incoming_Cons)
  moreover have "T \<le> w_now ?w + unat tmo" using assms(2) by simp
  ultimately show ?thesis by (rule that)
qed

lemma read_incoming:
  assumes "incoming T (c # s) rest w" "stream_peek w = Some c"
  shows "incoming T s rest (snd (stream_read w))" "w_now (snd (stream_read w)) = w_now w"
  using assms by (auto simp: incoming_Cons stream_peek_def stream_read_def max_def split: if_splits)

text \<open>The characters before a number are skipped.\<close>

lemma peekNextDigit_incoming:
  assumes "incoming T (junk @ c # s) rest w" "T \<le> w_now w + unat tmo"
    and "list_all (\<lambda>c. \<not> c_isdigit c \<and> c \<noteq> CHR ''-'') junk" "c_isdigit c \<or> c = CHR ''-''"
  shows "\<exists>w1. peekNextDigit tmo w = (Some c, w1) \<and> stream_peek w1 = Some c \<and> incoming T (c # s) rest w1 \<and>
    T \<le> w_now w1 + unat tmo"
  using assms
proof (induction junk arbitrary: w)
  case Nil
  have "incoming T (c # s) rest w" using Nil.prems(1) by simp
  from peek_incoming [OF this Nil.prems(2)] obtain w1 where w1: "timedPeek tmo w = (Some c, w1)"
    "stream_peek w1 = Some c" "incoming T (c # s) rest w1" "T \<le> w_now w1 + unat tmo" by blast
  have "peekNextDigit tmo w = (Some c, w1)"
    using w1(1) Nil.prems(4) by (subst peekNextDigit.simps) auto
  then show ?case using w1 by blast
next
  case (Cons x junk)
  have "incoming T (x # junk @ c # s) rest w" using Cons.prems(1) by simp
  from peek_incoming [OF this Cons.prems(2)] obtain w1 where w1: "timedPeek tmo w = (Some x, w1)"
    "stream_peek w1 = Some x" "incoming T (x # junk @ c # s) rest w1" "T \<le> w_now w1 + unat tmo" by blast
  note rd = read_incoming [OF w1(3,2)]
  have "peekNextDigit tmo w = peekNextDigit tmo (snd (stream_read w1))"
    using w1(1) Cons.prems(3) by (subst peekNextDigit.simps) simp
  then show ?case using Cons.IH [OF rd(1)] rd(2) w1(4) Cons.prems(3,4) by simp
qed

lemma digit_step:
  assumes "c_isdigit c"
  shows "(of_nat v :: u32) * 10 + of_nat (char_code c) - 48 = of_nat (v * 10 + (char_code c - 48))"
    and "c_digit c = Some (char_code c - 48)" "char_code c - 48 < 10"
proof -
  obtain d where d: "char_code c = d + 48" "d < 10"
    using assms by (auto simp: c_isdigit_def intro: that [of "char_code c - 48"])
  then show "(of_nat v :: u32) * 10 + of_nat (char_code c) - 48 = of_nat (v * 10 + (char_code c - 48))" by simp
  show "c_digit c = Some (char_code c - 48)" "char_code c - 48 < 10"
    using assms by (auto simp: c_isdigit_def c_digit_def)
qed

lemma parse_int_loop_digits:
  assumes "incoming T (c # ds @ [stop]) rest w" "stream_peek w = Some c" "T \<le> w_now w + unat tmo"
    and "c_isdigit c" "list_all c_isdigit ds" "\<not> c_isdigit stop" "stop \<noteq> skipChar" "\<not> c_isdigit skipChar"
  shows "\<exists>w'. parse_int_loop tmo skipChar c neg (of_nat v) w = ((neg, of_nat (c_digits 10 v (c # ds))), w') \<and>
    incoming T [stop] rest w'"
  using assms
proof (induction ds arbitrary: c v w)
  case Nil
  have step: "c \<noteq> skipChar" "c \<noteq> CHR ''-''" using Nil.prems by (auto simp: c_isdigit_def char_code_def)
  have "incoming T (c # [stop]) rest w" using Nil.prems(1) by simp
  note rd = read_incoming [OF this Nil.prems(2)]
  obtain w1 where w1: "timedPeek tmo (snd (stream_read w)) = (Some stop, w1)" "incoming T [stop] rest w1"
    using peek_incoming [OF rd(1)] rd(2) Nil.prems(3) by metis
  show ?case using w1 step Nil.prems(4,6,7) digit_step [OF Nil.prems(4)]
    by (subst parse_int_loop.simps) simp
next
  case (Cons d ds)
  have step: "c \<noteq> skipChar" "c \<noteq> CHR ''-''" using Cons.prems by (auto simp: c_isdigit_def char_code_def)
  have "incoming T (c # (d # ds @ [stop])) rest w" using Cons.prems(1) by simp
  note rd = read_incoming [OF this Cons.prems(2)]
  obtain w1 where w1: "timedPeek tmo (snd (stream_read w)) = (Some d, w1)" "stream_peek w1 = Some d"
    "incoming T (d # ds @ [stop]) rest w1" "T \<le> w_now w1 + unat tmo"
    using peek_incoming [OF rd(1)] rd(2) Cons.prems(3) by metis
  have d: "c_isdigit d" "list_all c_isdigit ds" using Cons.prems(5) by simp_all
  let ?v = "v * 10 + (char_code c - 48)"
  have "parse_int_loop tmo skipChar c neg (of_nat v) w = parse_int_loop tmo skipChar d neg (of_nat ?v) w1"
    using w1(1) step d Cons.prems(4) by (subst parse_int_loop.simps) (simp add: digit_step(1) del: of_nat_add of_nat_mult)
  then show ?case
    using Cons.IH [OF w1(3,2,4) d Cons.prems(6-8), of ?v] digit_step [OF Cons.prems(4)] by simp
qed

lemma parse_int_loop_sign:
  assumes "incoming T (CHR ''-'' # d # ds @ [stop]) rest w" "stream_peek w = Some CHR ''-''" "T \<le> w_now w + unat tmo"
    and "c_isdigit d" "list_all c_isdigit ds" "\<not> c_isdigit stop" "stop \<noteq> skipChar" "\<not> c_isdigit skipChar"
    and "skipChar \<noteq> CHR ''-''"
  shows "\<exists>w'. parse_int_loop tmo skipChar CHR ''-'' neg 0 w = ((True, of_nat (c_digits 10 0 (d # ds))), w') \<and>
    incoming T [stop] rest w'"
proof -
  note rd = read_incoming [OF assms(1,2)]
  obtain w1 where w1: "timedPeek tmo (snd (stream_read w)) = (Some d, w1)" "stream_peek w1 = Some d"
    "incoming T (d # ds @ [stop]) rest w1" "T \<le> w_now w1 + unat tmo"
    using peek_incoming [OF rd(1)] rd(2) assms(3) by metis
  have "parse_int_loop tmo skipChar CHR ''-'' neg 0 w = parse_int_loop tmo skipChar d True (of_nat 0) w1"
    using w1(1) assms(4,9) by (subst parse_int_loop.simps) simp
  then show ?thesis using parse_int_loop_digits [OF w1(3,2,4) assms(4-8), of True 0] by simp
qed

text \<open>What \<open>print\<close> writes for a \<open>long\<close>.\<close>

definition long_text :: "u32 \<Rightarrow> string" where
  "long_text n = (if sint n < 0 then CHR ''-'' # print_number (unat (- n)) 10 else print_number (unat n) 10)"

lemma print_number_cstr: "c_str (print_number n 10) = print_number n 10"
  by (intro c_str_id) simp

lemma print_signed_text: "print_signed n 10 w = (length (long_text n), stream_print (long_text n) w)"
  by (simp add: print_signed_def printNumber_def print_char_def write_byte_def write_cstr_def write_buf_def
      print_number_cstr long_text_def stream_print_def Let_def)

lemma long_text_digits:
  obtains neg d ds where "long_text n = (if neg then ''-'' else []) @ d # ds" "c_isdigit d" "list_all c_isdigit ds"
    "n = (if neg then - of_nat (c_digits 10 0 (d # ds)) else of_nat (c_digits 10 0 (d # ds)))"
proof -
  define neg where "neg = (sint n < 0)"
  define m where "m = unat (if neg then - n else n)"
  obtain d ds where d: "print_number m 10 = d # ds" using print_number_nonempty by (cases "print_number m 10") auto
  then have "c_isdigit d" "list_all c_isdigit ds" "c_digits 10 0 (d # ds) = m"
    using print_number_digits [of m] print_digits_value [of m] by (simp_all add: print_number_def)
  moreover have "long_text n = (if neg then ''-'' else []) @ d # ds"
    using d by (simp add: long_text_def neg_def m_def split: if_splits)
  moreover have "n = (if neg then - of_nat m else of_nat m)" by (simp add: m_def)
  ultimately show ?thesis using that by simp
qed

text \<open>C37: \<open>parseInt\<close> takes back every \<open>long\<close> that \<open>print\<close> writes, the least one too: it skips what comes before,
  stops at the first character behind the number and leaves that on the line.\<close>

theorem parseInt_reads_print:
  assumes "snd (print_signed n 10 w0) = stream_print str w0"
    and "incoming T (junk @ str @ [stop]) rest w" "T \<le> w_now w + unat tmo"
    and "list_all (\<lambda>c. \<not> c_isdigit c \<and> c \<noteq> CHR ''-'') junk" "\<not> c_isdigit stop" "stop \<noteq> CHR 0x01"
  shows "\<exists>w'. parseInt tmo w = (n, w') \<and> incoming T [stop] rest w'"
proof -
  have str: "str = long_text n" using arg_cong [OF assms(1), of w_out] by (simp add: print_signed_text stream_print_def)
  obtain neg d ds where l: "long_text n = (if neg then ''-'' else []) @ d # ds" "c_isdigit d" "list_all c_isdigit ds"
    and n: "n = (if neg then - of_nat (c_digits 10 0 (d # ds)) else of_nat (c_digits 10 0 (d # ds)))"
    by (rule long_text_digits)
  have sk: "\<not> c_isdigit CHR 0x01" "CHR 0x01 \<noteq> CHR ''-''" by (simp_all add: c_isdigit_def char_code_def)
  show ?thesis
  proof (cases neg)
    case True
    then have "incoming T (junk @ CHR ''-'' # d # ds @ [stop]) rest w" using assms(2) l(1) str by simp
    from peekNextDigit_incoming [OF this assms(3,4)] obtain w1 where w1: "peekNextDigit tmo w = (Some CHR ''-'', w1)"
      "stream_peek w1 = Some CHR ''-''" "incoming T (CHR ''-'' # d # ds @ [stop]) rest w1" "T \<le> w_now w1 + unat tmo"
      by blast
    show ?thesis using parse_int_loop_sign [OF w1(3,2,4) l(2,3) assms(5,6) sk, of False] w1(1) n True
      by (auto simp: parseInt_def parseInt_skip_def)
  next
    case False
    then have "incoming T (junk @ d # ds @ [stop]) rest w" using assms(2) l(1) str by simp
    from peekNextDigit_incoming [OF this assms(3,4)] l(2) obtain w1 where w1: "peekNextDigit tmo w = (Some d, w1)"
      "stream_peek w1 = Some d" "incoming T (d # ds @ [stop]) rest w1" "T \<le> w_now w1 + unat tmo"
      by blast
    show ?thesis using parse_int_loop_digits [OF w1(3,2,4) l(2,3) assms(5,6) sk(1), of False 0] w1(1) n False
      by (auto simp: parseInt_def parseInt_skip_def)
  qed
qed

theorem parseInt_reads_print_witness:
  "\<exists>w'. parseInt 1000 \<lparr>w_now = 5, w_in = map (Pair 7) ''T=-12,'', w_out = []\<rparr> = (- 12, w') \<and> map snd (w_in w') = '',''"
proof -
  let ?w = "\<lparr>w_now = 5, w_in = map (Pair 7) ''T=-12,'', w_out = []\<rparr> :: world"
  have n: "print_number 12 10 = ''12''" by code_simp
  have "snd (print_signed (- 12) 10 ?w) = stream_print ''-12'' ?w"
    by (simp add: print_signed_text long_text_def n)
  moreover have "incoming 7 (''T='' @ ''-12'' @ '','') [] ?w" by (simp add: incoming_Cons incoming_Nil)
  ultimately have "\<exists>w'. parseInt 1000 ?w = (- 12, w') \<and> incoming 7 '','' [] w'"
    by (rule parseInt_reads_print) (simp_all add: c_isdigit_def char_code_def)
  then show ?thesis by (auto simp: incoming_Cons incoming_Nil)
qed

section \<open>Finding a text\<close>

lemma find_loop_step:
  assumes "timedRead_for tmo w = (Some c, w1)" "c \<noteq> CHR 0x00"
    and "i = (if c \<noteq> str_at target idx then 0 else idx)" "j = (if c = str_at target i then i + 1 else i)"
  shows "find_loop tmo target n trm termLen idx tj w =
    (if c = str_at target i \<and> j \<ge> n then (True, w1)
     else if termLen > 0 \<and> c = str_at trm tj
     then (if tj + 1 \<ge> termLen then (False, w1) else find_loop tmo target n trm termLen j (tj + 1) w1)
     else find_loop tmo target n trm termLen j 0 w1)"
  using assms(1,2) unfolding assms(3,4) by (subst find_loop.simps) (simp add: Let_def)

lemma find_loop_None: "timedRead_for tmo w = (None, w1) \<Longrightarrow> find_loop tmo target n trm termLen idx tj w = (False, w1)"
  by (subst find_loop.simps) simp

lemma find_loop_zero: "timedRead_for tmo w = (Some CHR 0x00, w1) \<Longrightarrow> find_loop tmo target n trm termLen idx tj w = (False, w1)"
  by (subst find_loop.simps) simp

text \<open>What was read ends with the part of the text that is matched so far.\<close>

lemma find_loop_sound:
  assumes "find_loop tmo target (length target) trm termLen idx tj w = (True, w')" "idx < length target"
  shows "\<exists>mid pre. map snd (w_in w) = mid @ map snd (w_in w') \<and> take idx target @ mid = pre @ target"
  using assms
proof (induction "length (w_in w)" arbitrary: idx tj w rule: less_induct)
  case less
  obtain r w1 where rd: "timedRead_for tmo w = (r, w1)" by fastforce
  with less.prems(1) obtain c where c: "r = Some c" "c \<noteq> CHR 0x00"
    by (cases r; cases "the r = CHR 0x00") (simp_all add: find_loop_None find_loop_zero)
  then have w: "map snd (w_in w) = c # map snd (w_in w1)" "length (w_in w1) < length (w_in w)"
    using rd by (auto simp: timedRead_for_eq split: list.splits if_splits)
  define i where "i = (if c \<noteq> str_at target idx then 0 else idx)"
  define j where "j = (if c = str_at target i then i + 1 else i)"
  have i: "i < length target" "str_at target i = target ! i" using less.prems(2) by (auto simp: i_def str_at_def)
  have pre: "\<exists>p. take idx target @ [c] = p @ take j target"
  proof (cases "c = target ! i")
    case True
    then have "take j target = take i target @ [c]" using i by (simp add: j_def take_Suc_conv_app_nth)
    then show ?thesis by (cases "i = idx") (auto simp: i_def)
  qed (use i in \<open>auto simp: j_def i_def str_at_def split: if_splits\<close>)
  note step = find_loop_step [OF rd [unfolded c(1)] c(2) i_def j_def, of "length target" trm termLen tj]
  show ?case
  proof (cases "c = str_at target i \<and> j \<ge> length target")
    case True
    then have e: "w' = w1" "take j target = target" using less.prems(1) unfolding step by simp_all
    obtain p where "take idx target @ [c] = p @ target" using pre e(2) by auto
    then show ?thesis using w(1) e(1) by (intro exI [of _ "[c]"] exI [of _ p]) simp
  next
    case False
    then have jl: "j < length target" using i by (auto simp: j_def)
    obtain tj' where "find_loop tmo target (length target) trm termLen j tj' w1 = (True, w')"
      using less.prems(1) False unfolding step by (auto split: if_splits)
    from less.hyps [OF w(2) this jl] obtain mid p where "map snd (w_in w1) = mid @ map snd (w_in w')"
      "take j target @ mid = p @ target" by blast
    moreover obtain p' where "take idx target @ [c] = p' @ take j target" using pre by blast
    then have "take idx target @ c # mid = p' @ take j target @ mid" by (metis append.assoc append_Cons append_Nil)
    ultimately show ?thesis using w(1) by (metis append.assoc append_Cons)
  qed
qed

text \<open>
  When its first character comes only once in the text, nothing is lost by a new beginning: a place of the text that is
  still to come does not reach into what was matched so far.
\<close>

lemma unique_head_shift:
  assumes "target = x # xs" "x \<notin> set xs" "idx < length target" and y: "take idx target @ c # s = pre @ target"
    and ne: "c \<noteq> target ! idx"
  shows "idx \<le> length pre" and "c # s = drop idx pre @ target"
    and "c \<noteq> x \<Longrightarrow> idx < length pre \<and> s = drop (Suc idx) pre @ target"
proof -
  have at: "(take idx target @ c # s) ! k = target ! k" if "k < idx" for k using that assms(3) by (simp add: nth_append)
  have at_idx: "(take idx target @ c # s) ! idx = c" using assms(3) by (simp add: nth_append)
  have "\<not> length pre < idx"
  proof
    assume lt: "length pre < idx"
    show False
    proof (cases "length pre")
      case 0
      then show False using at_idx ne unfolding y by simp
    next
      case (Suc k)
      then have "target ! length pre = xs ! k" "k < length xs" using lt assms(1,3) by simp_all
      moreover have "target ! length pre = x" using at [OF lt] assms(1) unfolding y by simp
      ultimately show False using assms(2) by (metis nth_mem)
    qed
  qed
  then show le: "idx \<le> length pre" by simp
  then show dr: "c # s = drop idx pre @ target" using arg_cong [OF y, of "drop idx"] assms(3) by simp
  assume "c \<noteq> x"
  then have "drop idx pre \<noteq> []" using dr assms(1) by auto
  then have "idx < length pre" by simp
  moreover from this have "s = drop (Suc idx) pre @ target" using dr by (simp add: Cons_nth_drop_Suc [symmetric])
  ultimately show "idx < length pre \<and> s = drop (Suc idx) pre @ target" by simp
qed

text \<open>No earlier place in a rest of what comes.\<close>

lemma first_place_drop:
  assumes "\<forall>q < length pre. take n (drop q (pre @ target)) \<noteq> target" "k \<le> length pre"
  shows "\<forall>q < length (drop k pre). take n (drop q (drop k pre @ target)) \<noteq> target"
proof (intro allI impI)
  fix q assume "q < length (drop k pre)"
  then have "drop q (drop k pre @ target) = drop (q + k) (pre @ target)" "q + k < length pre" using assms(2) by simp_all
  then show "take n (drop q (drop k pre @ target)) \<noteq> target" using assms(1) by metis
qed

text \<open>So the first place where the text stands is found.\<close>

lemma find_loop_complete:
  assumes "incoming T s rest w" "T \<le> w_now w + unat tmo" "CHR 0x00 \<notin> set s"
    and "target = x # xs" "x \<notin> set xs" "idx < length target" "take idx target @ s = pre @ target"
    and "\<forall>q < length pre. take (length target) (drop q (pre @ target)) \<noteq> target"
  shows "\<exists>w'. find_loop tmo target (length target) trm 0 idx 0 w = (True, w') \<and> after T rest w w'"
  using assms
proof (induction s arbitrary: w idx pre)
  case Nil
  have "length (take idx target) < length target" using Nil.prems(6) by simp
  moreover have "length (take idx target) = length pre + length target" using arg_cong [OF Nil.prems(7), of length] by (simp only: append_Nil2 length_append)
  ultimately show ?case by simp
next
  case (Cons c s)
  obtain t mid where t: "w_in w = (t, c) # mid" "t \<le> T" and inc: "incoming T s rest (w\<lparr>w_now := max t (w_now w), w_in := mid\<rparr>)"
    using Cons.prems(1) by (auto simp: incoming_Cons)
  let ?w = "w\<lparr>w_now := max t (w_now w), w_in := mid\<rparr>"
  have rd: "timedRead_for tmo w = (Some c, ?w)" using t Cons.prems(2) by (simp add: timedRead_for_eq)
  have c0: "c \<noteq> CHR 0x00" and s0: "CHR 0x00 \<notin> set s" using Cons.prems(3) by auto
  have tm: "T \<le> w_now ?w + unat tmo" using Cons.prems(2) by simp
  define i where "i = (if c \<noteq> str_at target idx then 0 else idx)"
  define j where "j = (if c = str_at target i then i + 1 else i)"
  note step = find_loop_step [OF rd c0 i_def j_def, of "length target" trm 0 0]
  have i: "i < length target" "str_at target i = target ! i" "str_at target idx = target ! idx"
    using Cons.prems(4,6) by (auto simp: i_def str_at_def)
  let ?y = "take idx target @ c # s"
  have y: "?y = pre @ target" by (rule Cons.prems(7))
  have later: "\<exists>k. take j target @ s = drop k pre @ target \<and> k \<le> length pre \<and> \<not> j \<ge> length target" if ne: "c \<noteq> target ! idx"
  proof -
    note sh = unique_head_shift [OF Cons.prems(4-7) ne]
    show ?thesis
    proof (cases "c = x")
      case True
      then have "idx \<noteq> 0" using ne Cons.prems(4) by (cases idx) auto
      moreover have "i = 0" "j = 1" using True ne i(3) Cons.prems(4) by (auto simp: i_def j_def str_at_def)
      ultimately show ?thesis using sh(1,2) True Cons.prems(4,6) by (intro exI [of _ idx]) auto
    next
      case False
      moreover from this have "j = 0" using ne i(3) Cons.prems(4) by (auto simp: i_def j_def str_at_def)
      ultimately show ?thesis using sh(3) Cons.prems(4) by (intro exI [of _ "Suc idx"]) auto
    qed
  qed
  have rec: "\<exists>w'. find_loop tmo target (length target) trm 0 j 0 ?w = (True, w') \<and> after T rest w w'"
    if "take j target @ s = drop k pre @ target" "k \<le> length pre" "j < length target" for k
  proof -
    note fp = first_place_drop [OF Cons.prems(8) that(2)]
    from Cons.IH [OF inc tm s0 Cons.prems(4,5) that(3,1) fp] after_step show ?thesis by fastforce
  qed
  show ?case
  proof (cases "c = target ! idx")
    case True
    then have ij: "i = idx" "j = Suc idx" using i by (simp_all add: i_def j_def)
    have tj: "take j target @ s = pre @ target" using y True Cons.prems(6) ij by (simp add: take_Suc_conv_app_nth)
    show ?thesis
    proof (cases "j \<ge> length target")
      case all: True
      then have "take (length target) (drop 0 (pre @ target)) = target" using tj by (metis append_eq_conv_conj append_take_drop_id drop0 take_all)
      then have "pre = []" using Cons.prems(8) by blast
      then have "s = []" using tj all by simp
      then have "after T rest w ?w" using inc by (auto simp: incoming_Nil)
      then show ?thesis using step True ij all i by simp
    next
      case False
      then show ?thesis using rec [of 0] tj step by simp
    qed
  next
    case False
    then show ?thesis using later [OF False] rec step by auto
  qed
qed

lemma stream_find_loop:
  assumes "target \<noteq> []" "CHR 0x00 \<notin> set target"
  shows "stream_find tmo target w = find_loop tmo target (length target) [] 0 0 0 w"
proof -
  have "str_at target 0 \<noteq> CHR 0x00" using assms by (cases target) (auto simp: str_at_def)
  moreover have "c_str target = target" "c_str [] = []" using assms(2) by (simp_all add: c_str_id)
  ultimately show ?thesis by (simp add: stream_find_def findUntil_def findUntil_len_def)
qed

lemma find_misses:
  "w_in w = map (Pair (w_now w)) ''aaab'' \<Longrightarrow> \<not> fst (stream_find tmo ''aab'' w)"
  by (simp add: stream_find_loop, (subst find_loop.simps, simp add: timedRead_for_eq str_at_def)+)

text \<open>C38: \<open>find\<close> says that a text came only if it did, and then has read up to its end; it finds the first place
  of every text whose first character does not come again in it; it misses others, because a byte that breaks
  a match is compared with the first character only.\<close>

theorem find_text:
  assumes "target \<noteq> []" "CHR 0x00 \<notin> set target"
  shows "(stream_find tmo target w = (True, w') \<longrightarrow> (\<exists>pre. map snd (w_in w) = pre @ target @ map snd (w_in w'))) \<and>
    (incoming T (pre @ target) rest w \<and> T \<le> w_now w + unat tmo \<and> CHR 0x00 \<notin> set pre \<and> hd target \<notin> set (tl target) \<and>
      (\<forall>q < length pre. take (length target) (drop q (pre @ target)) \<noteq> target) \<longrightarrow>
      (\<exists>w'. stream_find tmo target w = (True, w') \<and> after T rest w w')) \<and>
    (w_in v = map (Pair (w_now v)) ''aaab'' \<longrightarrow> \<not> fst (stream_find tmo ''aab'' v))"
proof (intro conjI impI; (elim conjE)?)
  note f = stream_find_loop [OF assms, of tmo w]
  show "\<exists>pre. map snd (w_in w) = pre @ target @ map snd (w_in w')" if "stream_find tmo target w = (True, w')"
    using find_loop_sound [of tmo target "[]" 0 0 0 w w'] assms(1) that unfolding f by auto
  show "\<exists>w'. stream_find tmo target w = (True, w') \<and> after T rest w w'"
    if "incoming T (pre @ target) rest w" "T \<le> w_now w + unat tmo" "CHR 0x00 \<notin> set pre" "hd target \<notin> set (tl target)"
      "\<forall>q < length pre. take (length target) (drop q (pre @ target)) \<noteq> target"
    unfolding f
  proof (rule find_loop_complete [OF that(1,2)])
    show "CHR 0x00 \<notin> set (pre @ target)" using that(3) assms(2) by simp
    show "target = hd target # tl target" using assms(1) by simp
    show "\<forall>q < length pre. take (length target) (drop q (pre @ target)) \<noteq> target" by (rule that(5))
  qed (use that(4) assms(1) in simp_all)
qed (rule find_misses)

theorem find_text_witness:
  "\<exists>w'. stream_find 1000 ''OK'' \<lparr>w_now = 5, w_in = map (Pair 7) ''AT:OK,'', w_out = []\<rparr> = (True, w') \<and> map snd (w_in w') = '',''"
proof -
  let ?w = "\<lparr>w_now = 5, w_in = map (Pair 7) ''AT:OK,'', w_out = []\<rparr> :: world"
  have "incoming 7 (''AT:'' @ ''OK'') [(7, CHR '','')] ?w" by (simp add: incoming_Cons incoming_Nil)
  moreover have "\<forall>q < length ''AT:''. take (length ''OK'') (drop q (''AT:'' @ ''OK'')) \<noteq> ''OK''" by code_simp
  ultimately have "\<exists>w'. stream_find 1000 ''OK'' ?w = (True, w') \<and> after 7 [(7, CHR '','')] ?w w'"
    using find_text [of "''OK''" 1000 ?w _ 7 "''AT:''" "[(7, CHR '','')]" ?w] by (simp add: after_in)
  then show ?thesis by (auto simp: after_def)
qed

end
