(* ===== verification/IpAddress.thy ===== *)
theory IpAddress
  imports GsmCommon StreamOps
begin

text \<open>
  The class \<open>IPAddress\<close> of the Arduino core (\<open>src/components/arduino/cores/esp32/IPAddress.cpp\<close>,
  \<open>IPAddress.h\<close>): four octets that are also read as one word, printing, and the parser \<open>fromString\<close>,
  which writes the octets into the object while it reads. The parser of the driver
  (\<open>TinyGsmIpFromString\<close> in \<open>GsmCommon\<close>) is compared with it.
\<close>

section \<open>State and operations\<close>

text \<open>The octets of the union, in the order of the memory; the word has the first one lowest.\<close>

record ipaddr =
  ip_bytes :: "u8 list"

definition ip_ok :: "ipaddr \<Rightarrow> bool" where
  "ip_ok ip \<longleftrightarrow> length (ip_bytes ip) = 4"

definition word_octets :: "u32 \<Rightarrow> u8 list" where
  "word_octets x = map (\<lambda>i. ucast (drop_bit (8 * i) x)) [0, 1, 2, 3]"

definition octets_word :: "u8 list \<Rightarrow> u32" where
  "octets_word bs =
     ucast (bs ! 0) + push_bit 8 (ucast (bs ! 1)) + push_bit 16 (ucast (bs ! 2)) + push_bit 24 (ucast (bs ! 3))"

definition IPAddress :: ipaddr where
  "IPAddress = \<lparr>ip_bytes = word_octets 0\<rparr>"

definition IPAddress_octets :: "u8 \<Rightarrow> u8 \<Rightarrow> u8 \<Rightarrow> u8 \<Rightarrow> ipaddr" where
  "IPAddress_octets first_octet second_octet third_octet fourth_octet =
     \<lparr>ip_bytes = [first_octet, second_octet, third_octet, fourth_octet]\<rparr>"

definition IPAddress_word :: "u32 \<Rightarrow> ipaddr" where
  "IPAddress_word address = \<lparr>ip_bytes = word_octets address\<rparr>"

text \<open>A pointer to fewer than four bytes is read behind its end.\<close>

definition IPAddress_ptr :: "u8 list \<Rightarrow> ipaddr option" where
  "IPAddress_ptr address = (if length address < 4 then None else Some \<lparr>ip_bytes = take 4 address\<rparr>)"

definition ip_assign_ptr :: "ipaddr \<Rightarrow> u8 list \<Rightarrow> ipaddr option" where
  "ip_assign_ptr ip address = (if length address < 4 then None else Some (ip\<lparr>ip_bytes := take 4 address\<rparr>))"

definition ip_assign_word :: "ipaddr \<Rightarrow> u32 \<Rightarrow> ipaddr" where
  "ip_assign_word ip address = ip\<lparr>ip_bytes := word_octets address\<rparr>"

definition ip_word :: "ipaddr \<Rightarrow> u32" where
  "ip_word ip = octets_word (ip_bytes ip)"

definition ip_eq :: "ipaddr \<Rightarrow> ipaddr \<Rightarrow> bool" where
  "ip_eq a b \<longleftrightarrow> ip_word a = ip_word b"

definition ip_eq_ptr :: "ipaddr \<Rightarrow> u8 list \<Rightarrow> bool option" where
  "ip_eq_ptr ip addr = (if length addr < 4 then None else Some (take 4 addr = ip_bytes ip))"

definition ip_at :: "ipaddr \<Rightarrow> nat \<Rightarrow> u8 option" where
  "ip_at ip i = (if i < 4 then Some (ip_bytes ip ! i) else None)"

definition ip_put :: "ipaddr \<Rightarrow> nat \<Rightarrow> u8 \<Rightarrow> ipaddr option" where
  "ip_put ip i b = (if i < 4 then Some (ip\<lparr>ip_bytes := (ip_bytes ip)[i := b]\<rparr>) else None)"

text \<open>The loop of \<open>printTo\<close>, on the octets before the last one.\<close>

fun print_octets :: "u8 list \<Rightarrow> 'a world_scheme \<Rightarrow> nat \<times> 'a world_scheme" where
  "print_octets [] w = (0, w)"
| "print_octets (b # bs) w =
     (let (n, w) = print_uchar b 10 w;
          (k, w) = print_char (CHR ''.'') w;
          (m, w) = print_octets bs w
      in (n + k + m, w))"

definition printTo :: "ipaddr \<Rightarrow> 'a world_scheme \<Rightarrow> nat \<times> 'a world_scheme" where
  "printTo ip w =
     (let (n, w) = print_octets (take 3 (ip_bytes ip)) w;
          (m, w) = print_uchar (ip_bytes ip ! 3) 10 w
      in (n + m, w))"

text \<open>\<open>sprintf\<close> with \<open>%u\<close> of each octet, into 16 bytes: \<open>None\<close> if it writes behind them.\<close>

definition ip_toString :: "ipaddr \<Rightarrow> string option" where
  "ip_toString ip =
     (let s = join_with (CHR ''.'') (map (\<lambda>b. ultoa (unat b) 10) (ip_bytes ip))
      in if length s + 1 \<le> 16 then Some s else None)"

text \<open>The loop of \<open>fromString\<close>: the accumulator has 16 bits; the octets are written as they are complete.\<close>

fun from_string_loop :: "string \<Rightarrow> u16 \<Rightarrow> nat \<Rightarrow> ipaddr \<Rightarrow> bool \<times> ipaddr" where
  "from_string_loop [] acc dots ip =
     (if dots \<noteq> 3 then (False, ip) else (True, ip\<lparr>ip_bytes := (ip_bytes ip)[3 := ucast acc]\<rparr>))"
| "from_string_loop (c # cs) acc dots ip =
     (if c_isdigit c then
        (let acc = acc * 10 + of_nat (char_code c - 48)
         in if acc > 255 then (False, ip) else from_string_loop cs acc dots ip)
      else if c = CHR ''.'' then
        (if dots = 3 then (False, ip)
         else from_string_loop cs 0 (dots + 1) (ip\<lparr>ip_bytes := (ip_bytes ip)[dots := ucast acc]\<rparr>))
      else (False, ip))"

definition ip_fromString :: "ipaddr \<Rightarrow> string \<Rightarrow> bool \<times> ipaddr" where
  "ip_fromString ip address = from_string_loop (c_str address) 0 0 ip"

section \<open>What the parser accepts\<close>

text \<open>A field: digits, or nothing, with a value of at most 255.\<close>

definition octet_field :: "string \<Rightarrow> bool" where
  "octet_field f \<longleftrightarrow> list_all c_isdigit f \<and> c_digits 10 0 f \<le> 255"

definition field_octet :: "string \<Rightarrow> u8" where
  "field_octet f = of_nat (c_digits 10 0 f)"

text \<open>The same parser on the fields between the dots.\<close>

fun store_fields :: "nat \<Rightarrow> string list \<Rightarrow> u8 list \<Rightarrow> bool \<times> u8 list" where
  "store_fields i [] bs = (False, bs)"
| "store_fields i [f] bs = (if octet_field f \<and> i = 3 then (True, bs[3 := field_octet f]) else (False, bs))"
| "store_fields i (f # g # fs) bs =
     (if octet_field f \<and> i < 3 then store_fields (i + 1) (g # fs) (bs[i := field_octet f]) else (False, bs))"

lemma digits_mono: "v \<le> c_digits 10 v s"
proof (induction s arbitrary: v)
  case (Cons c s)
  show ?case by (auto split: option.split intro: order_trans [OF _ Cons.IH])
qed simp

lemma digits_snoc:
  "list_all c_isdigit p \<Longrightarrow> c_isdigit c \<Longrightarrow> c_digits 10 v (p @ [c]) = c_digits 10 v p * 10 + (char_code c - 48)"
proof (induction p arbitrary: v)
  case (Cons x p)
  then show ?case using digit_step(2,3) [of x] by simp
qed (use digit_step(2,3) [of c] in simp)

lemma octet_field_prefix: "octet_field (p @ s) \<Longrightarrow> octet_field p"
proof -
  assume o: "octet_field (p @ s)"
  have dig: "list_all c_isdigit p" using o by (simp add: octet_field_def)
  then have "list_all (\<lambda>c. \<exists>d. c_digit c = Some d \<and> d < 10) p" using digit_step(2,3) by (auto simp: list_all_iff)
  from c_digits_app [OF this, of 0 s] have "c_digits 10 0 p \<le> c_digits 10 0 (p @ s)" using digits_mono by simp
  then show ?thesis using o dig by (simp add: octet_field_def)
qed

lemma ucast_octet: "n \<le> 255 \<Longrightarrow> ucast (of_nat n :: u16) = (of_nat n :: u8)"
  by (simp add: unsigned_of_nat take_bit_eq_mod)

lemma store_fields_bad:
  assumes "\<not> octet_field p" "d \<notin> set p"
  shows "store_fields i (split_at d (p @ s)) bs = (False, bs)"
proof -
  have "\<exists>t fs. split_at d (p @ s) = (p @ t) # fs" using assms(2)
  proof (induction p)
    case Nil
    then show ?case using split_at_nonempty [of d s] by (cases "split_at d s") auto
  qed auto
  then obtain t fs where "split_at d (p @ s) = (p @ t) # fs" by blast
  moreover have "\<not> octet_field (p @ t)" using assms(1) octet_field_prefix by blast
  ultimately show ?thesis by (cases fs) simp_all
qed

text \<open>The loop, after the digits \<open>p\<close> of a field.\<close>

lemma from_string_loop_fields:
  assumes "octet_field p" "i \<le> 3"
  shows "from_string_loop s (of_nat (c_digits 10 0 p)) i \<lparr>ip_bytes = bs\<rparr> =
    map_prod id ipaddr.make (store_fields i (split_at (CHR ''.'') (p @ s)) bs)"
  using assms
proof (induction s arbitrary: p i bs)
  case Nil
  have "CHR ''.'' \<notin> set p" using Nil.prems by (auto simp: octet_field_def list_all_iff c_isdigit_def char_code_def)
  moreover have "ucast (of_nat (c_digits 10 0 p) :: u16) = (field_octet p)" using Nil.prems by (simp add: ucast_octet octet_field_def field_octet_def)
  ultimately show ?case using Nil.prems by (simp add: split_at_field ipaddr.make_def)
next
  case (Cons c s)
  have p: "list_all c_isdigit p" "c_digits 10 0 p \<le> 255" "CHR ''.'' \<notin> set p"
    using Cons.prems by (auto simp: octet_field_def list_all_iff c_isdigit_def char_code_def)
  consider (digit) "c_isdigit c" | (dot) "c = CHR ''.''" | (other) "\<not> c_isdigit c" "c \<noteq> CHR ''.''" by blast
  then show ?case
  proof cases
    case digit
    let ?n = "c_digits 10 0 p * 10 + (char_code c - 48)"
    have v: "c_digits 10 0 (p @ [c]) = ?n" using digits_snoc [OF p(1) digit] by simp
    have n: "?n < 65536" using p(2) digit_step(3) [OF digit] by simp
    then have "(of_nat ?n :: u16) > 255 \<longleftrightarrow> ?n > 255"
      by (simp add: word_less_nat_alt unat_of_nat del: of_nat_add of_nat_mult)
    then have step: "from_string_loop (c # s) (of_nat (c_digits 10 0 p)) i \<lparr>ip_bytes = bs\<rparr> =
        (if ?n > 255 then (False, \<lparr>ip_bytes = bs\<rparr>) else from_string_loop s (of_nat ?n) i \<lparr>ip_bytes = bs\<rparr>)"
      using digit by (simp add: Let_def)
    show ?thesis
    proof (cases "?n > 255")
      case True
      then have "\<not> octet_field (p @ [c])" using v by (simp add: octet_field_def)
      moreover have "CHR ''.'' \<notin> set (p @ [c])" using p digit by (auto simp: c_isdigit_def char_code_def)
      ultimately show ?thesis using store_fields_bad [of "p @ [c]" "CHR ''.''" i s bs] step True by (simp add: ipaddr.make_def)
    next
      case False
      then have "octet_field (p @ [c])" using v p digit by (simp add: octet_field_def)
      from Cons.IH [OF this Cons.prems(2), of bs] show ?thesis using step False v by simp
    qed
  next
    case dot
    have sp: "split_at (CHR ''.'') (p @ c # s) = p # split_at (CHR ''.'') s" using p(3) dot by (simp add: split_at_append)
    obtain f fs where f: "split_at (CHR ''.'') s = f # fs" using split_at_nonempty [of "CHR ''.''" s] by (cases "split_at (CHR ''.'') s") auto
    have "ucast (of_nat (c_digits 10 0 p) :: u16) = field_octet p" using p by (simp add: ucast_octet field_octet_def)
    moreover have "octet_field []" by (simp add: octet_field_def)
    ultimately show ?thesis
      using Cons.IH [of "[]" "i + 1" "bs[i := field_octet p]"] Cons.prems dot unfolding sp f
      by (auto simp: c_isdigit_def char_code_def ipaddr.make_def f)
  next
    case other
    then have "\<not> octet_field (p @ [c])" "CHR ''.'' \<notin> set (p @ [c])" using p by (auto simp: octet_field_def)
    then show ?thesis using store_fields_bad [of "p @ [c]" "CHR ''.''" i s bs] other by (simp add: ipaddr.make_def)
  qed
qed

lemma store_fields_ok:
  "i \<le> 3 \<Longrightarrow> length bs = 4 \<Longrightarrow>
   fst (store_fields i fs bs) = (length fs = 4 - i \<and> list_all octet_field fs) \<and>
   (fst (store_fields i fs bs) \<longrightarrow> snd (store_fields i fs bs) = take i bs @ map field_octet fs)"
proof (induction i fs bs rule: store_fields.induct)
  case (2 i f bs)
  then show ?case by (auto simp: list_update_append1 upd_conv_take_nth_drop)
next
  case (3 i f g fs bs)
  show ?case
  proof (cases "octet_field f \<and> i < 3")
    case True
    then have "take (i + 1) (bs[i := field_octet f]) = take i bs @ [field_octet f]"
      using "3.prems" by (simp add: take_Suc_conv_app_nth)
    then show ?thesis using "3.IH" "3.prems" True by auto
  qed (use "3.prems" in auto)
qed simp

lemma store_fields_partial:
  "\<not> fst (store_fields i fs bs) \<Longrightarrow> k < i \<or> k = 3 \<or> i + length (takeWhile octet_field fs) \<le> k \<Longrightarrow>
   snd (store_fields i fs bs) ! k = bs ! k"
proof (induction i fs bs rule: store_fields.induct)
  case (3 i f g fs bs)
  show ?case
  proof (cases "octet_field f \<and> i < 3")
    case True
    then have "snd (store_fields (i + 1) (g # fs) (bs[i := field_octet f])) ! k = bs[i := field_octet f] ! k"
      using "3.IH" "3.prems" by auto
    moreover have "k \<noteq> i" using "3.prems"(2) True by auto
    ultimately show ?thesis using True by simp
  qed auto
qed (auto split: if_splits)

lemma ip_fromString_fields:
  assumes "CHR 0x00 \<notin> set s"
  shows "ip_fromString ip s = map_prod id ipaddr.make (store_fields 0 (split_at (CHR ''.'') s) (ip_bytes ip))"
  using from_string_loop_fields [of "[]" 0 s "ip_bytes ip"] assms
  by (cases ip) (simp add: ip_fromString_def c_str_id octet_field_def)

text \<open>The two parsers on a text that \<open>fromString\<close> takes.\<close>

lemma four_fields:
  assumes "length fs = 4"
  obtains A B C D where "fs = [A, B, C, D]"
  using assms by (auto simp: numeral_eq_Suc length_Suc_conv)

lemma TinyGsm_same:
  assumes "length (split_at (CHR ''.'') s) = 4" "list_all octet_field (split_at (CHR ''.'') s)" "length s < 256"
  shows "TinyGsmIpFromString s = (case map field_octet (split_at (CHR ''.'') s) of [a, b, c, d] \<Rightarrow> Some (a, b, c, d) | _ \<Rightarrow> None)"
proof -
  obtain A B C D where f: "split_at (CHR ''.'') s = [A, B, C, D]" by (rule four_fields [OF assms(1)])
  then have s: "s = A @ CHR ''.'' # B @ CHR ''.'' # C @ CHR ''.'' # D" using join_split [of "CHR ''.''" s] by simp
  have "list_all c_isdigit A" "list_all c_isdigit B" "list_all c_isdigit C" "list_all c_isdigit D"
    using assms(2) f by (simp_all add: octet_field_def)
  from ip_four_fields [OF this] show ?thesis using assms(3) unfolding f by (simp add: s field_octet_def)
qed

section \<open>Printing\<close>

text \<open>The two decimal printers of the core write the same.\<close>

lemma digit_char_ltoa: "d < 10 \<Longrightarrow> digit_char d = ltoa_digits ! d"
proof -
  have "\<forall>d \<in> set [0..<10]. digit_char d = ltoa_digits ! d" by code_simp
  then show "d < 10 \<Longrightarrow> ?thesis" by simp
qed

lemma print_digits_ltoa: "print_digits 10 n [] = rev (ltoa_loop 10 n)"
proof (induction n rule: less_induct)
  case (less n)
  show ?case
    using less.IH [of "n div 10"]
    by (subst print_digits_10) (simp add: digit_char_ltoa ltoa_loop_rec [of 10 n] div_eq_0_iff)
qed

lemma print_number_ultoa: "print_number n 10 = ultoa n 10"
  by (simp add: print_number_def ultoa_eq print_digits_ltoa)

lemma print_uchar_text: "print_uchar b 10 w = (length (ultoa (unat b) 10), stream_print (ultoa (unat b) 10) w)"
proof -
  have "unat b < 2 ^ 32" by (rule less_trans [OF unat_u8]) simp
  then have "unat (ucast b :: u32) = unat b" by (simp add: unsigned_ucast_eq take_bit_nat_eq_self)
  then show ?thesis
    by (simp add: print_uchar_def print_ulong_def printNumber_def write_cstr_def write_buf_def
        print_number_cstr print_number_ultoa [symmetric])
qed

lemma ip_ok_octets: "ip_ok ip \<Longrightarrow> \<exists>a b c d. ip = \<lparr>ip_bytes = [a, b, c, d]\<rparr>"
  unfolding ip_ok_def by (cases ip) (auto elim: four_fields)

lemma ip_toString_Some:
  assumes "ip_ok ip"
  shows "ip_toString ip = Some (join_with (CHR ''.'') (map (\<lambda>b. ultoa (unat b) 10) (ip_bytes ip)))"
proof -
  obtain a b c d where ip: "ip = \<lparr>ip_bytes = [a, b, c, d]\<rparr>" using ip_ok_octets [OF assms] by blast
  show ?thesis using ultoa_octet(2) [of a] ultoa_octet(2) [of b] ultoa_octet(2) [of c] ultoa_octet(2) [of d]
    by (simp add: ip ip_toString_def Let_def)
qed

lemma octet_field_ultoa: "octet_field (ultoa (unat b) 10)" "field_octet (ultoa (unat b) 10) = b" for b :: u8
proof -
  have "unat b \<le> 255" using unat_u8 [of b] by linarith
  then show "octet_field (ultoa (unat b) 10)" using ultoa_octet [of b] unfolding octet_field_def by simp
  show "field_octet (ultoa (unat b) 10) = b" using ultoa_octet(3) [of b] by (simp add: field_octet_def)
qed

lemma octet_field_nodot: "octet_field f \<Longrightarrow> CHR ''.'' \<notin> set f \<and> CHR 0x00 \<notin> set f"
  by (auto simp: octet_field_def list_all_iff c_isdigit_def char_code_def)

definition ip_read :: "string \<Rightarrow> ipaddr option" where
  "ip_read s = (case ip_fromString IPAddress s of (ok, ip) \<Rightarrow> if ok then Some ip else None)"

lemma ip_read_toString:
  assumes "ip_ok ip"
  shows "ip_read (the (ip_toString ip)) = Some ip"
proof -
  let ?fs = "map (\<lambda>b. ultoa (unat b) 10) (ip_bytes ip)"
  let ?s = "join_with (CHR ''.'') ?fs"
  obtain a b c d where ip: "ip = \<lparr>ip_bytes = [a, b, c, d]\<rparr>" using ip_ok_octets [OF assms] by blast
  have fs: "\<forall>f \<in> set ?fs. octet_field f" using octet_field_ultoa by auto
  then have "split_at (CHR ''.'') ?s = ?fs" using octet_field_nodot by (intro split_join) (auto simp: ip)
  moreover have "CHR 0x00 \<notin> set ?s" using octet_field_nodot [OF octet_field_ultoa(1)] by (simp add: ip)
  moreover have "fst (store_fields 0 ?fs (ip_bytes IPAddress))" "snd (store_fields 0 ?fs (ip_bytes IPAddress)) = map field_octet ?fs"
    using store_fields_ok [of 0 "ip_bytes IPAddress" ?fs] fs
    by (simp_all add: ip list_all_iff IPAddress_def word_octets_def)
  ultimately have r: "ip_fromString IPAddress ?s = (True, ipaddr.make (map field_octet ?fs))"
    using ip_fromString_fields [of ?s IPAddress] by (cases "store_fields 0 ?fs (ip_bytes IPAddress)") (simp del: list.map)
  have "ip = ipaddr.make (map field_octet ?fs)" by (simp add: ip octet_field_ultoa ipaddr.make_def)
  then show ?thesis unfolding ip_toString_Some [OF assms] ip_read_def option.sel r by simp
qed

interpretation ip_text: codec "\<lambda>ip. the (ip_toString ip)" ip_read ip_ok
  by unfold_locales (rule ip_read_toString)

lemma print_octets_text:
  "print_octets bs w =
     (let s = concat (map (\<lambda>b. ultoa (unat b) 10 @ ''.'') bs) in (length s, stream_print s w))"
  by (induction bs arbitrary: w)
    (simp_all add: print_uchar_text print_char_def write_byte_def stream_print_def Let_def)

lemma printTo_text:
  assumes "ip_ok ip"
  shows "printTo ip w = (length (the (ip_toString ip)), stream_print (the (ip_toString ip)) w)"
proof -
  obtain a b c d where ip: "ip = \<lparr>ip_bytes = [a, b, c, d]\<rparr>" using ip_ok_octets [OF assms] by blast
  show ?thesis unfolding ip_toString_Some [OF assms]
    by (simp add: ip printTo_def print_octets_text print_uchar_text stream_print_def Let_def)
qed

section \<open>Properties\<close>



text \<open>C36: \<open>toString\<close> and \<open>printTo\<close> write the same dotted text, which fits the buffer of 16 bytes; \<open>printTo\<close> returns its length,
  and \<open>fromString\<close> reads the address back from it. So different addresses are printed differently.\<close>

theorem ip_printed_reads_back:
  assumes "ip_ok ip"
  shows "\<exists>s. ip_toString ip = Some s \<and> length s \<le> 15 \<and> printTo ip w = (length s, stream_print s w) \<and>
    ip_read s = Some ip \<and> (\<forall>ip2. ip_ok ip2 \<longrightarrow> ip_toString ip2 = Some s \<longrightarrow> ip2 = ip)"
proof -
  obtain s where s: "ip_toString ip = Some s" using ip_toString_Some [OF assms] by blast
  then have "length s \<le> 15" by (auto simp: ip_toString_def Let_def split: if_splits)
  moreover have "ip2 = ip" if "ip_ok ip2" "ip_toString ip2 = Some s" for ip2
    using ip_text.enc_eq_iff [OF that(1) assms] s that(2) by simp
  ultimately show ?thesis using s printTo_text [OF assms, of w] ip_text.dec_enc [OF assms] by auto
qed

theorem ip_printed_reads_back_witness:
  "\<exists>s. ip_toString (IPAddress_word 0x0100A8C0) = Some s \<and> ip_read s = Some (IPAddress_word 0x0100A8C0)"
  using ip_printed_reads_back [of "IPAddress_word 0x0100A8C0"] by (auto simp: ip_ok_def IPAddress_word_def word_octets_def)

end
