(* ===== verification/SimAt.thy ===== *)
theory SimAt
  imports Serial Fifo
begin

text \<open>
  The AT-command core of the modem driver (\<open>src/main/TinyGsmClientSIM800.h\<close>): the driver state
  with its socket table, \<open>sendAT\<close>, \<open>streamSkipUntil\<close> and \<open>waitResponse\<close>, the loop that looks
  for the expected answers and handles the two unsolicited messages that concern sockets.
\<close>

section \<open>State\<close>

text \<open>The configuration of the build: \<open>main.h\<close> sets the receive buffer, the driver the sockets.\<close>

definition TINY_GSM_RX_BUFFER :: nat where
  "TINY_GSM_RX_BUFFER = 1460"

definition TINY_GSM_MUX_COUNT :: nat where
  "TINY_GSM_MUX_COUNT = 1"

text \<open>The fields of a \<open>GsmClient\<close>; its \<open>at\<close> pointer is the driver state it is part of.\<close>

record client =
  cl_mux :: u8
  cl_available :: u16
  cl_prev_check :: u32
  cl_connected :: bool
  cl_got_data :: bool
  cl_rx :: "char fifo"
  cl_waits :: int

text \<open>\<open>sockets[mux]\<close> holds the registered client objects, \<open>None\<close> for a null pointer.\<close>

record gsm = world +
  sockets :: "client option list"

definition sockets_update_at :: "nat \<Rightarrow> (client \<Rightarrow> client) \<Rightarrow> gsm \<Rightarrow> gsm" where
  "sockets_update_at mux f g =
     (if mux < length (sockets g)
      then g\<lparr>sockets := (sockets g)[mux := map_option f (sockets g ! mux)]\<rparr>
      else g)"

section \<open>Texts\<close>

definition gsm_nl :: string where
  "gsm_nl = [CHR 0x0D, CHR 0x0A]"

definition gsm_ok :: string where
  "gsm_ok = ''OK'' @ gsm_nl"

definition gsm_error :: string where
  "gsm_error = ''ERROR'' @ gsm_nl"

definition urc_ciprxget :: string where
  "urc_ciprxget = gsm_nl @ ''+CIPRXGET:''"

definition urc_closed :: string where
  "urc_closed = ''CLOSED'' @ gsm_nl"

section \<open>Sending and skipping\<close>

text \<open>The arguments of \<open>sendAT\<close> are printed one after the other; \<open>cmd\<close> is their text.\<close>

definition sendAT :: "string \<Rightarrow> gsm \<Rightarrow> gsm" where
  "sendAT cmd g = stream_print (''AT'' @ cmd @ gsm_nl) g"

text \<open>\<open>while (!stream.available())\<close>: \<open>None\<close> when no byte ever arrives.\<close>

definition wait_available :: "'a world_scheme \<Rightarrow> 'a world_scheme option" where
  "wait_available w =
     (case w_in w of [] \<Rightarrow> None | (t, c) # rest \<Rightarrow> Some (w\<lparr>w_now := max t (w_now w)\<rparr>))"

function (sequential) streamSkipUntil :: "char \<Rightarrow> 'a world_scheme \<Rightarrow> 'a world_scheme option" where
  "streamSkipUntil c w =
     (case wait_available w of
        None \<Rightarrow> None
      | Some w1 \<Rightarrow>
          (case stream_read w1 of
             (Some b, w2) \<Rightarrow> if b = c then Some w2 else streamSkipUntil c w2
           | (None, w2) \<Rightarrow> None))"
  by pat_completeness auto
termination
  by (relation "measure (\<lambda>(c, w). length (w_in w))")
    (auto simp: wait_available_def dest!: stream_read_Some [OF sym] split: list.splits)

declare streamSkipUntil.simps [simp del]

section \<open>waitResponse\<close>

text \<open>The chain of \<open>endsWith\<close> tests over \<open>r1\<close> to \<open>r5\<close>; 0 when none applies.\<close>

fun match_response :: "string \<Rightarrow> string option list \<Rightarrow> nat \<Rightarrow> nat" where
  "match_response data [] index = 0"
| "match_response data (r # rs) index =
     (case r of
        Some s \<Rightarrow> if str_endsWith data s then index else match_response data rs (index + 1)
      | None \<Rightarrow> match_response data rs (index + 1))"

text \<open>\<open>mux >= 0 && mux < TINY_GSM_MUX_COUNT && sockets[mux]\<close>, and the update it guards.\<close>

definition on_socket :: "int \<Rightarrow> (client \<Rightarrow> client) \<Rightarrow> gsm \<Rightarrow> gsm" where
  "on_socket mux f g =
     (if mux \<ge> 0 \<and> mux < int TINY_GSM_MUX_COUNT then sockets_update_at (nat mux) f g else g)"

definition closed_mux :: "string \<Rightarrow> int" where
  "closed_mux data =
     (let nl = str_lastIndexOf data gsm_nl (c_uint (int (length data) - 8));
          coma = str_indexOf data (CHR '','') (c_uint (nl + 2))
      in str_toInt (str_substring data (c_uint (nl + 2)) (c_uint coma)))"

function (sequential) wait_loop ::
    "u32 \<Rightarrow> u32 \<Rightarrow> string option list \<Rightarrow> string \<Rightarrow> gsm \<Rightarrow> nat \<times> string \<times> gsm" where
  "wait_loop timeout start rs data g =
     (case stream_read g of
        (Some a, g1) \<Rightarrow>
          if a = CHR 0x00 then wait_loop timeout start rs data g1
          else
            let data = data @ [a];
                index = match_response data rs 1
            in if index \<noteq> 0 then (index, data, g1)
               else if str_endsWith data urc_ciprxget then
                 (case readStringUntil (CHR '','') g1 of (mode, g2) \<Rightarrow>
                    if str_toInt mode = 1 then
                      (case readStringUntil (CHR 0x0A) g2 of (m, g3) \<Rightarrow>
                         wait_loop timeout start rs []
                           (on_socket (str_toInt m) (\<lambda>cl. cl\<lparr>cl_got_data := True\<rparr>) g3))
                    else wait_loop timeout start rs (data @ mode) g2)
               else if str_endsWith data urc_closed then
                 wait_loop timeout start rs []
                   (on_socket (closed_mux data) (\<lambda>cl. cl\<lparr>cl_connected := False\<rparr>) g1)
               else wait_loop timeout start rs data g1
      | (None, g1) \<Rightarrow>
          if millis g1 - start < timeout
          then wait_loop timeout start rs data (idle_poll g1)
          else (0, [], g1))"
  by pat_completeness auto

lemma on_socket_world [simp]:
  "w_in (on_socket m f g) = w_in g" "w_now (on_socket m f g) = w_now g" "w_out (on_socket m f g) = w_out g"
  by (simp_all add: on_socket_def sockets_update_at_def)

lemma idle_poll_in [simp]: "w_in (idle_poll w) = w_in w" "w_out (idle_poll w) = w_out w"
  by (simp_all add: idle_poll_def)

lemma idle_poll_elapsed:
  assumes "millis g - start < (timeout :: u32)"
  shows "unat (timeout - (millis (idle_poll g) - start)) < unat (timeout - (millis g - start))"
proof -
  define e where "e = millis g - start"
  have step: "millis (idle_poll g) - start = e + 1" by (simp add: millis_def idle_poll_def e_def)
  have "e < timeout" using assms by (simp add: e_def)
  then have "unat (timeout - (e + 1)) < unat (timeout - e)" by unat_arith
  then show ?thesis unfolding step e_def [symmetric] .
qed

termination wait_loop
  by (relation "measures [\<lambda>(timeout, start, rs, data, g). length (w_in g),
    \<lambda>(timeout, start, rs, data, g). unat (timeout - (millis g - start))]")
   (auto simp: idle_poll_elapsed dest!: stream_read_Some [OF sym] stream_read_None [OF sym]
      readStringUntil_reads_only [OF sym, THEN reads_only_length])

declare wait_loop.simps [simp del]

definition waitResponse :: "u32 \<Rightarrow> string \<Rightarrow> string option list \<Rightarrow> gsm \<Rightarrow> nat \<times> string \<times> gsm" where
  "waitResponse timeout data rs g = wait_loop timeout (millis g) rs data g"

text \<open>
  The overloads: \<open>wait_for\<close> gives the texts to look for, with \<open>ERROR\<close> as the default of the
  second and nothing for the rest; \<open>wait_ok\<close> waits a second for \<open>OK\<close> or \<open>ERROR\<close>.
\<close>

definition wait_for :: "u32 \<Rightarrow> string option list \<Rightarrow> gsm \<Rightarrow> nat \<times> gsm" where
  "wait_for timeout rs g = (case waitResponse timeout [] rs g of (index, data, g') \<Rightarrow> (index, g'))"

definition default_rs :: "string \<Rightarrow> string option list" where
  "default_rs r1 = [Some r1, Some gsm_error, None, None, None]"

definition wait_ok :: "u32 \<Rightarrow> gsm \<Rightarrow> nat \<times> gsm" where
  "wait_ok timeout g = wait_for timeout (default_rs gsm_ok) g"


section \<open>Lemmas\<close>

text \<open>
  \<open>quiet rs p\<close>: after the text \<open>p\<close> the search goes on. \<open>answers rs i s\<close>: reading \<open>s\<close> byte by byte, the
  \<open>i\<close>-th expected text is found at the end of \<open>s\<close> and nothing is found before.
\<close>

definition quiet :: "string option list \<Rightarrow> string \<Rightarrow> bool" where
  "quiet rs p =
     (match_response p rs 1 = 0 \<and> \<not> str_endsWith p urc_ciprxget \<and> \<not> str_endsWith p urc_closed)"

definition answers :: "string option list \<Rightarrow> nat \<Rightarrow> string \<Rightarrow> bool" where
  "answers rs i s =
     (s \<noteq> [] \<and> CHR 0x00 \<notin> set s \<and> match_response s rs 1 = i \<and> i \<noteq> 0 \<and>
      (\<forall>k \<in> set [1..<length s]. quiet rs (take k s)))"

text \<open>Polling until the next byte is there.\<close>

lemma elapsed_less:
  assumes "n0 \<le> w_now g" and "w_now g < n0 + unat (timeout :: u32)"
  shows "millis g - of_nat n0 < timeout"
proof -
  have diff: "millis g - of_nat n0 = of_nat (w_now g - n0)"
    using assms by (simp add: millis_def)
  have "w_now g - n0 < unat timeout" using assms by simp
  moreover have "unat timeout < 2 ^ 32" using unsigned_less [of timeout, where ?'a = nat] by simp
  ultimately show ?thesis unfolding diff word_less_nat_alt
    by (simp add: unat_of_nat del: of_nat_diff)
qed

lemma wait_loop_idle:
  assumes "w_in g = (t, c) # mid" and "w_now g \<le> t" and "t < n0 + unat timeout" and "n0 \<le> w_now g"
  shows "wait_loop timeout (of_nat n0) rs data g = wait_loop timeout (of_nat n0) rs data (g\<lparr>w_now := t\<rparr>)"
  using assms
proof (induction "t - w_now g" arbitrary: g)
  case 0
  then show ?case by simp
next
  case (Suc d)
  then have lt: "w_now g < t" by simp
  have "millis g - of_nat n0 < timeout" using Suc.prems lt by (intro elapsed_less) simp_all
  then have "wait_loop timeout (of_nat n0) rs data g = wait_loop timeout (of_nat n0) rs data (idle_poll g)"
    using Suc.prems lt by (subst wait_loop.simps) (simp add: stream_read_def)
  also have "\<dots> = wait_loop timeout (of_nat n0) rs data ((idle_poll g)\<lparr>w_now := t\<rparr>)"
    using Suc.prems Suc.hyps(2) lt by (intro Suc.hyps(1)) (simp_all add: idle_poll_def)
  finally show ?case by (simp add: idle_poll_def)
qed

lemma wait_loop_byte:
  assumes "w_in g = (t, c) # mid" and "t < n0 + unat timeout" and "n0 \<le> w_now g"
  shows "wait_loop timeout (of_nat n0) rs data g =
    wait_loop timeout (of_nat n0) rs data (g\<lparr>w_now := max t (w_now g)\<rparr>)"
  using assms wait_loop_idle [of g t c mid n0 timeout rs data]
  by (cases "w_now g \<le> t") (simp_all add: max_def)

lemma wait_loop_incoming:
  assumes "incoming T s rest g" and "n0 \<le> w_now g" and "T < n0 + unat timeout"
    and "s \<noteq> []" and "CHR 0x00 \<notin> set s" and "match_response (data @ s) rs 1 = i" and "i \<noteq> 0"
    and "\<And>k. 1 \<le> k \<Longrightarrow> k < length s \<Longrightarrow> quiet rs (data @ take k s)"
  shows "\<exists>g'. wait_loop timeout (of_nat n0) rs data g = (i, data @ s, g') \<and> after T rest g g'"
  using assms
proof (induction s arbitrary: data g)
  case Nil
  then show ?case by simp
next
  case (Cons c s)
  obtain t mid where t: "w_in g = (t, c) # mid" "t \<le> T"
    and inc: "incoming T s rest (g\<lparr>w_now := max t (w_now g), w_in := mid\<rparr>)"
    using Cons.prems(1) by (auto simp: incoming_Cons)
  let ?g = "g\<lparr>w_now := max t (w_now g), w_in := mid\<rparr>"
  have byte: "wait_loop timeout (of_nat n0) rs data g =
      wait_loop timeout (of_nat n0) rs data (g\<lparr>w_now := max t (w_now g)\<rparr>)"
    using Cons.prems t by (intro wait_loop_byte) auto
  have rd: "stream_read (g\<lparr>w_now := max t (w_now g)\<rparr>) = (Some c, ?g)"
    using t by (simp add: stream_read_def)
  show ?case
  proof (cases "s = []")
    case True
    then have "wait_loop timeout (of_nat n0) rs data g = (i, data @ [c], ?g)"
      unfolding byte using rd Cons.prems by (subst wait_loop.simps) simp
    moreover have "mid = rest" "max t (w_now g) \<le> T" using inc True by (simp_all add: incoming_Nil)
    ultimately show ?thesis using True by auto
  next
    case False
    have "quiet rs (data @ [c])" "c \<noteq> CHR 0x00" using Cons.prems(5) Cons.prems(8) [of 1] False by auto
    then have step: "wait_loop timeout (of_nat n0) rs data g = wait_loop timeout (of_nat n0) rs (data @ [c]) ?g"
      unfolding byte using rd by (subst wait_loop.simps) (simp add: quiet_def)
    have "\<exists>g'. wait_loop timeout (of_nat n0) rs (data @ [c]) ?g = (i, (data @ [c]) @ s, g') \<and> after T rest ?g g'"
    proof (rule Cons.IH [OF inc])
      show "quiet rs ((data @ [c]) @ take k s)" if "1 \<le> k" "k < length s" for k
        using Cons.prems(8) [of "Suc k"] that by simp
    qed (use Cons.prems False in auto)
    then show ?thesis unfolding step using after_step by fastforce
  qed
qed

lemma waitResponse_incoming:
  assumes "incoming T (s @ b) rest g" and "T < w_now g + unat timeout" and "answers rs i s"
  obtains mid g' where "waitResponse timeout [] rs g = (i, s, g')" "after T mid g g'" "incoming T b rest g'"
proof -
  from incoming_split [OF assms(1)] obtain mid where mid: "incoming T s mid g"
    "\<And>w'. after T mid g w' \<Longrightarrow> incoming T b rest w'"
    by metis
  have "\<exists>g'. wait_loop timeout (of_nat (w_now g)) rs [] g = (i, [] @ s, g') \<and> after T mid g g'"
    using assms(2,3) by (intro wait_loop_incoming [OF mid(1)]) (auto simp: answers_def)
  then show ?thesis using that mid(2) by (auto simp: waitResponse_def millis_def)
qed

lemma wait_for_incoming:
  assumes "incoming T (s @ b) rest g" and "T < w_now g + unat timeout" and "answers rs i s"
  obtains mid g' where "wait_for timeout rs g = (i, g')" "after T mid g g'" "incoming T b rest g'"
  using waitResponse_incoming [OF assms] by (metis (no_types, lifting) wait_for_def case_prod_conv)

lemma wait_available_incoming:
  assumes "incoming T (c # s) rest w"
  obtains n mid where "w_now w \<le> n" "n \<le> T" "wait_available w = Some (w\<lparr>w_now := n\<rparr>)"
    "stream_read (w\<lparr>w_now := n\<rparr>) = (Some c, w\<lparr>w_now := n, w_in := mid\<rparr>)"
    "incoming T s rest (w\<lparr>w_now := n, w_in := mid\<rparr>)"
proof -
  obtain t mid where t: "w_in w = (t, c) # mid" "t \<le> T"
    "incoming T s rest (w\<lparr>w_now := max t (w_now w), w_in := mid\<rparr>)"
    using assms by (auto simp: incoming_Cons)
  show ?thesis
    by (rule that [of "max t (w_now w)" mid])
      (use t incoming_before [OF assms] in \<open>simp_all add: wait_available_def stream_read_def\<close>)
qed

lemma streamSkipUntil_incoming:
  assumes "incoming T (s @ c # b) rest w" and "c \<notin> set s"
  shows "\<exists>mid w'. streamSkipUntil c w = Some w' \<and> after T mid w w' \<and> incoming T b rest w'"
  using assms
proof (induction s arbitrary: w)
  case Nil
  then have "incoming T (c # b) rest w" by simp
  from wait_available_incoming [OF this] obtain n mid where av: "w_now w \<le> n" "n \<le> T"
    "wait_available w = Some (w\<lparr>w_now := n\<rparr>)"
    "stream_read (w\<lparr>w_now := n\<rparr>) = (Some c, w\<lparr>w_now := n, w_in := mid\<rparr>)"
    and inc: "incoming T b rest (w\<lparr>w_now := n, w_in := mid\<rparr>)" .
  have "streamSkipUntil c w = Some (w\<lparr>w_now := n, w_in := mid\<rparr>)"
    using av by (subst streamSkipUntil.simps) simp
  then show ?case using after_intro [OF av(1,2)] inc by blast
next
  case (Cons d s)
  then have "incoming T (d # s @ c # b) rest w" by simp
  from wait_available_incoming [OF this] obtain n mid where n: "w_now w \<le> n" "n \<le> T"
    and av: "wait_available w = Some (w\<lparr>w_now := n\<rparr>)"
    "stream_read (w\<lparr>w_now := n\<rparr>) = (Some d, w\<lparr>w_now := n, w_in := mid\<rparr>)"
    and inc: "incoming T (s @ c # b) rest (w\<lparr>w_now := n, w_in := mid\<rparr>)" .
  obtain mid' w' where "streamSkipUntil c (w\<lparr>w_now := n, w_in := mid\<rparr>) = Some w'"
    "after T mid' (w\<lparr>w_now := n, w_in := mid\<rparr>) w'" "incoming T b rest w'"
    using Cons.IH [OF inc] Cons.prems(2) by auto
  moreover have "streamSkipUntil c w = streamSkipUntil c (w\<lparr>w_now := n, w_in := mid\<rparr>)"
    using av Cons.prems(2) by (subst streamSkipUntil.simps) auto
  ultimately show ?case using after_step n by fastforce
qed


section \<open>What waitResponse guarantees\<close>

lemma match_response_sound:
  "match_response d rs k = i \<Longrightarrow> i \<noteq> 0 \<Longrightarrow> 0 < k \<Longrightarrow>
    k \<le> i \<and> i < k + length rs \<and> (\<exists>s. rs ! (i - k) = Some s \<and> str_endsWith d s)"
proof (induction d rs k rule: match_response.induct)
  case (2 d r rs k)
  show ?case
  proof (cases "\<exists>s. r = Some s \<and> str_endsWith d s")
    case True
    then show ?thesis using "2.prems" by auto
  next
    case False
    then have "match_response d rs (k + 1) = i" using "2.prems" by (auto split: option.splits)
    moreover from this have "k + 1 \<le> i \<and> i < k + 1 + length rs \<and>
        (\<exists>s. rs ! (i - (k + 1)) = Some s \<and> str_endsWith d s)"
      using "2.IH" "2.prems" False by (cases r) auto
    ultimately show ?thesis by (auto simp: nth_Cons')
  qed
qed simp

definition found :: "string option list \<Rightarrow> nat \<Rightarrow> string \<Rightarrow> bool" where
  "found rs i d \<longleftrightarrow> 1 \<le> i \<and> i \<le> length rs \<and> (\<exists>s. rs ! (i - 1) = Some s \<and> str_endsWith d s)"

text \<open>
  How the sockets may change while the driver looks for an answer: an object keeps everything
  but its two flags, \<open>got_data\<close> is only ever set and \<open>sock_connected\<close> only ever cleared.
\<close>

definition flags_le :: "client \<Rightarrow> client \<Rightarrow> bool" where
  "flags_le cl cl' \<longleftrightarrow>
     cl\<lparr>cl_got_data := False, cl_connected := False\<rparr> = cl'\<lparr>cl_got_data := False, cl_connected := False\<rparr> \<and>
     (cl_got_data cl \<longrightarrow> cl_got_data cl') \<and> (cl_connected cl' \<longrightarrow> cl_connected cl)"

definition sockets_le :: "gsm \<Rightarrow> gsm \<Rightarrow> bool" where
  "sockets_le g g' \<longleftrightarrow> list_all2 (rel_option flags_le) (sockets g) (sockets g')"

lemma flags_le_refl [simp]: "flags_le cl cl"
  by (simp add: flags_le_def)

lemma flags_le_trans: "flags_le a b \<Longrightarrow> flags_le b c \<Longrightarrow> flags_le a c"
  by (auto simp: flags_le_def)

lemma sockets_le_refl [simp]: "sockets_le g g"
  by (simp add: sockets_le_def list.rel_refl option.rel_refl)

lemma sockets_le_trans:
  assumes "sockets_le a b" and "sockets_le b c"
  shows "sockets_le a c"
proof -
  have t: "rel_option flags_le x z" if "rel_option flags_le x y" "rel_option flags_le y z" for x y z
    using that by (cases x; cases y; cases z) (auto intro: flags_le_trans)
  show ?thesis using assms unfolding sockets_le_def by (rule list_all2_trans [rotated]) (rule t)
qed

lemma sockets_le_flag:
  assumes "\<And>cl. flags_le cl (f cl)"
  shows "sockets_le g (on_socket m f g)"
proof -
  have "rel_option flags_le x (map_option f x)" for x
    using assms by (cases x) auto
  moreover have "rel_option flags_le x x" for x
    by (cases x) auto
  ultimately show ?thesis
    by (auto simp: sockets_le_def on_socket_def sockets_update_at_def list_all2_conv_all_nth nth_list_update)
qed

lemma sockets_le_same: "sockets g = sockets g' \<Longrightarrow> sockets_le g g'"
  by (metis sockets_le_def sockets_le_refl)

text \<open>Together: time passes, bytes are consumed, nothing is written, sockets only get flags.\<close>

definition looks :: "gsm \<Rightarrow> gsm \<Rightarrow> bool" where
  "looks g g' \<longleftrightarrow> line_le g g' \<and> w_out g' = w_out g \<and> sockets_le g g'"

lemma looks_trans: "looks a b \<Longrightarrow> looks b c \<Longrightarrow> looks a c"
  unfolding looks_def by (metis line_le_trans sockets_le_trans)

lemma reads_only_looks: "reads_only g g' \<Longrightarrow> looks g g'" for g g' :: gsm
  by (cases g; cases g') (auto simp: reads_only_def looks_def intro!: sockets_le_same)

lemma looks_on_socket:
  assumes "\<And>cl. flags_le cl (f cl)"
  shows "looks g (on_socket m f g)"
  using sockets_le_flag [OF assms] by (simp add: looks_def line_le_def)

lemma flags_le_set [simp]:
  "flags_le cl (cl\<lparr>cl_got_data := True\<rparr>)" "flags_le cl (cl\<lparr>cl_connected := False\<rparr>)"
  by (simp_all add: flags_le_def)

text \<open>
  The result of the search: on a find, the text ends with the one the index names; on a failure
  the text is empty and at least the whole timeout has passed.
\<close>

definition wait_result :: "u32 \<Rightarrow> nat \<Rightarrow> string option list \<Rightarrow> gsm \<Rightarrow> nat \<times> string \<times> gsm \<Rightarrow> bool" where
  "wait_result timeout n0 rs g = (\<lambda>(i, d, g'). looks g g' \<and>
     (if i = 0 then d = [] \<and> (n0 \<le> w_now g \<longrightarrow> n0 + unat timeout \<le> w_now g') else found rs i d))"

lemma wait_result_step: "looks g h \<Longrightarrow> wait_result timeout n0 rs h r \<Longrightarrow> wait_result timeout n0 rs g r"
  using looks_trans [of g h]
  by (cases r) (auto simp: wait_result_def looks_def line_le_def simp del: split_paired_Ex)

text \<open>The loop, one equation for each way of going on: no byte, a byte that ends the search, and the rest.\<close>

lemma wait_loop_no_data:
  assumes "stream_read g = (None, g1)"
  shows "millis g1 - start < timeout \<Longrightarrow> wait_loop timeout start rs data g = wait_loop timeout start rs data (idle_poll g1)"
    and "\<not> millis g1 - start < timeout \<Longrightarrow> wait_loop timeout start rs data g = (0, [], g1)"
  using assms by (subst wait_loop.simps, simp)+

lemma wait_loop_skip_nul:
  "stream_read g = (Some (CHR 0x00), g1) \<Longrightarrow> wait_loop timeout start rs data g = wait_loop timeout start rs data g1"
  by (subst wait_loop.simps) simp

lemma wait_loop_data:
  assumes "stream_read g = (Some c, g1)" and "c \<noteq> CHR 0x00"
  shows "match_response (data @ [c]) rs 1 \<noteq> 0 \<Longrightarrow>
      wait_loop timeout start rs data g = (match_response (data @ [c]) rs 1, data @ [c], g1)"
    and "match_response (data @ [c]) rs 1 = 0 \<Longrightarrow> \<not> str_endsWith (data @ [c]) urc_ciprxget \<Longrightarrow>
      str_endsWith (data @ [c]) urc_closed \<Longrightarrow> wait_loop timeout start rs data g = wait_loop timeout start rs []
        (on_socket (closed_mux (data @ [c])) (\<lambda>cl. cl\<lparr>cl_connected := False\<rparr>) g1)"
    and "match_response (data @ [c]) rs 1 = 0 \<Longrightarrow> \<not> str_endsWith (data @ [c]) urc_ciprxget \<Longrightarrow>
      \<not> str_endsWith (data @ [c]) urc_closed \<Longrightarrow>
      wait_loop timeout start rs data g = wait_loop timeout start rs (data @ [c]) g1"
  using assms by (subst wait_loop.simps, simp add: Let_def)+

lemma wait_loop_ciprxget:
  assumes "stream_read g = (Some c, g1)" and "c \<noteq> CHR 0x00" and "match_response (data @ [c]) rs 1 = 0"
    and "str_endsWith (data @ [c]) urc_ciprxget" and "readStringUntil CHR '','' g1 = (m, g2)"
  shows "str_toInt m = 1 \<Longrightarrow> readStringUntil (CHR 0x0A) g2 = (x, g3) \<Longrightarrow> wait_loop timeout start rs data g =
      wait_loop timeout start rs [] (on_socket (str_toInt x) (\<lambda>cl. cl\<lparr>cl_got_data := True\<rparr>) g3)"
    and "str_toInt m \<noteq> 1 \<Longrightarrow> wait_loop timeout start rs data g = wait_loop timeout start rs (data @ [c] @ m) g2"
  using assms by (subst wait_loop.simps, simp add: Let_def)+

lemma looks_readStringUntil:
  assumes "looks g g1" and "readStringUntil x g1 = (m, g2)"
  shows "looks g g2"
  using assms(1) reads_only_looks [OF readStringUntil_reads_only [of x g1]] assms(2) looks_trans by simp

lemma looks_flagged:
  assumes "looks g g1" and "\<And>cl. flags_le cl (f cl)"
  shows "looks g (on_socket m f g1)"
  using assms(1) looks_on_socket [OF assms(2)] looks_trans by blast

lemma wait_loop_guarantee:
  "start = of_nat n0 \<Longrightarrow> wait_result timeout n0 rs g (wait_loop timeout start rs data g)"
proof (induction timeout start rs data g rule: wait_loop.induct)
  case (1 timeout start rs data g)
  obtain a g1 where rd: "stream_read g = (a, g1)" by fastforce
  then have l1: "looks g g1" by (intro reads_only_looks stream_read_reads_only)
  note step = wait_result_step [rotated]
  show ?case
  proof (cases a)
    case None
    note no_data = wait_loop_no_data [OF rd [unfolded None]]
    show ?thesis
    proof (cases "millis g1 - start < timeout")
      case True
      have "looks g (idle_poll g1)" using l1 reads_only_looks [OF idle_poll_reads_only] looks_trans by blast
      then show ?thesis unfolding no_data(1) [OF True]
        by (rule step [OF "1.IH"(1) [OF rd [symmetric] None True "1.prems"]])
    next
      case False
      have "g1 = g" using rd None stream_read_None by blast
      then have "n0 + unat timeout \<le> w_now g1" if "n0 \<le> w_now g1"
        using False elapsed_less [OF that, of timeout] "1.prems" by force
      then show ?thesis using l1 \<open>g1 = g\<close> no_data(2) [OF False] by (simp add: wait_result_def)
    qed
  next
    case (Some c)
    note rd_c = rd [unfolded Some]
    let ?d = "data @ [c]"
    let ?i = "match_response ?d rs 1"
    consider (nul) "c = CHR 0x00" | (found) "c \<noteq> CHR 0x00" "?i \<noteq> 0"
      | (get) "c \<noteq> CHR 0x00" "\<not> ?i \<noteq> 0" "str_endsWith ?d urc_ciprxget"
      | (closed) "c \<noteq> CHR 0x00" "\<not> ?i \<noteq> 0" "\<not> str_endsWith ?d urc_ciprxget" "str_endsWith ?d urc_closed"
      | (other) "c \<noteq> CHR 0x00" "\<not> ?i \<noteq> 0" "\<not> str_endsWith ?d urc_ciprxget" "\<not> str_endsWith ?d urc_closed"
      by blast
    then show ?thesis
    proof cases
      case nul
      show ?thesis unfolding wait_loop_skip_nul [OF rd_c [unfolded nul]]
        by (rule step [OF "1.IH"(2) [OF rd [symmetric] Some nul "1.prems"] l1])
    next
      case found
      then show ?thesis using wait_loop_data(1) [OF rd_c found] match_response_sound [of ?d rs 1 ?i] l1
        by (auto simp: wait_result_def found_def)
    next
      case get
      obtain m g2 where m: "readStringUntil CHR '','' g1 = (m, g2)" by fastforce
      note l2 = looks_readStringUntil [OF l1 m] and IH = "1.IH"(3,4) [OF rd [symmetric] Some get(1) refl refl get(2,3) m [symmetric]]
      note eq = wait_loop_ciprxget [OF rd_c get(1) get(2) [unfolded not_not] get(3) m]
      obtain x g3 where x: "readStringUntil (CHR 0x0A) g2 = (x, g3)" by fastforce
      show ?thesis
        using step [OF IH(1) [OF _ x [symmetric] "1.prems"] looks_flagged [OF looks_readStringUntil [OF l2 x] flags_le_set(1)]]
          step [OF IH(2) [OF _ "1.prems"] l2] eq x by (cases "str_toInt m = 1") simp_all
    next
      case closed
      show ?thesis using wait_loop_data(2) [OF rd_c closed(1) _ closed(3,4)] closed(2)
          step [OF "1.IH"(5) [OF rd [symmetric] Some closed(1) refl refl closed(2,3,4) "1.prems"]
            looks_flagged [OF l1 flags_le_set(2)]] by simp
    next
      case other
      show ?thesis using wait_loop_data(3) [OF rd_c other(1) _ other(3,4)] other(2)
          step [OF "1.IH"(6) [OF rd [symmetric] Some other(1) refl refl other(2,3,4) "1.prems"] l1] by simp
    qed
  qed
qed

text \<open>A byte that has arrived is gone afterwards.\<close>

lemma wait_loop_consumes:
  assumes "stream_read g = (Some c, g1)" and "start = of_nat n0"
  shows "length (w_in (snd (snd (wait_loop timeout start rs data g)))) \<le> length (w_in g1)"
proof -
  have loop: "length (w_in (snd (snd (wait_loop timeout start rs d h)))) \<le> length (w_in h)" for d h
    using wait_loop_guarantee [OF assms(2), of timeout rs h d] line_le_length
    by (auto simp: wait_result_def looks_def case_prod_beta)
  have read: "length (w_in (snd (readStringUntil x h))) \<le> length (w_in h)" for x and h :: gsm
    using readStringUntil_reads_only [of x h] reads_only_length by (metis prod.collapse)
  show ?thesis using assms(1)
    by (subst wait_loop.simps)
      (auto simp: case_prod_beta Let_def intro!: order_trans [OF loop] order_trans [OF read])
qed

lemma waitResponse_result: "wait_result timeout (w_now g) rs g (waitResponse timeout data rs g)"
  unfolding waitResponse_def by (rule wait_loop_guarantee) (simp add: millis_def)

lemma wait_for_looks: "wait_for timeout rs g = (i, g') \<Longrightarrow> looks g g'"
  using waitResponse_result [of timeout g rs "[]"]
  by (auto simp: wait_for_def wait_result_def split: prod.splits)

lemma wait_for_index: "wait_for timeout rs g = (i, g') \<Longrightarrow> i \<le> length rs"
  using waitResponse_result [of timeout g rs "[]"]
  by (auto simp: wait_for_def wait_result_def found_def split: prod.splits if_splits)

text \<open>C10: \<open>waitResponse\<close> is sound: a positive index names an expected text that the received data
  ends with, and 0 is returned only with empty data and not before the timeout has passed. The
  call writes nothing, consumes a prefix of the line, and changes a registered socket object in
  nothing but its two flags, which move towards "data waiting" and "closed" only.
\<close>

theorem waitResponse_sound:
  "case waitResponse timeout data rs g of (i, d, g') \<Rightarrow>
     (i = 0 \<and> d = [] \<and> w_now g + unat timeout \<le> w_now g' \<or>
      i \<in> {1..length rs} \<and> (\<exists>s. rs ! (i - 1) = Some s \<and> str_endsWith d s)) \<and>
     w_out g' = w_out g \<and> (\<exists>used. w_in g = used @ w_in g') \<and> sockets_le g g'"
  using waitResponse_result [of timeout g rs data]
  by (auto simp: wait_result_def looks_def line_le_def found_def split: if_splits)


section \<open>Unsolicited messages\<close>

text \<open>\<open>interrupts rs u s\<close>: the text \<open>s\<close> ends with the message \<open>u\<close> and nothing is recognised before.\<close>

definition interrupts :: "string option list \<Rightarrow> string \<Rightarrow> string \<Rightarrow> bool" where
  "interrupts rs u s =
     (s \<noteq> [] \<and> CHR 0x00 \<notin> set s \<and> match_response s rs 1 = 0 \<and> str_endsWith s u \<and>
      (\<forall>k \<in> set [1..<length s]. quiet rs (take k s)))"

lemma wait_loop_scan:
  assumes "incoming T (s @ c # b) rest g" and "n0 \<le> w_now g" and "T < n0 + unat timeout"
    and "CHR 0x00 \<notin> set s" and "\<And>k. 1 \<le> k \<Longrightarrow> k \<le> length s \<Longrightarrow> quiet rs (data @ take k s)"
  shows "\<exists>mid g' h. wait_loop timeout (of_nat n0) rs data g = wait_loop timeout (of_nat n0) rs (data @ s) g' \<and>
    stream_read g' = (Some c, h) \<and> after T mid g h \<and> incoming T b rest h"
  using assms
proof (induction s arbitrary: data g)
  case Nil
  obtain t mid where t: "w_in g = (t, c) # mid" "t \<le> T"
    and inc: "incoming T b rest (g\<lparr>w_now := max t (w_now g), w_in := mid\<rparr>)"
    using Nil.prems(1) by (auto simp: incoming_Cons)
  have "wait_loop timeout (of_nat n0) rs data g =
      wait_loop timeout (of_nat n0) rs data (g\<lparr>w_now := max t (w_now g)\<rparr>)"
    using Nil.prems t by (intro wait_loop_byte) auto
  moreover have "after T mid g (g\<lparr>w_now := max t (w_now g), w_in := mid\<rparr>)"
    using t incoming_before [OF Nil.prems(1)] by (intro after_intro) auto
  moreover have "stream_read (g\<lparr>w_now := max t (w_now g)\<rparr>) =
      (Some c, g\<lparr>w_now := max t (w_now g), w_in := mid\<rparr>)"
    using t by (simp add: stream_read_def)
  ultimately show ?case using inc by (metis append_Nil2)
next
  case (Cons d s)
  obtain t mid where t: "w_in g = (t, d) # mid" "t \<le> T"
    and inc: "incoming T (s @ c # b) rest (g\<lparr>w_now := max t (w_now g), w_in := mid\<rparr>)"
    using Cons.prems(1) by (auto simp: incoming_Cons)
  let ?g = "g\<lparr>w_now := max t (w_now g), w_in := mid\<rparr>"
  have byte: "wait_loop timeout (of_nat n0) rs data g =
      wait_loop timeout (of_nat n0) rs data (g\<lparr>w_now := max t (w_now g)\<rparr>)"
    using Cons.prems t by (intro wait_loop_byte) auto
  have "stream_read (g\<lparr>w_now := max t (w_now g)\<rparr>) = (Some d, ?g)"
    using t by (simp add: stream_read_def)
  moreover have "quiet rs (data @ [d])" "d \<noteq> CHR 0x00" using Cons.prems(4) Cons.prems(5) [of 1] by auto
  ultimately have step: "wait_loop timeout (of_nat n0) rs data g = wait_loop timeout (of_nat n0) rs (data @ [d]) ?g"
    unfolding byte by (subst wait_loop.simps) (simp add: quiet_def)
  have "\<exists>m g' h. wait_loop timeout (of_nat n0) rs (data @ [d]) ?g =
        wait_loop timeout (of_nat n0) rs ((data @ [d]) @ s) g' \<and>
      stream_read g' = (Some c, h) \<and> after T m ?g h \<and> incoming T b rest h"
  proof (rule Cons.IH [OF inc])
    show "quiet rs ((data @ [d]) @ take k s)" if "1 \<le> k" "k \<le> length s" for k
      using Cons.prems(5) [of "Suc k"] that by simp
  qed (use Cons.prems in auto)
  then show ?case unfolding step using after_step [where n = "max t (w_now g)" and w = g] by fastforce
qed

lemma wait_loop_interrupt:
  assumes "incoming T (s @ b) rest g" and "n0 \<le> w_now g" and "T < n0 + unat timeout"
    and "interrupts rs u s"
  obtains mid g' h c where "wait_loop timeout (of_nat n0) rs [] g = wait_loop timeout (of_nat n0) rs (butlast s) g'"
    "stream_read g' = (Some c, h)" "s = butlast s @ [c]" "c \<noteq> CHR 0x00"
    "after T mid g h" "incoming T b rest h"
proof -
  obtain s' c where s: "s = s' @ [c]" using assms(4) by (cases s rule: rev_exhaust) (auto simp: interrupts_def)
  have "quiet rs (take k s')" if "1 \<le> k" "k \<le> length s'" for k
    using assms(4) that unfolding s interrupts_def by (auto dest: bspec [of _ _ k])
  then have "\<exists>mid g' h. wait_loop timeout (of_nat n0) rs [] g = wait_loop timeout (of_nat n0) rs ([] @ s') g' \<and>
    stream_read g' = (Some c, h) \<and> after T mid g h \<and> incoming T b rest h"
    using assms s by (intro wait_loop_scan) (auto simp: interrupts_def)
  then show ?thesis using that assms(4) s by (auto simp: interrupts_def)
qed


lemma on_socket_line [simp]:
  "on_socket m f (g\<lparr>w_now := n, w_in := r\<rparr>) = (on_socket m f g)\<lparr>w_now := n, w_in := r\<rparr>"
  by (simp add: on_socket_def sockets_update_at_def)

lemma on_socket_after: "after T r g g' \<Longrightarrow> after T r (on_socket m f g) (on_socket m f g')"
  by (auto simp: after_def)

lemma incoming_on_socket [simp]: "incoming T s rest (on_socket m f g) = incoming T s rest g"
  by (simp add: incoming_def)

lemma wait_loop_answer:
  assumes "incoming T s rest g" and "n0 \<le> w_now g" and "T < n0 + unat timeout" and "answers rs i s"
  shows "\<exists>g'. wait_loop timeout (of_nat n0) rs [] g = (i, s, g') \<and> after T rest g g'"
proof -
  have "\<exists>g'. wait_loop timeout (of_nat n0) rs [] g = (i, [] @ s, g') \<and> after T rest g g'"
    using assms by (intro wait_loop_incoming) (auto simp: answers_def)
  then show ?thesis by simp
qed

text \<open>The number in a closing notice: the digits between the last line break and the comma.\<close>

lemma closed_mux_notice:
  assumes "list_all c_isdigit ds" and "length pre + length ds < 1000"
  shows "closed_mux (pre @ gsm_nl @ ds @ '', CLOSED'' @ gsm_nl) = str_toInt ds"
proof -
  let ?s = "pre @ gsm_nl @ ds @ '', CLOSED'' @ gsm_nl"
  let ?q = "length pre"
  have ds: "CHR 0x00 \<notin> set ds" "CHR '','' \<notin> set ds" "CHR 0x0D \<notin> set ds"
    using assms(1) by (auto simp: list_all_iff c_isdigit_def char_code_def)
  have len: "length ?s = ?q + length ds + 12" by (simp add: gsm_nl_def)
  have f: "c_uint (int (length ?s) - 8) = ?q + length ds + 4"
    using assms(2) unfolding len by (simp add: c_uint_def)
  have nl: "str_lastIndexOf ?s gsm_nl (?q + length ds + 4) = int ?q"
  proof (rule str_lastIndexOf_at)
    show "?s ! j \<noteq> hd gsm_nl" if "?q < j" "j \<le> ?q + length ds + 4" for j
    proof -
      have "?s ! j = (CHR 0x0A # ds @ '', CLOSED'' @ gsm_nl) ! (j - Suc ?q)"
        using that by (simp add: nth_append gsm_nl_def nth_Cons')
      moreover have "(CHR 0x0A # ds @ '', CLOSED'' @ gsm_nl) ! k = (CHR 0x0A # ds @ '', C'') ! k"
        if "k < length ds + 4" for k
        using that by (auto simp: nth_append nth_Cons split: nat.splits)
      moreover have "(CHR 0x0A # ds @ '', C'') ! k \<in> set (CHR 0x0A # ds @ '', C'')" if "k < length ds + 4" for k
        using that by (intro nth_mem) simp
      ultimately have "?s ! j \<in> set (CHR 0x0A # ds @ '', C'')" using that by auto
      then show ?thesis using ds(3) by (auto simp: gsm_nl_def)
    qed
  qed (simp_all add: gsm_nl_def)
  have c: "str_indexOf ?s CHR '','' (?q + 2) = int (?q + 2 + length ds)"
    using str_indexOf_append [of "CHR '',''" ds "?q + 2" "pre @ gsm_nl" "'' CLOSED'' @ gsm_nl"] ds
    by (simp add: gsm_nl_def)
  have "str_substring ?s (?q + 2) (?q + 2 + length ds) = ds"
    using str_substring_mid [of ds "?q + 2" "pre @ gsm_nl" "?q + 2 + length ds" "'', CLOSED'' @ gsm_nl"] ds
    by (simp add: gsm_nl_def)
  moreover have u: "c_uint (int ?q + 2) = ?q + 2" "c_uint (int (?q + 2 + length ds)) = ?q + 2 + length ds"
    using assms(2) by (simp_all add: c_uint_def)
  ultimately show ?thesis unfolding closed_mux_def Let_def f nl u c by simp
qed

text \<open>A driver with one registered client, for examples: the text \<open>s\<close> arrives in millisecond 1.\<close>

definition sample_client :: client where
  "sample_client = \<lparr>cl_mux = 0, cl_available = 0, cl_prev_check = 0, cl_connected = True,
     cl_got_data = False, cl_rx = \<lparr>fifo_b = replicate TINY_GSM_RX_BUFFER (CHR 0x00), fifo_w = 0, fifo_r = 0\<rparr>,
     cl_waits = 2000\<rparr>"

definition sample_gsm :: "string \<Rightarrow> gsm" where
  "sample_gsm s = \<lparr>w_now = 0, w_in = map (Pair 1) s, w_out = [], sockets = [Some sample_client]\<rparr>"

lemma incoming_sample: "incoming 1 s [] (sample_gsm s)"
  by (auto simp: incoming_def sample_gsm_def comp_def intro!: exI [of _ "map (Pair 1) s"])

lemma sample_gsm_now [simp]: "w_now (sample_gsm s) = 0"
  by (simp add: sample_gsm_def)

text \<open>C20: a notice that data has arrived does not disturb a command: if the modem sends
  \<open>+CIPRXGET: 1,<n>\<close> before the answer, \<open>waitResponse\<close> flags the socket \<open>n\<close> as having data, drops the
  notice, and finds the answer that follows as if the notice had not been there.
\<close>

theorem waitResponse_data_notice:
  assumes "incoming T (s @ m @ '','' @ n @ [CHR 0x0A] @ s2) rest g"
    and "T < w_now g + unat timeout" and "T \<le> w_now g + 1000"
    and "interrupts rs urc_ciprxget s" and "CHR '','' \<notin> set m" and "str_toInt m = 1"
    and "CHR 0x0A \<notin> set n" and "answers rs i s2"
  shows "\<exists>g'. waitResponse timeout [] rs g = (i, s2, g') \<and>
    after T rest (on_socket (str_toInt n) (\<lambda>cl. cl\<lparr>cl_got_data := True\<rparr>) g) g'"
proof -
  have "incoming T (s @ (m @ CHR '','' # n @ CHR 0x0A # s2)) rest g" using assms(1) by simp
  from wait_loop_interrupt [OF this order_refl assms(2,4)] obtain mid g1 h c where
    w1: "wait_loop timeout (of_nat (w_now g)) rs [] g = wait_loop timeout (of_nat (w_now g)) rs (butlast s) g1"
    and rd: "stream_read g1 = (Some c, h)" and s: "s = butlast s @ [c]" and c: "c \<noteq> CHR 0x00"
    and a1: "after T mid g h" and inc: "incoming T (m @ CHR '','' # n @ CHR 0x0A # s2) rest h" .
  have t1: "T \<le> w_now h + 1000" using after_now [OF a1] assms(3) by simp
  from readStringUntil_incoming [OF inc assms(5) t1] obtain mid2 h2 where
    m: "readStringUntil CHR '','' h = (m, h2)" and a2: "after T mid2 h h2"
    and inc2: "incoming T (n @ CHR 0x0A # s2) rest h2" .
  have t2: "T \<le> w_now h2 + 1000" using after_now [OF a2] t1 by simp
  from readStringUntil_incoming [OF inc2 assms(7) t2] obtain mid3 h3 where
    n: "readStringUntil CHR 0x0A h2 = (n, h3)" and a3: "after T mid3 h2 h3" and inc3: "incoming T s2 rest h3" .
  let ?f = "\<lambda>cl. cl\<lparr>cl_got_data := True\<rparr>"
  have "match_response (butlast s @ [c]) rs 1 = 0" "str_endsWith (butlast s @ [c]) urc_ciprxget"
    using assms(4) unfolding s [symmetric] interrupts_def by simp_all
  then have w2: "wait_loop timeout (of_nat (w_now g)) rs (butlast s) g1 =
      wait_loop timeout (of_nat (w_now g)) rs [] (on_socket (str_toInt n) ?f h3)"
    using rd c m n assms(6) by (subst wait_loop.simps) simp
  have ag: "after T mid3 g h3" using a1 a2 a3 after_trans by blast
  have "\<exists>g'. wait_loop timeout (of_nat (w_now g)) rs [] (on_socket (str_toInt n) ?f h3) = (i, s2, g') \<and>
      after T rest (on_socket (str_toInt n) ?f h3) g'"
    using inc3 after_now [OF ag] assms(2,8) by (intro wait_loop_answer) simp_all
  then show ?thesis
    using w1 w2 after_trans [OF on_socket_after [OF ag]] by (auto simp: waitResponse_def millis_def)
qed

theorem waitResponse_data_notice_witness:
  "\<exists>g'. waitResponse 1000 [] (default_rs gsm_ok) (sample_gsm (gsm_nl @ ''+CIPRXGET: 1,0'' @ gsm_nl @ ''OK'' @ gsm_nl)) =
       (1, gsm_ok, g') \<and>
     after 1 [] (on_socket 0 (\<lambda>cl. cl\<lparr>cl_got_data := True\<rparr>)
       (sample_gsm (gsm_nl @ ''+CIPRXGET: 1,0'' @ gsm_nl @ ''OK'' @ gsm_nl))) g'"
proof -
  have n: "str_toInt (''0'' @ [CHR 0x0D]) = 0" by code_simp
  have "\<exists>g'. waitResponse 1000 [] (default_rs gsm_ok) (sample_gsm (gsm_nl @ ''+CIPRXGET: 1,0'' @ gsm_nl @ ''OK'' @ gsm_nl)) =
       (1, gsm_ok, g') \<and>
     after 1 [] (on_socket (str_toInt (''0'' @ [CHR 0x0D])) (\<lambda>cl. cl\<lparr>cl_got_data := True\<rparr>)
       (sample_gsm (gsm_nl @ ''+CIPRXGET: 1,0'' @ gsm_nl @ ''OK'' @ gsm_nl))) g'"
  proof (rule waitResponse_data_notice [where s = urc_ciprxget and m = "'' 1''"])
    have "urc_ciprxget @ '' 1'' @ '','' @ (''0'' @ [CHR 0x0D]) @ [CHR 0x0A] @ gsm_ok =
        gsm_nl @ ''+CIPRXGET: 1,0'' @ gsm_nl @ ''OK'' @ gsm_nl" by code_simp
    then show "incoming 1 (urc_ciprxget @ '' 1'' @ '','' @ (''0'' @ [CHR 0x0D]) @ [CHR 0x0A] @ gsm_ok) []
        (sample_gsm (gsm_nl @ ''+CIPRXGET: 1,0'' @ gsm_nl @ ''OK'' @ gsm_nl))"
      using incoming_sample by metis
    show "interrupts (default_rs gsm_ok) urc_ciprxget urc_ciprxget" by code_simp
    show "str_toInt '' 1'' = 1" by code_simp
    show "answers (default_rs gsm_ok) 1 gsm_ok" by code_simp
  qed simp_all
  then show ?thesis unfolding n .
qed

text \<open>Likewise for the notice that a connection is closed, which clears \<open>sock_connected\<close>.\<close>

theorem waitResponse_closed_notice:
  assumes "incoming T (s @ s2) rest g" and "T < w_now g + unat timeout"
    and "interrupts rs urc_closed s" and "answers rs i s2"
  shows "\<exists>g'. waitResponse timeout [] rs g = (i, s2, g') \<and>
    after T rest (on_socket (closed_mux s) (\<lambda>cl. cl\<lparr>cl_connected := False\<rparr>) g) g'"
proof -
  from wait_loop_interrupt [OF assms(1) order_refl assms(2,3)] obtain mid g1 h c where
    w1: "wait_loop timeout (of_nat (w_now g)) rs [] g = wait_loop timeout (of_nat (w_now g)) rs (butlast s) g1"
    and rd: "stream_read g1 = (Some c, h)" and s: "s = butlast s @ [c]" and c: "c \<noteq> CHR 0x00"
    and a1: "after T mid g h" and inc: "incoming T s2 rest h" .
  let ?f = "\<lambda>cl. cl\<lparr>cl_connected := False\<rparr>"
  have e: "match_response (butlast s @ [c]) rs 1 = 0" "str_endsWith (butlast s @ [c]) urc_closed"
    using assms(3) unfolding s [symmetric] interrupts_def by simp_all
  then have "\<not> str_endsWith (butlast s @ [c]) urc_ciprxget"
    by (auto simp: str_endsWith_iff urc_closed_def urc_ciprxget_def gsm_nl_def)
  then have w2: "wait_loop timeout (of_nat (w_now g)) rs (butlast s) g1 =
      wait_loop timeout (of_nat (w_now g)) rs [] (on_socket (closed_mux s) ?f h)"
    using rd c e by (subst wait_loop.simps) (simp flip: s)
  have "\<exists>g'. wait_loop timeout (of_nat (w_now g)) rs [] (on_socket (closed_mux s) ?f h) = (i, s2, g') \<and>
      after T rest (on_socket (closed_mux s) ?f h) g'"
    using inc after_now [OF a1] assms(2,4) by (intro wait_loop_answer) simp_all
  then show ?thesis
    using w1 w2 after_trans [OF on_socket_after [OF a1]] by (auto simp: waitResponse_def millis_def)
qed


theorem waitResponse_closed_notice_witness:
  "\<exists>g'. waitResponse 1000 [] (default_rs gsm_ok) (sample_gsm (gsm_nl @ ''0, CLOSED'' @ gsm_nl @ gsm_ok)) =
       (1, gsm_ok, g') \<and>
     after 1 [] (on_socket 0 (\<lambda>cl. cl\<lparr>cl_connected := False\<rparr>)
       (sample_gsm (gsm_nl @ ''0, CLOSED'' @ gsm_nl @ gsm_ok))) g'"
proof -
  have n: "closed_mux (gsm_nl @ ''0, CLOSED'' @ gsm_nl) = 0"
    using closed_mux_notice [of "''0''" "[]"] by (simp, code_simp)
  have "\<exists>g'. waitResponse 1000 [] (default_rs gsm_ok) (sample_gsm (gsm_nl @ ''0, CLOSED'' @ gsm_nl @ gsm_ok)) =
       (1, gsm_ok, g') \<and>
     after 1 [] (on_socket (closed_mux (gsm_nl @ ''0, CLOSED'' @ gsm_nl)) (\<lambda>cl. cl\<lparr>cl_connected := False\<rparr>)
       (sample_gsm (gsm_nl @ ''0, CLOSED'' @ gsm_nl @ gsm_ok))) g'"
  proof (rule waitResponse_closed_notice)
    show "incoming 1 ((gsm_nl @ ''0, CLOSED'' @ gsm_nl) @ gsm_ok) []
        (sample_gsm (gsm_nl @ ''0, CLOSED'' @ gsm_nl @ gsm_ok))"
      using incoming_sample [of "gsm_nl @ ''0, CLOSED'' @ gsm_nl @ gsm_ok"] by (simp only: append_assoc)
    show "interrupts (default_rs gsm_ok) urc_closed (gsm_nl @ ''0, CLOSED'' @ gsm_nl)" by code_simp
    show "answers (default_rs gsm_ok) 1 gsm_ok" by code_simp
  qed simp_all
  then show ?thesis unfolding n .
qed

end
