(* ===== verification/SimModem.thy ===== *)
theory SimModem
  imports SimAt GsmCommon
begin

text \<open>
  The operations of class \<open>TinyGsmSim800\<close> (\<open>src/main/TinyGsmClientSIM800.h\<close>) up to the socket
  functions: control, SIM card, network, GPRS, calls, messages, location and battery. Every
  operation is the sequence of commands and waits of its source. An operation that waits
  without a limit has the result \<open>None\<close> when the modem stays silent; its loops over a timeout
  are partial functions, since the elapsed time is counted modulo \<open>2 ^ 32\<close> milliseconds.
\<close>

unbundle bit_operations_syntax

section \<open>Printing of arguments\<close>

definition print_long :: "int \<Rightarrow> string" where
  "print_long n =
     (if n < 0 then CHR ''-'' # print_number (nat (- n)) 10 else print_number (nat n) 10)"

definition print_bool :: "bool \<Rightarrow> string" where
  "print_bool b = print_long (if b then 1 else 0)"

text \<open>A \<open>const char*\<close> argument; a null pointer prints nothing.\<close>

definition print_cstr :: "string option \<Rightarrow> string" where
  "print_cstr s = (case s of None \<Rightarrow> [] | Some t \<Rightarrow> t)"

definition quote :: char where
  "quote = CHR 0x22"

text \<open>\<open>waitResponse(r1)\<close> with one text, and \<open>waitResponse()\<close>: one second each.\<close>

definition wait_text :: "string \<Rightarrow> gsm \<Rightarrow> nat \<times> gsm" where
  "wait_text r1 g = wait_for 1000 (default_rs r1) g"

definition wait1 :: "gsm \<Rightarrow> nat \<times> gsm" where
  "wait1 g = wait_ok 1000 g"

definition after_wait :: "gsm \<Rightarrow> gsm" where
  "after_wait g = snd (wait1 g)"

text \<open>A command whose result is whether the answer is \<open>OK\<close>.\<close>

definition command_ok :: "u32 \<Rightarrow> string \<Rightarrow> gsm \<Rightarrow> bool \<times> gsm" where
  "command_ok timeout cmd g = (case wait_ok timeout (sendAT cmd g) of (i, g) \<Rightarrow> (i = 1, g))"

section \<open>Basic functions\<close>

definition setBaud :: "u32 \<Rightarrow> gsm \<Rightarrow> gsm" where
  "setBaud baud g = sendAT (''+IPR='' @ print_number (unat baud) 10) g"

partial_function (option) testAT_loop :: "u32 \<Rightarrow> u32 \<Rightarrow> gsm \<Rightarrow> (bool \<times> gsm) option" where
  "testAT_loop timeout start g =
     (if millis g - start < timeout then
        (case wait_ok 200 (sendAT [] g) of (i, g) \<Rightarrow>
           if i = 1 then Some (True, delay 100 g) else testAT_loop timeout start (delay 100 g))
      else Some (False, g))"

declare testAT_loop.simps [code]

definition testAT :: "u32 \<Rightarrow> gsm \<Rightarrow> (bool \<times> gsm) option" where
  "testAT timeout g = testAT_loop timeout (millis g) g"

definition factoryDefault :: "gsm \<Rightarrow> bool \<times> gsm" where
  "factoryDefault g =
     (let g = after_wait (sendAT ''&FZE0&W'' g);
          g = after_wait (sendAT ''+IPR=0'' g);
          g = after_wait (sendAT ''+IFC=0,0'' g);
          g = after_wait (sendAT ''+ICF=3,3'' g);
          g = after_wait (sendAT ''+CSCLK=0'' g)
      in command_ok 1000 ''&W'' g)"

definition getModemInfo :: "gsm \<Rightarrow> string \<times> gsm" where
  "getModemInfo g =
     (case waitResponse 1000 [] (default_rs gsm_ok) (sendAT ''I'' g) of (i, res, g) \<Rightarrow>
        if i \<noteq> 1 then ([], g)
        else (str_trim (str_replace (str_replace res (gsm_nl @ ''OK'' @ gsm_nl) []) gsm_nl '' ''), g))"

definition hasSSL :: "gsm \<Rightarrow> bool \<times> gsm" where
  "hasSSL g =
     (case wait_text (gsm_nl @ ''+CIPSSL:'') (sendAT ''+CIPSSL=?'' g) of (i, g) \<Rightarrow>
        if i \<noteq> 1 then (False, g)
        else (case wait1 g of (i, g) \<Rightarrow> (i = 1, g)))"

section \<open>SIM card\<close>

datatype sim_status = SIM_ERROR | SIM_READY | SIM_LOCKED

definition simUnlock :: "string \<Rightarrow> gsm \<Rightarrow> bool \<times> gsm" where
  "simUnlock pin g = command_ok 1000 (''+CPIN='' @ [quote] @ pin @ [quote]) g"

text \<open>A query whose answer is the rest of the line after \<open>r\<close>.\<close>

definition query_line :: "u32 \<Rightarrow> string \<Rightarrow> string \<Rightarrow> gsm \<Rightarrow> string \<times> gsm" where
  "query_line timeout cmd r g =
     (case wait_for timeout (default_rs r) (sendAT cmd g) of (i, g) \<Rightarrow>
        if i \<noteq> 1 then ([], g)
        else (case readStringUntil (CHR 0x0A) g of (res, g) \<Rightarrow> (str_trim res, after_wait g)))"

definition getSimCCID :: "gsm \<Rightarrow> string \<times> gsm" where
  "getSimCCID g = query_line 1000 ''+ICCID'' (gsm_nl @ ''+ICCID:'') g"

definition getIMEI :: "gsm \<Rightarrow> string \<times> gsm" where
  "getIMEI g = query_line 1000 ''+GSN'' gsm_nl g"

definition sim_status_of :: "nat \<Rightarrow> sim_status" where
  "sim_status_of status =
     (if status = 2 \<or> status = 3 then SIM_LOCKED else if status = 1 then SIM_READY else SIM_ERROR)"

partial_function (option) getSimStatus_loop :: "u32 \<Rightarrow> u32 \<Rightarrow> gsm \<Rightarrow> (sim_status \<times> gsm) option" where
  "getSimStatus_loop timeout start g =
     (if millis g - start < timeout then
        (case wait_text (gsm_nl @ ''+CPIN:'') (sendAT ''+CPIN?'' g) of (i, g) \<Rightarrow>
           if i \<noteq> 1 then getSimStatus_loop timeout start (delay 1000 g)
           else (case wait_for 1000 [Some ''READY'', Some ''SIM PIN'', Some ''SIM PUK'', Some ''NOT INSERTED'', None] g
                 of (status, g) \<Rightarrow> Some (sim_status_of status, after_wait g)))
      else Some (SIM_ERROR, g))"

declare getSimStatus_loop.simps [code]

definition getSimStatus :: "u32 \<Rightarrow> gsm \<Rightarrow> (sim_status \<times> gsm) option" where
  "getSimStatus timeout g = getSimStatus_loop timeout (millis g) g"

text \<open>\<open>init\<close>, with the default timeouts of ten seconds, and \<open>restart\<close>.\<close>

definition init :: "gsm \<Rightarrow> (bool \<times> gsm) option" where
  "init g =
     (case testAT 10000 g of
        None \<Rightarrow> None
      | Some (ok, g) \<Rightarrow>
          if \<not> ok then Some (False, g)
          else (case command_ok 1000 ''E0'' (after_wait (sendAT ''&FZ'' g)) of (ok, g) \<Rightarrow>
                  if \<not> ok then Some (False, g)
                  else map_option (\<lambda>(s, g). (True, g)) (getSimStatus 10000 g)))"

definition restart :: "gsm \<Rightarrow> (bool \<times> gsm) option" where
  "restart g =
     (case testAT 10000 g of
        None \<Rightarrow> None
      | Some (ok, g) \<Rightarrow>
          if \<not> ok then Some (False, g)
          else (case command_ok 10000 ''+CFUN=0'' g of (ok, g) \<Rightarrow>
            if \<not> ok then Some (False, g)
            else (case command_ok 10000 ''+CFUN=1,1'' g of (ok, g) \<Rightarrow>
              if \<not> ok then Some (False, g) else init (delay 3000 g))))"

section \<open>Power\<close>

definition poweroff :: "gsm \<Rightarrow> bool \<times> gsm" where
  "poweroff g = (case wait_text ''NORMAL POWER DOWN'' (sendAT ''+CPOWD=1'' g) of (i, g) \<Rightarrow> (i = 1, g))"

definition radioOff :: "gsm \<Rightarrow> bool \<times> gsm" where
  "radioOff g =
     (case command_ok 10000 ''+CFUN=0'' g of (ok, g) \<Rightarrow>
        if \<not> ok then (False, g) else (True, delay 3000 g))"

definition sleepEnable :: "bool \<Rightarrow> gsm \<Rightarrow> bool \<times> gsm" where
  "sleepEnable enable g = command_ok 1000 (''+CSCLK='' @ print_bool enable) g"

section \<open>Network\<close>

text \<open>\<open>RegStatus\<close> is kept as the integer the modem sends; these are the enumerated values.\<close>

definition REG_OK_HOME :: int where
  "REG_OK_HOME = 1"

definition REG_UNKNOWN :: int where
  "REG_UNKNOWN = 4"

definition REG_OK_ROAMING :: int where
  "REG_OK_ROAMING = 5"

definition getRegistrationStatus :: "gsm \<Rightarrow> (int \<times> gsm) option" where
  "getRegistrationStatus g =
     (case wait_text (gsm_nl @ ''+CREG:'') (sendAT ''+CREG?'' g) of (i, g) \<Rightarrow>
        if i \<noteq> 1 then Some (REG_UNKNOWN, g)
        else (case streamSkipUntil (CHR '','') g of
                None \<Rightarrow> None
              | Some g \<Rightarrow>
                  (case readStringUntil (CHR 0x0A) g of (s, g) \<Rightarrow> Some (str_toInt s, after_wait g))))"

definition getOperator :: "gsm \<Rightarrow> (string \<times> gsm) option" where
  "getOperator g =
     (case wait_text (gsm_nl @ ''+COPS:'') (sendAT ''+COPS?'' g) of (i, g) \<Rightarrow>
        if i \<noteq> 1 then Some ([], g)
        else (case streamSkipUntil quote g of
                None \<Rightarrow> None
              | Some g \<Rightarrow> (case readStringUntil quote g of (res, g) \<Rightarrow> Some (res, after_wait g))))"

definition getSignalQuality :: "gsm \<Rightarrow> int \<times> gsm" where
  "getSignalQuality g =
     (case wait_text (gsm_nl @ ''+CSQ:'') (sendAT ''+CSQ'' g) of (i, g) \<Rightarrow>
        if i \<noteq> 1 then (99, g)
        else (case readStringUntil (CHR '','') g of (s, g) \<Rightarrow> (str_toInt s, after_wait g)))"

definition isNetworkConnected :: "gsm \<Rightarrow> (bool \<times> gsm) option" where
  "isNetworkConnected g =
     map_option (\<lambda>(s, g). (s = REG_OK_HOME \<or> s = REG_OK_ROAMING, g)) (getRegistrationStatus g)"

partial_function (option) waitForNetwork_loop :: "u32 \<Rightarrow> u32 \<Rightarrow> gsm \<Rightarrow> (bool \<times> gsm) option" where
  "waitForNetwork_loop timeout start g =
     (if millis g - start < timeout then
        (case isNetworkConnected g of
           None \<Rightarrow> None
         | Some (ok, g) \<Rightarrow>
             if ok then Some (True, g) else waitForNetwork_loop timeout start (delay 250 g))
      else Some (False, g))"

declare waitForNetwork_loop.simps [code]

definition waitForNetwork :: "u32 \<Rightarrow> gsm \<Rightarrow> (bool \<times> gsm) option" where
  "waitForNetwork timeout g = waitForNetwork_loop timeout (millis g) g"

section \<open>GPRS\<close>

definition gprsConnect :: "string \<Rightarrow> string option \<Rightarrow> string option \<Rightarrow> gsm \<Rightarrow> bool \<times> gsm" where
  "gprsConnect apn user pwd g =
     (case command_ok 1000 ''+CIPMUX=1'' g of (ok, g) \<Rightarrow>
        if \<not> ok then (False, g)
        else
          let g = delay 1000 (sendAT ''+CIPQSEND=1'' g);
              g = delay 1000 (sendAT ''+CIPRXGET=1'' g);
              g = delay 1000 (sendAT (''+CSTT='' @ [quote] @ apn @ [quote, CHR '','', quote] @ print_cstr user @
                    [quote, CHR '','', quote] @ print_cstr pwd @ [quote]) g);
              g = delay 3000 (sendAT ''+CIICR'' g);
              g = delay 3000 (sendAT ''+CIFSR;E0'' g);
              g = delay 3000 (sendAT (''+CDNSCFG='' @ [quote] @ ''8.8.8.8'' @ [quote, CHR '','', quote] @
                    ''8.8.4.4'' @ [quote]) g)
          in (True, g))"

definition gprsDisconnect :: "gsm \<Rightarrow> bool \<times> gsm" where
  "gprsDisconnect g =
     (case command_ok 60000 ''+CIPSHUT'' g of (ok, g) \<Rightarrow>
        if \<not> ok then (False, g) else command_ok 60000 ''+CGATT=0'' g)"

definition isGprsConnected :: "gsm \<Rightarrow> bool \<times> gsm" where
  "isGprsConnected g =
     (case wait_text (gsm_nl @ ''+CGATT:'') (sendAT ''+CGATT?'' g) of (i, g) \<Rightarrow>
        if i \<noteq> 1 then (False, g)
        else (case readStringUntil (CHR 0x0A) g of (s, g) \<Rightarrow>
          let g = after_wait g
          in if str_toInt s \<noteq> 1 then (False, g) else command_ok 1000 ''+CIFSR;E0'' g))"

definition getLocalIP :: "gsm \<Rightarrow> string \<times> gsm" where
  "getLocalIP g =
     (case waitResponse 10000 [] (default_rs gsm_ok) (sendAT ''+CIFSR;E0'' g) of (i, res, g) \<Rightarrow>
        if i \<noteq> 1 then ([], g)
        else (str_trim (str_replace (str_replace res (gsm_nl @ ''OK'' @ gsm_nl) []) gsm_nl []), g))"

definition localIP :: "gsm \<Rightarrow> (ip_address \<times> gsm) option" where
  "localIP g =
     (case getLocalIP g of (s, g) \<Rightarrow> map_option (\<lambda>ip. (ip, g)) (TinyGsmIpFromString s))"

section \<open>Calls\<close>

definition setGsmBusy :: "bool \<Rightarrow> gsm \<Rightarrow> bool \<times> gsm" where
  "setGsmBusy busy g = command_ok 1000 (''+GSMBUSY='' @ print_long (if busy then 1 else 0)) g"

definition callAnswer :: "gsm \<Rightarrow> bool \<times> gsm" where
  "callAnswer g = command_ok 1000 ''A'' g"

definition callNumber :: "string \<Rightarrow> gsm \<Rightarrow> bool \<times> gsm" where
  "callNumber number g =
     (let g = (if number = ''last'' then sendAT ''DL'' g else sendAT (''D'' @ number @ '';'') g)
      in case wait_for 60000 [Some gsm_ok, Some (''BUSY'' @ gsm_nl), Some (''NO ANSWER'' @ gsm_nl),
             Some (''NO CARRIER'' @ gsm_nl), None] g of (status, g) \<Rightarrow> (status = 1, g))"

definition callHangup :: "gsm \<Rightarrow> bool \<times> gsm" where
  "callHangup g = command_ok 1000 ''H'' g"

definition dtmfSend :: "char \<Rightarrow> int \<Rightarrow> gsm \<Rightarrow> bool \<times> gsm" where
  "dtmfSend cmd duration_ms g =
     (let d = (if duration_ms < 100 then 100 else if duration_ms > 1000 then 1000 else duration_ms);
          g = after_wait (sendAT (''+VTD='' @ print_long (d div 100)) g)
      in command_ok 10000 (''+VTS='' @ [cmd]) g)"

section \<open>Messages\<close>

definition sendUSSD :: "string \<Rightarrow> gsm \<Rightarrow> string \<times> gsm" where
  "sendUSSD code g =
     (let g = after_wait (sendAT ''+CMGF=1'' g);
          g = after_wait (sendAT (''+CSCS='' @ [quote] @ ''HEX'' @ [quote]) g)
      in case command_ok 1000 (''+CUSD=1,'' @ [quote] @ code @ [quote]) g of (ok, g) \<Rightarrow>
        if \<not> ok then ([], g)
        else (case wait_for 10000 (default_rs (gsm_nl @ ''+CUSD:'')) g of (i, g) \<Rightarrow>
          if i \<noteq> 1 then ([], g)
          else
            let g = snd (readStringUntil quote g);
                (hex, g) = readStringUntil quote g;
                g = snd (readStringUntil (CHR '','') g);
                (s, g) = readStringUntil (CHR 0x0A) g;
                dcs = str_toInt s
            in if dcs = 15 then (TinyGsmDecodeHex8bit hex, g)
               else if dcs = 72 then (TinyGsmDecodeHex16bit hex, g)
               else (hex, g)))"

text \<open>\<open>stream.print(text); stream.write((char)0x1A)\<close>.\<close>

definition send_text :: "string \<Rightarrow> gsm \<Rightarrow> gsm" where
  "send_text text g = stream_print [CHR 0x1A] (stream_print text g)"

definition sendSMS :: "string \<Rightarrow> string \<Rightarrow> gsm \<Rightarrow> bool \<times> gsm" where
  "sendSMS number text g =
     (let g = after_wait (sendAT ''+CMGF=1'' g);
          g = after_wait (sendAT (''+CSCS='' @ [quote] @ ''GSM'' @ [quote]) g)
      in case wait_text ''>'' (sendAT (''+CMGS='' @ [quote] @ number @ [quote]) g) of (i, g) \<Rightarrow>
        if i \<noteq> 1 then (False, g)
        else (case wait_ok 60000 (send_text text g) of (i, g) \<Rightarrow> (i = 1, g)))"

text \<open>A UTF-16 unit as the four hexadecimal digits the loop prints.\<close>

definition hex_byte :: "u8 \<Rightarrow> string" where
  "hex_byte c = (if c < 0x10 then ''0'' else []) @ print_number (unat c) 16"

definition hex_unit :: "u16 \<Rightarrow> string" where
  "hex_unit t = hex_byte (ucast (drop_bit 8 t)) @ hex_byte (ucast (t AND 0xFF))"

definition sendSMS_UTF16 :: "string \<Rightarrow> u16 list \<Rightarrow> gsm \<Rightarrow> bool \<times> gsm" where
  "sendSMS_UTF16 number text g =
     (let g = after_wait (sendAT ''+CMGF=1'' g);
          g = after_wait (sendAT (''+CSCS='' @ [quote] @ ''HEX'' @ [quote]) g);
          g = after_wait (sendAT ''+CSMP=17,167,0,8'' g)
      in case wait_text ''>'' (sendAT (''+CMGS='' @ [quote] @ number @ [quote]) g) of (i, g) \<Rightarrow>
        if i \<noteq> 1 then (False, g)
        else (case wait_ok 60000 (send_text (concat (map hex_unit text)) g) of (i, g) \<Rightarrow> (i = 1, g)))"

section \<open>Location and battery\<close>

definition getGsmLocation :: "gsm \<Rightarrow> string \<times> gsm" where
  "getGsmLocation g = query_line 10000 ''+CIPGSMLOC=1,1'' (gsm_nl @ ''+CIPGSMLOC:'') g"

definition getBattVoltage :: "gsm \<Rightarrow> (u16 \<times> gsm) option" where
  "getBattVoltage g =
     (case wait_text (gsm_nl @ ''+CBC:'') (sendAT ''+CBC'' g) of (i, g) \<Rightarrow>
        if i \<noteq> 1 then Some (0, g)
        else (case Option.bind (streamSkipUntil (CHR '','') g) (streamSkipUntil (CHR '','')) of
                None \<Rightarrow> None
              | Some g \<Rightarrow>
                  (case readStringUntil (CHR '','') g of (s, g) \<Rightarrow> Some (of_int (str_toInt s), after_wait g))))"

definition getBattPercent :: "gsm \<Rightarrow> int \<times> gsm" where
  "getBattPercent g =
     (case wait_text (gsm_nl @ ''+CBC:'') (sendAT ''+CBC'' g) of (i, g) \<Rightarrow>
        if i \<noteq> 1 then (0, g)
        else (case readStringUntil (CHR '','') (snd (readStringUntil (CHR '','') g)) of
                (s, g) \<Rightarrow> (str_toInt s, after_wait g)))"


section \<open>What every operation keeps\<close>

text \<open>
  \<open>talks g g'\<close>: time has passed, a prefix of the line was consumed, something was written after
  what was written before, and the sockets only got flags.
\<close>

definition talks :: "gsm \<Rightarrow> gsm \<Rightarrow> bool" where
  "talks g g' \<longleftrightarrow> line_le g g' \<and> (\<exists>out. w_out g' = w_out g @ out) \<and> sockets_le g g'"

lemma talks_refl [simp]: "talks g g"
  by (simp add: talks_def)

lemma talks_trans: "talks a b \<Longrightarrow> talks b c \<Longrightarrow> talks a c"
  unfolding talks_def by (metis append.assoc line_le_trans sockets_le_trans)

lemma looks_talks: "looks g g' \<Longrightarrow> talks g g'"
  by (simp add: looks_def talks_def)

lemma talks_print: "talks g h \<Longrightarrow> talks g (stream_print s h)"
  by (rule talks_trans) (auto simp: talks_def stream_print_def line_le_def intro!: sockets_le_same)

lemma talks_sendAT: "talks g h \<Longrightarrow> talks g (sendAT cmd h)"
  by (simp add: sendAT_def talks_print)

lemma talks_delay: "talks g h \<Longrightarrow> talks g (delay ms h)"
  by (rule talks_trans) (auto simp: talks_def delay_def line_le_def intro!: sockets_le_same)

lemma talks_waitResponse: "talks g h \<Longrightarrow> talks g (snd (snd (waitResponse t d rs h)))"
  using waitResponse_result [of t h rs d] looks_talks talks_trans
  by (auto simp: wait_result_def case_prod_beta)

lemma talks_wait_for: "talks g h \<Longrightarrow> talks g (snd (wait_for t rs h))"
  by (simp add: wait_for_def case_prod_beta talks_waitResponse)

lemma talks_wait_text: "talks g h \<Longrightarrow> talks g (snd (wait_text r h))"
  by (simp add: wait_text_def talks_wait_for)

lemma talks_wait_ok: "talks g h \<Longrightarrow> talks g (snd (wait_ok t h))"
  by (simp add: wait_ok_def talks_wait_for)

lemma talks_wait1: "talks g h \<Longrightarrow> talks g (snd (wait1 h))"
  by (simp add: wait1_def talks_wait_ok)

lemma talks_after_wait: "talks g h \<Longrightarrow> talks g (after_wait h)"
  by (simp add: after_wait_def talks_wait1)

lemma talks_command: "talks g h \<Longrightarrow> talks g (snd (command_ok t cmd h))"
  by (simp add: command_ok_def case_prod_beta talks_wait_ok talks_sendAT)

lemma talks_read: "talks g h \<Longrightarrow> talks g (snd (readStringUntil c h))"
  using readStringUntil_reads_only reads_only_looks looks_talks talks_trans by (metis prod.collapse)

lemma streamSkipUntil_reads_only: "streamSkipUntil c w = Some w' \<Longrightarrow> reads_only w w'"
proof (induction c w arbitrary: w' rule: streamSkipUntil.induct)
  case (1 c w)
  obtain w1 where w1: "wait_available w = Some w1"
    using "1.prems" by (subst (asm) streamSkipUntil.simps) (auto split: option.splits)
  then have r1: "reads_only w w1"
    by (auto simp: wait_available_def reads_only_def line_le_def split: list.splits)
  obtain b w2 where b: "stream_read w1 = (Some b, w2)"
    using "1.prems" w1 by (subst (asm) streamSkipUntil.simps) (auto split: option.splits prod.splits)
  then have r2: "reads_only w w2" using r1 reads_only_trans stream_read_reads_only by blast
  show ?case
  proof (cases "b = c")
    case True
    then show ?thesis using "1.prems" w1 b r2 by (subst (asm) streamSkipUntil.simps) simp
  next
    case False
    then have "streamSkipUntil c w2 = Some w'"
      using "1.prems" w1 b by (subst (asm) streamSkipUntil.simps) simp
    then show ?thesis using "1.IH" [OF w1 b [symmetric] refl False] r2 reads_only_trans by blast
  qed
qed

lemma talks_skip: "streamSkipUntil c h = Some h' \<Longrightarrow> talks g h \<Longrightarrow> talks g h'"
  using streamSkipUntil_reads_only reads_only_looks looks_talks talks_trans by blast

lemmas talks_steps = talks_sendAT talks_print talks_delay talks_waitResponse talks_wait_for talks_wait_text
  talks_wait_ok talks_wait1 talks_after_wait talks_command talks_read

text \<open>The loops over a timeout.\<close>

lemma testAT_loop_talks:
  assumes "testAT_loop timeout start g = Some r"
  shows "talks g (snd r)"
proof (rule testAT_loop.raw_induct [where P = "\<lambda>timeout start g r. talks g (snd r)", OF _ assms])
  fix loop timeout start g r
  assume 1: "\<And>timeout start g r. loop timeout start g = Some r \<Longrightarrow> talks g (snd r)"
    "(if millis g - start < timeout then
        (case wait_ok 200 (sendAT [] g) of (i, g) \<Rightarrow>
           if i = 1 then Some (True, delay 100 g) else loop timeout start (delay 100 g))
      else Some (False, g)) = Some r"
  let ?h = "delay 100 (snd (wait_ok 200 (sendAT [] g)))"
  have "talks g ?h" by (intro talks_steps talks_refl)
  moreover have "talks g (snd r)" if "talks ?h (snd r)" using calculation that by (rule talks_trans)
  ultimately show "talks g (snd r)" using 1 by (auto simp: case_prod_beta split: if_splits)
qed

lemma getSimStatus_loop_talks:
  assumes "getSimStatus_loop timeout start g = Some r"
  shows "talks g (snd r)"
proof (rule getSimStatus_loop.raw_induct [where P = "\<lambda>timeout start g r. talks g (snd r)", OF _ assms])
  fix loop timeout start g r
  assume 1: "\<And>timeout start g r. loop timeout start g = Some r \<Longrightarrow> talks g (snd r)"
    "(if millis g - start < timeout then
        (case wait_text (gsm_nl @ ''+CPIN:'') (sendAT ''+CPIN?'' g) of (i, g) \<Rightarrow>
           if i \<noteq> 1 then loop timeout start (delay 1000 g)
           else (case wait_for 1000 [Some ''READY'', Some ''SIM PIN'', Some ''SIM PUK'', Some ''NOT INSERTED'', None] g
                 of (status, g) \<Rightarrow> Some (sim_status_of status, after_wait g)))
      else Some (SIM_ERROR, g)) = Some r"
  let ?h = "delay 1000 (snd (wait_text (gsm_nl @ ''+CPIN:'') (sendAT ''+CPIN?'' g)))"
  have "talks g ?h" by (intro talks_steps talks_refl)
  then have "talks g (snd r)" if "talks ?h (snd r)" using that by (rule talks_trans)
  then show "talks g (snd r)" using 1 by (auto simp: case_prod_beta split: if_splits intro!: talks_steps)
qed

lemma isNetworkConnected_talks:
  "isNetworkConnected h = Some r \<Longrightarrow> talks g h \<Longrightarrow> talks g (snd r)"
  by (auto simp: isNetworkConnected_def getRegistrationStatus_def case_prod_beta
      split: if_splits option.splits intro!: talks_steps elim!: talks_skip)

lemma waitForNetwork_loop_talks:
  assumes "waitForNetwork_loop timeout start g = Some r"
  shows "talks g (snd r)"
proof (rule waitForNetwork_loop.raw_induct [where P = "\<lambda>timeout start g r. talks g (snd r)", OF _ assms])
  fix loop timeout start g r
  assume 1: "\<And>timeout start g r. loop timeout start g = Some r \<Longrightarrow> talks g (snd r)"
    "(if millis g - start < timeout then
        (case isNetworkConnected g of
           None \<Rightarrow> None
         | Some (ok, g) \<Rightarrow>
             if ok then Some (True, g) else loop timeout start (delay 250 g))
      else Some (False, g)) = Some r"
  show "talks g (snd r)"
  proof (cases "isNetworkConnected g")
    case None
    then show ?thesis using 1 by (auto split: if_splits)
  next
    case (Some x)
    then have "talks g (snd x)" by (rule isNetworkConnected_talks) simp
    moreover have "talks g (snd r)" if "talks (delay 250 (snd x)) (snd r)"
      using talks_delay [OF calculation] that by (rule talks_trans)
    ultimately show ?thesis using 1 Some by (auto simp: case_prod_beta split: if_splits)
  qed
qed

lemma testAT_talks: "testAT t h = Some (r, h') \<Longrightarrow> talks g h \<Longrightarrow> talks g h'"
  unfolding testAT_def using testAT_loop_talks talks_trans by fastforce

lemma getSimStatus_talks: "getSimStatus t h = Some (r, h') \<Longrightarrow> talks g h \<Longrightarrow> talks g h'"
  unfolding getSimStatus_def using getSimStatus_loop_talks talks_trans by fastforce

lemma waitForNetwork_talks: "waitForNetwork t h = Some (r, h') \<Longrightarrow> talks g h \<Longrightarrow> talks g h'"
  unfolding waitForNetwork_def using waitForNetwork_loop_talks talks_trans by fastforce

lemma init_talks: "init h = Some (r, h') \<Longrightarrow> talks g h \<Longrightarrow> talks g h'"
  by (auto simp: init_def case_prod_beta split: if_splits option.splits
      intro!: talks_steps elim!: testAT_talks getSimStatus_talks)

lemma restart_talks: "restart h = Some (r, h') \<Longrightarrow> talks g h \<Longrightarrow> talks g h'"
  by (auto simp: restart_def case_prod_beta split: if_splits option.splits
      intro!: talks_steps elim!: testAT_talks init_talks)


section \<open>Commands and their answers\<close>

lemma incoming_sendAT [simp]: "incoming T s rest (sendAT cmd g) = incoming T s rest g"
  by (simp add: sendAT_def incoming_sent)

lemma sendAT_now [simp]: "w_now (sendAT cmd g) = w_now g"
  by (simp add: sendAT_def stream_print_def)

lemma wait_ok_incoming:
  assumes "incoming T (s @ b) rest g" and "T < w_now g + unat timeout" and "answers (default_rs gsm_ok) i s"
  obtains mid g' where "wait_ok timeout g = (i, g')" "after T mid g g'" "incoming T b rest g'"
proof -
  from wait_for_incoming [OF assms] obtain mid g' where
    w: "wait_for timeout (default_rs gsm_ok) g = (i, g')" "after T mid g g'" "incoming T b rest g'" .
  from w(1) have "wait_ok timeout g = (i, g')" by (simp add: wait_ok_def)
  from this w(2,3) show thesis by (rule that)
qed

lemma wait_text_incoming:
  assumes "incoming T (s @ b) rest g" and "T < w_now g + 1000" and "answers (default_rs r) i s"
  obtains mid g' where "wait_text r g = (i, g')" "after T mid g g'" "incoming T b rest g'"
proof -
  have "T < w_now g + unat (1000 :: u32)" using assms(2) by simp
  from wait_for_incoming [OF assms(1) this assms(3)] obtain mid g' where
    w: "wait_for 1000 (default_rs r) g = (i, g')" "after T mid g g'" "incoming T b rest g'" .
  from w(1) have "wait_text r g = (i, g')" by (simp add: wait_text_def)
  from this w(2,3) show thesis by (rule that)
qed

lemma command_ok_incoming:
  assumes "incoming T (s @ b) rest g" and "T < w_now g + unat timeout" and "answers (default_rs gsm_ok) i s"
  obtains mid g' where "command_ok timeout cmd g = (i = 1, g')" "after T mid (sendAT cmd g) g'"
    "incoming T b rest g'"
proof -
  have "incoming T (s @ b) rest (sendAT cmd g)" "T < w_now (sendAT cmd g) + unat timeout"
    using assms by simp_all
  from wait_ok_incoming [OF this assms(3)] obtain mid g' where
    w: "wait_ok timeout (sendAT cmd g) = (i, g')" "after T mid (sendAT cmd g) g'" "incoming T b rest g'" .
  from w(1) have "command_ok timeout cmd g = (i = 1, g')" by (simp add: command_ok_def)
  from this w(2,3) show thesis by (rule that)
qed

lemma after_wait_incoming:
  assumes "incoming T (s @ b) rest g" and "T < w_now g + 1000" and "answers (default_rs gsm_ok) i s"
  obtains mid where "after T mid g (after_wait g)" "incoming T b rest (after_wait g)"
proof -
  have "T < w_now g + unat (1000 :: u32)" using assms(2) by simp
  from wait_ok_incoming [OF assms(1) this assms(3)] obtain mid g' where
    w: "wait_ok 1000 g = (i, g')" "after T mid g g'" "incoming T b rest g'" .
  from w(1) have "after_wait g = g'" by (simp add: after_wait_def wait1_def)
  with w(2,3) show thesis using that [of mid] by simp
qed

lemma after_wait_last:
  assumes "incoming T s rest g" and "T < w_now g + 1000" and "answers (default_rs gsm_ok) i s"
  shows "after T rest g (after_wait g)"
proof -
  have "incoming T (s @ []) rest g" using assms(1) by simp
  from after_wait_incoming [OF this assms(2,3)] obtain mid where
    a: "after T mid g (after_wait g)" "incoming T [] rest (after_wait g)" .
  then show ?thesis by (auto simp: incoming_Nil after_def)
qed

text \<open>A field after the marker of an answer: the pattern of the numeric queries.\<close>

lemma field_answer:
  assumes "incoming T (s1 @ q @ c # s2) rest g" and "T < w_now g + 1000"
    and "answers (default_rs r) 1 s1" and "c \<notin> set q"
  obtains g1 g2 mid where "wait_text r (sendAT cmd g) = (1, g1)" "readStringUntil c g1 = (q, g2)"
    "after T mid (sendAT cmd g) g2" "incoming T s2 rest g2" "T < w_now g2 + 1000"
    "incoming T (q @ c # s2) rest g1" "T < w_now g1 + 1000"
proof -
  have "incoming T (s1 @ (q @ c # s2)) rest (sendAT cmd g)" "T < w_now (sendAT cmd g) + 1000"
    using assms(1,2) by simp_all
  from wait_text_incoming [OF this assms(3)] obtain m1 g1 where
    w: "wait_text r (sendAT cmd g) = (1, g1)" "after T m1 (sendAT cmd g) g1" "incoming T (q @ c # s2) rest g1" .
  have t1: "T < w_now g1 + 1000" using after_now [OF w(2)] assms(2) by simp
  then have "T \<le> w_now g1 + 1000" by simp
  from readStringUntil_incoming [OF w(3) assms(4) this] obtain m2 g2 where
    r: "readStringUntil c g1 = (q, g2)" "after T m2 g1 g2" "incoming T s2 rest g2" .
  show ?thesis using that [OF w(1) r(1) after_trans [OF w(2) r(2)] r(3) _ w(3) t1] after_now [OF r(2)] t1
    by simp
qed

text \<open>The signal quality is the number before the comma of the modem's answer, whatever precedes
  the answer on the line (an echo, for instance), if the answer comes within a second.
\<close>

theorem getSignalQuality_answer:
  assumes "incoming T (s1 @ q @ CHR '','' # s2) rest g" and "T < w_now g + 1000"
    and "answers (default_rs (gsm_nl @ ''+CSQ:'')) 1 s1" and "CHR '','' \<notin> set q"
    and "answers (default_rs gsm_ok) i s2"
  shows "\<exists>g'. getSignalQuality g = (str_toInt q, g') \<and> after T rest (sendAT ''+CSQ'' g) g'"
proof -
  from field_answer [OF assms(1-4), of "''+CSQ''"] obtain g1 g2 mid where
    w: "wait_text (gsm_nl @ ''+CSQ:'') (sendAT ''+CSQ'' g) = (1, g1)" "readStringUntil CHR '','' g1 = (q, g2)"
    "after T mid (sendAT ''+CSQ'' g) g2" "incoming T s2 rest g2" "T < w_now g2 + 1000" by blast
  then have "getSignalQuality g = (str_toInt q, after_wait g2)" by (simp add: getSignalQuality_def)
  then show ?thesis using after_trans [OF w(3) after_wait_last [OF w(4,5) assms(5)]] by blast
qed

theorem getSignalQuality_answer_witness:
  "\<exists>g'. getSignalQuality (sample_gsm (''AT+CSQ'' @ gsm_nl @ gsm_nl @ ''+CSQ: 17,0'' @ gsm_nl @ gsm_nl @ ''OK'' @ gsm_nl)) =
    (17, g')"
proof -
  let ?s1 = "''AT+CSQ'' @ gsm_nl @ gsm_nl @ ''+CSQ:''"
  let ?s2 = "''0'' @ gsm_nl @ gsm_nl @ ''OK'' @ gsm_nl"
  let ?g = "sample_gsm (?s1 @ '' 17'' @ CHR '','' # ?s2)"
  have "\<exists>g'. getSignalQuality ?g = (str_toInt '' 17'', g') \<and> after 1 [] (sendAT ''+CSQ'' ?g) g'"
  proof (rule getSignalQuality_answer [where ?s1.0 = ?s1 and ?s2.0 = ?s2])
    show "incoming 1 (?s1 @ '' 17'' @ CHR '','' # ?s2) [] ?g" by (rule incoming_sample)
    show "answers (default_rs (gsm_nl @ ''+CSQ:'')) 1 ?s1" by code_simp
    show "answers (default_rs gsm_ok) 1 ?s2" by code_simp
  qed simp_all
  moreover have "str_toInt '' 17'' = 17" by code_simp
  ultimately show ?thesis by auto
qed

end
