(* ===== verification/SimAnswers.thy ===== *)
theory SimAnswers
  imports SimModem
begin

text \<open>
  What the operations of the modem driver return when the modem answers: the answer is any text in
  which the marker the operation waits for appears, whatever precedes it, and it arrives within a
  second. Also what the operations write, and when the loops over a timeout return.
\<close>

section \<open>Queries\<close>

lemma streamSkip_incoming:
  assumes "incoming T (s @ c # b) rest w" and "c \<notin> set s"
  obtains mid w' where "streamSkipUntil c w = Some w'" "after T mid w w'" "incoming T b rest w'"
  using streamSkipUntil_incoming [OF assms] by blast

lemma getRegistrationStatus_answer:
  assumes "incoming T (s1 @ a @ CHR '','' # q @ CHR 0x0A # s2) rest g" and "T < w_now g + 1000"
    and "answers (default_rs (gsm_nl @ ''+CREG:'')) 1 s1" and "CHR '','' \<notin> set a" and "CHR 0x0A \<notin> set q"
    and "answers (default_rs gsm_ok) i s2"
  shows "\<exists>g'. getRegistrationStatus g = Some (str_toInt q, g') \<and> after T rest (sendAT ''+CREG?'' g) g'"
proof -
  let ?g = "sendAT ''+CREG?'' g"
  have "incoming T (s1 @ (a @ CHR '','' # q @ CHR 0x0A # s2)) rest ?g" "T < w_now ?g + 1000"
    using assms(1,2) by simp_all
  from wait_text_incoming [OF this assms(3)] obtain m1 g1 where
    w: "wait_text (gsm_nl @ ''+CREG:'') ?g = (1, g1)" "after T m1 ?g g1"
    "incoming T (a @ CHR '','' # q @ CHR 0x0A # s2) rest g1" .
  from streamSkip_incoming [OF w(3) assms(4)] obtain m2 g2 where
    k: "streamSkipUntil CHR '','' g1 = Some g2" "after T m2 g1 g2" "incoming T (q @ CHR 0x0A # s2) rest g2" .
  have a2: "after T m2 ?g g2" using w(2) k(2) by (rule after_trans)
  then have t2: "T \<le> w_now g2 + 1000" "T < w_now g2 + 1000" using after_now [OF a2] assms(2) by simp_all
  from readStringUntil_incoming [OF k(3) assms(5) t2(1)] obtain m3 g3 where
    r: "readStringUntil CHR 0x0A g2 = (q, g3)" "after T m3 g2 g3" "incoming T s2 rest g3" .
  have a3: "after T m3 ?g g3" using a2 r(2) by (rule after_trans)
  have "T < w_now g3 + 1000" using after_now [OF r(2)] t2 by simp
  then have "after T rest ?g (after_wait g3)"
    using after_trans [OF a3 after_wait_last [OF r(3) _ assms(6)]] by blast
  moreover have "getRegistrationStatus g = Some (str_toInt q, after_wait g3)"
    using w(1) k(1) r(1) by (simp add: getRegistrationStatus_def)
  ultimately show ?thesis by blast
qed

text \<open>The network counts as connected exactly when the status in the answer to \<open>+CREG?\<close> is 1 (home)
  or 5 (roaming).
\<close>

theorem isNetworkConnected_answer:
  assumes "incoming T (s1 @ a @ CHR '','' # print_number n 10 @ [CHR 0x0D] @ CHR 0x0A # s2) rest g"
    and "T < w_now g + 1000" and "n < 2 ^ 31"
    and "answers (default_rs (gsm_nl @ ''+CREG:'')) 1 s1" and "CHR '','' \<notin> set a"
    and "answers (default_rs gsm_ok) i s2"
  shows "\<exists>g'. isNetworkConnected g = Some (n = 1 \<or> n = 5, g') \<and> after T rest (sendAT ''+CREG?'' g) g'"
proof -
  let ?q = "print_number n 10 @ [CHR 0x0D]"
  have q: "str_toInt ?q = int n"
    using toInt_print_number [of "[]" n "[CHR 0x0D]"] assms(3) by simp
  have "incoming T (s1 @ a @ CHR '','' # ?q @ CHR 0x0A # s2) rest g" using assms(1) by simp
  moreover have "CHR 0x0A \<notin> set ?q" by simp
  ultimately obtain g' where "getRegistrationStatus g = Some (str_toInt ?q, g')"
    "after T rest (sendAT ''+CREG?'' g) g'"
    using getRegistrationStatus_answer [OF _ assms(2,4,5) _ assms(6)] by blast
  then show ?thesis unfolding q by (auto simp: isNetworkConnected_def REG_OK_HOME_def REG_OK_ROAMING_def)
qed

theorem isNetworkConnected_answer_witness:
  "\<exists>g'. isNetworkConnected (sample_gsm ((gsm_nl @ ''+CREG:'') @ '' 0'' @ CHR '','' # print_number 5 10 @
    [CHR 0x0D] @ CHR 0x0A # (gsm_nl @ gsm_ok))) = Some (True, g')"
proof -
  let ?s = "(gsm_nl @ ''+CREG:'') @ '' 0'' @ CHR '','' # print_number 5 10 @ [CHR 0x0D] @ CHR 0x0A # (gsm_nl @ gsm_ok)"
  have "\<exists>g'. isNetworkConnected (sample_gsm ?s) = Some ((5 :: nat) = 1 \<or> (5 :: nat) = 5, g') \<and>
      after 1 [] (sendAT ''+CREG?'' (sample_gsm ?s)) g'"
  proof (rule isNetworkConnected_answer [where a = "'' 0''"])
    show "answers (default_rs (gsm_nl @ ''+CREG:'')) 1 (gsm_nl @ ''+CREG:'')" by code_simp
    show "answers (default_rs gsm_ok) 1 (gsm_nl @ gsm_ok)" by code_simp
    show "incoming 1 ?s [] (sample_gsm ?s)" by (rule incoming_sample)
  qed simp_all
  then show ?thesis by auto
qed

text \<open>Reading to the end of a line that then stays silent: the text and a second of waiting.\<close>

lemma read_until_loop_all:
  assumes "incoming T s [] w" and "c \<notin> set s" and "T \<le> w_now w + 1000"
  shows "\<exists>w'. read_until_loop (Some c) ret w = (ret @ s, w') \<and> w_in w' = [] \<and> w_now w + 1000 \<le> w_now w' \<and>
    world.more w' = world.more w"
  using assms
proof (induction s arbitrary: ret w)
  case Nil
  then show ?case by (subst read_until_loop.simps) (simp add: incoming_Nil timedRead_eq)
next
  case (Cons b s)
  obtain t mid where t: "w_in w = (t, b) # mid" "t \<le> T"
    and inc: "incoming T s [] (w\<lparr>w_now := max t (w_now w), w_in := mid\<rparr>)"
    using Cons.prems(1) by (auto simp: incoming_Cons)
  let ?w = "w\<lparr>w_now := max t (w_now w), w_in := mid\<rparr>"
  have rd: "timedRead w = (Some b, ?w)" using t Cons.prems by (simp add: timedRead_eq)
  have "T \<le> w_now ?w + 1000" "c \<notin> set s" using Cons.prems by simp_all
  then obtain w' where w': "read_until_loop (Some c) (ret @ [b]) ?w = ((ret @ [b]) @ s, w')" "w_in w' = []"
    "w_now ?w + 1000 \<le> w_now w'" "world.more w' = world.more ?w"
    using Cons.IH [OF inc, of "ret @ [b]"] by blast
  have "read_until_loop (Some c) ret w = read_until_loop (Some c) (ret @ [b]) ?w"
    using rd Cons.prems(2) by (subst read_until_loop.simps) auto
  then show ?case using w' by (auto simp: max_def split: if_splits)
qed

lemma readStringUntil_all:
  assumes "incoming T s [] w" and "c \<notin> set s" and "T \<le> w_now w + 1000"
  obtains w' where "readStringUntil c w = (s, w')" "w_in w' = []" "w_now w + 1000 \<le> w_now w'"
  using read_until_loop_all [OF assms, of "[]"] by (auto simp: readStringUntil_def)

lemma wait_loop_silent:
  assumes "w_in g = []" and "n0 \<le> w_now g"
  shows "fst (wait_loop timeout (of_nat n0) rs data g) = 0"
  using assms
proof (induction timeout "of_nat n0 :: u32" rs data g rule: wait_loop.induct)
  case (1 timeout rs data g)
  have rd: "stream_read g = (None, g)" using "1.prems" by (simp add: stream_read_def)
  show ?case
  proof (cases "millis g - of_nat n0 < timeout")
    case True
    then have "wait_loop timeout (of_nat n0) rs data g = wait_loop timeout (of_nat n0) rs data (idle_poll g)"
      by (rule wait_loop_no_data(1) [OF rd])
    then show ?thesis using "1.hyps"(1) [OF rd [symmetric] refl True] "1.prems" by (simp add: idle_poll_def)
  next
    case False
    then show ?thesis by (simp add: wait_loop_no_data(2) [OF rd])
  qed
qed

lemma after_wait_silent:
  assumes "w_in g = []"
  shows "w_now g + 1000 \<le> w_now (after_wait g) \<and> w_in (after_wait g) = []"
proof -
  obtain i d g' where w: "waitResponse 1000 [] (default_rs gsm_ok) g = (i, d, g')" using prod_cases3 by blast
  have "i = 0" using wait_loop_silent [of g "w_now g" 1000 "default_rs gsm_ok" "[]"] assms w
    by (simp add: waitResponse_def millis_def)
  then have "w_now g + 1000 \<le> w_now g'" "line_le g g'"
    using waitResponse_result [of 1000 g "default_rs gsm_ok" "[]"] w by (auto simp: wait_result_def looks_def)
  moreover have "after_wait g = g'" by (simp add: after_wait_def wait1_def wait_ok_def wait_for_def w)
  ultimately show ?thesis using assms by (auto simp: line_le_def)
qed

text \<open>The battery voltage is read from the third field of the answer to \<open>+CBC\<close>, but with a terminator
  that this answer does not have: when nothing follows the field on the line, the result is the
  number, the operation swallows everything up to the end (the final \<open>OK\<close> included) and takes at
  least two seconds of waiting.
\<close>

theorem getBattVoltage_answer:
  assumes "incoming T (s1 @ a @ CHR '','' # b @ CHR '','' # print_number v 10 @ s2) [] g"
    and "T < w_now g + 1000" and "answers (default_rs (gsm_nl @ ''+CBC:'')) 1 s1"
    and "CHR '','' \<notin> set a" and "CHR '','' \<notin> set b" and "CHR '','' \<notin> set s2"
    and "v < 2 ^ 31" and "s2 = [] \<or> \<not> c_isdigit (hd s2) \<and> CHR 0x00 \<notin> set s2"
  shows "\<exists>g'. getBattVoltage g = Some (of_nat v, g') \<and> w_in g' = [] \<and> w_now g + 2000 \<le> w_now g'"
proof -
  let ?g = "sendAT ''+CBC'' g"
  let ?q = "print_number v 10 @ s2"
  have "incoming T (s1 @ (a @ CHR '','' # b @ CHR '','' # ?q)) [] ?g" "T < w_now ?g + 1000"
    using assms(1,2) by simp_all
  from wait_text_incoming [OF this assms(3)] obtain m1 g1 where
    w: "wait_text (gsm_nl @ ''+CBC:'') ?g = (1, g1)" "after T m1 ?g g1"
    "incoming T (a @ CHR '','' # b @ CHR '','' # ?q) [] g1" .
  from streamSkip_incoming [OF w(3) assms(4)] obtain m2 g2 where
    k2: "streamSkipUntil CHR '','' g1 = Some g2" "after T m2 g1 g2" "incoming T (b @ CHR '','' # ?q) [] g2" .
  from streamSkip_incoming [OF k2(3) assms(5)] obtain m3 g3 where
    k3: "streamSkipUntil CHR '','' g2 = Some g3" "after T m3 g2 g3" "incoming T ?q [] g3" .
  have a3: "after T m3 ?g g3" using w(2) k2(2) k3(2) after_trans by blast
  then have t3: "T \<le> w_now g3 + 1000" using after_now [OF a3] assms(2) by simp
  have "CHR '','' \<notin> set ?q" using assms(6) by simp
  from readStringUntil_all [OF k3(3) this t3] obtain g4 where
    r: "readStringUntil CHR '','' g3 = (?q, g4)" "w_in g4 = []" "w_now g3 + 1000 \<le> w_now g4" .
  have "str_toInt ?q = int v" using toInt_print_number [of "[]" v s2] assms(7,8) by simp
  then have "getBattVoltage g = Some (of_nat v, after_wait g4)"
    using w(1) k2(1) k3(1) r(1) by (simp add: getBattVoltage_def)
  moreover have "w_now g + 2000 \<le> w_now (after_wait g4)" "w_in (after_wait g4) = []"
    using after_wait_silent [OF r(2)] r(3) after_now [OF a3] by simp_all
  ultimately show ?thesis by blast
qed

theorem getBattVoltage_answer_witness:
  "\<exists>g'. getBattVoltage (sample_gsm ((gsm_nl @ ''+CBC:'') @ '' 0'' @ CHR '','' # ''75'' @ CHR '','' #
      print_number 3950 10 @ (gsm_nl @ gsm_nl @ gsm_ok))) = Some (3950, g') \<and> 2000 \<le> w_now g'"
proof -
  let ?s = "(gsm_nl @ ''+CBC:'') @ '' 0'' @ CHR '','' # ''75'' @ CHR '','' # print_number 3950 10 @ (gsm_nl @ gsm_nl @ gsm_ok)"
  have "\<exists>g'. getBattVoltage (sample_gsm ?s) = Some (of_nat 3950, g') \<and> w_in g' = [] \<and>
      w_now (sample_gsm ?s) + 2000 \<le> w_now g'"
  proof (rule getBattVoltage_answer [where a = "'' 0''" and b = "''75''"])
    show "answers (default_rs (gsm_nl @ ''+CBC:'')) 1 (gsm_nl @ ''+CBC:'')" by code_simp
    show "incoming 1 ?s [] (sample_gsm ?s)" by (rule incoming_sample)
  qed (simp_all add: gsm_nl_def gsm_ok_def)
  then show ?thesis by auto
qed


section \<open>Messages\<close>

lemma hex_digit_cases:
  "d < 16 \<Longrightarrow> byte_char (if d < 10 then of_nat (d + 48) else of_nat (d + 65 - 10)) = hex_digits ! d"
proof -
  assume "d < 16"
  then have "d \<in> {0, 1, 2, 3, 4, 5, 6, 7, 8, 9, 10, 11, 12, 13, 14, 15}" by (simp, presburger)
  then show ?thesis
    by (elim insertE emptyE) (simp_all add: byte_char_def hex_digits_def char_of_def bit_iff_odd)
qed

lemma hex_byte_eq: "hex_byte c = hex2 c"
proof -
  let ?n = "unat c"
  have lt: "?n < 256" by simp
  have d: "digit_at 16 m = hex_digits ! (m mod 16)" for m
  proof -
    have "m - 16 * (m div 16) = m mod 16" by (simp only: minus_mult_div_eq_mod)
    then show ?thesis unfolding digit_at_def Let_def by (simp only:) (rule hex_digit_cases, simp)
  qed
  have c16: "c < 0x10 \<longleftrightarrow> ?n < 16" by (simp add: word_less_nat_alt)
  show ?thesis
  proof (cases "?n < 16")
    case True
    then have "print_number ?n 16 = [hex_digits ! ?n]"
      by (simp add: print_number_def print_digits_unfold [of 16 ?n] d div_eq_0_iff)
    moreover have "hex_digits ! 0 = CHR ''0''" by (simp add: hex_digits_def)
    ultimately show ?thesis using True c16 by (simp add: hex_byte_def hex2_def)
  next
    case False
    moreover have "?n div 16 div 16 = 0" using lt by (simp add: div_mult2_eq [symmetric])
    ultimately have "print_number ?n 16 = [hex_digits ! (?n div 16 mod 16), hex_digits ! (?n mod 16)]"
      by (simp add: print_number_def print_digits_unfold [of 16 ?n] print_digits_unfold [of 16 "?n div 16"] d
          div_eq_0_iff)
    moreover have "?n div 16 mod 16 = ?n div 16" using lt by (intro mod_less) (simp add: div_less_iff_less_mult)
    ultimately show ?thesis using False c16 by (simp add: hex_byte_def hex2_def)
  qed
qed

text \<open>The text of a UTF-16 message is written as four hexadecimal digits for each unit, so that the
  driver's own decoder for 16-bit text reads it back, with a question mark for a unit above 255.
\<close>

theorem sms_utf16_text:
  "TinyGsmDecodeHex16bit (concat (map hex_unit us)) =
     map (\<lambda>u. if drop_bit 8 u \<noteq> 0 then CHR ''?'' else byte_char (ucast u)) us"
proof -
  let ?h = "\<lambda>u :: u16. (ucast (drop_bit 8 u) :: u8)"
  let ?l = "\<lambda>u :: u16. (ucast (u AND 0xFF) :: u8)"
  have lo: "?l u = ucast u" for u :: u16
  proof -
    have "(0xFF :: u16) = mask 8" by (simp add: mask_eq_exp_minus_1)
    then have "u AND 0xFF = take_bit 8 u" by (simp add: take_bit_eq_mask)
    then show ?thesis by (intro bit_word_eqI) (simp add: bit_simps)
  qed
  have hi: "?h u = 0 \<longleftrightarrow> drop_bit 8 u = 0" for u :: u16
  proof -
    have "unat (drop_bit 8 u) < 256"
      using unat_u16 [of u] take_bit_nat_less_exp [of 16 "unat u"]
      by (simp only: unsigned_drop_bit_eq) (simp add: drop_bit_eq_div div_less_iff_less_mult)
    then show ?thesis by (simp add: unat_eq_zero [symmetric] unsigned_ucast_eq take_bit_nat_eq_self)
  qed
  have "concat (map hex_unit us) = concat (map (\<lambda>(hi, lo). hex2 hi @ hex2 lo) (map (\<lambda>u. (?h u, ?l u)) us))"
    by (simp add: hex_unit_def [abs_def] hex_byte_eq comp_def)
  then show ?thesis
    by (simp only: decode16_hex) (simp add: hi lo)
qed


text \<open>What is written while waiting: nothing.\<close>

lemma wait_for_out [simp]: "w_out (snd (wait_for t rs g)) = w_out g"
  using wait_for_looks [of t rs g] by (metis looks_def prod.collapse)

lemma waits_out [simp]:
  "w_out (snd (wait_text r g)) = w_out g" "w_out (snd (wait_ok t g)) = w_out g"
  "w_out (after_wait g) = w_out g"
  by (simp_all add: wait_text_def wait_ok_def after_wait_def wait1_def)

lemma sendAT_out [simp]: "w_out (sendAT cmd g) = w_out g @ ''AT'' @ cmd @ gsm_nl"
  by (simp add: sendAT_def stream_print_def)

definition at_line :: "string \<Rightarrow> string" where
  "at_line cmd = ''AT'' @ cmd @ gsm_nl"


text \<open>The fields of the answer, one after the other.\<close>

lemma ussd_fields_incoming:
  assumes "incoming T (x @ quote # hex @ quote # y @ CHR '','' # z @ CHR 0x0A # s) rest g" and "T \<le> w_now g + 1000"
    and "quote \<notin> set x" and "quote \<notin> set hex" and "CHR '','' \<notin> set y" and "CHR 0x0A \<notin> set z"
  obtains g1 g2 g3 g4 n where "readStringUntil quote g = (x, g1)" "readStringUntil quote g1 = (hex, g2)"
    "readStringUntil CHR '','' g2 = (y, g3)" "readStringUntil CHR 0x0A g3 = (z, g4)" "after T n g g4" "incoming T s rest g4"
proof -
  from readStringUntil_incoming [OF assms(1,3,2)] obtain n1 g1 where
    r1: "readStringUntil quote g = (x, g1)" "after T n1 g g1" "incoming T (hex @ quote # y @ CHR '','' # z @ CHR 0x0A # s) rest g1" .
  have t1: "T \<le> w_now g1 + 1000" using after_now [OF r1(2)] assms(2) by simp
  from readStringUntil_incoming [OF r1(3) assms(4) t1] obtain n2 g2 where
    r2: "readStringUntil quote g1 = (hex, g2)" "after T n2 g1 g2" "incoming T (y @ CHR '','' # z @ CHR 0x0A # s) rest g2" .
  have t2: "T \<le> w_now g2 + 1000" using after_now [OF r2(2)] t1 by simp
  from readStringUntil_incoming [OF r2(3) assms(5) t2] obtain n3 g3 where
    r3: "readStringUntil CHR '','' g2 = (y, g3)" "after T n3 g2 g3" "incoming T (z @ CHR 0x0A # s) rest g3" .
  have t3: "T \<le> w_now g3 + 1000" using after_now [OF r3(2)] t2 by simp
  from readStringUntil_incoming [OF r3(3) assms(6) t3] obtain n4 g4 where
    r4: "readStringUntil CHR 0x0A g3 = (z, g4)" "after T n4 g3 g4" "incoming T s rest g4" .
  have "after T n4 g g4" using r1(2) r2(2) r3(2) r4(2) after_trans by blast
  then show ?thesis using that r1(1) r2(1) r3(1) r4(1,3) by blast
qed

text \<open>A command whose answer is waited for and not looked at.\<close>

lemma sent_wait_incoming:
  assumes "incoming T (a @ s) rest g" and "T < w_now g + 1000" and "answers (default_rs gsm_ok) i a"
  obtains n where "after T n (sendAT c g) (after_wait (sendAT c g))" "incoming T s rest (after_wait (sendAT c g))"
    "T < w_now (after_wait (sendAT c g)) + 1000" "sockets (after_wait (sendAT c g)) = sockets g"
proof -
  have "incoming T (a @ s) rest (sendAT c g)" "T < w_now (sendAT c g) + 1000" using assms(1,2) by simp_all
  from after_wait_incoming [OF this assms(3)] obtain n where
    n: "after T n (sendAT c g) (after_wait (sendAT c g))" "incoming T s rest (after_wait (sendAT c g))" .
  have "T < w_now (after_wait (sendAT c g)) + 1000" using after_now [OF n(1)] assms(2) by simp
  moreover have "sockets (after_wait (sendAT c g)) = sockets g"
    using n(1) by (auto simp: after_def sendAT_def stream_print_def)
  ultimately show ?thesis using that n by blast
qed

text \<open>C26: an unstructured request that the modem answers with quoted text in the 8-bit or the 16-bit
  coding returns the decoded text.
\<close>

theorem sendUSSD_answer:
  assumes "incoming T (a1 @ a2 @ a3 @ m @ x @ quote # hex @ quote # y @ CHR '','' # z @ CHR 0x0A # s) rest g"
    and "T < w_now g + 1000"
    and "answers (default_rs gsm_ok) i1 a1" and "answers (default_rs gsm_ok) i2 a2"
    and "answers (default_rs gsm_ok) 1 a3" and "answers (default_rs (gsm_nl @ ''+CUSD:'')) 1 m"
    and "quote \<notin> set x" and "quote \<notin> set hex" and "CHR '','' \<notin> set y" and "CHR 0x0A \<notin> set z"
  shows "\<exists>g'. sendUSSD code g =
      (if str_toInt z = 15 then TinyGsmDecodeHex8bit hex
       else if str_toInt z = 72 then TinyGsmDecodeHex16bit hex else hex, g') \<and>
    incoming T s rest g' \<and> sockets g' = sockets g"
proof -
  let ?c1 = "''+CMGF=1''" and ?c2 = "''+CSCS='' @ [quote] @ ''HEX'' @ [quote]"
  let ?c3 = "''+CUSD=1,'' @ [quote] @ code @ [quote]"
  let ?f = "x @ quote # hex @ quote # y @ CHR '','' # z @ CHR 0x0A # s"
  define g1 where "g1 = after_wait (sendAT ?c1 g)"
  define g2 where "g2 = after_wait (sendAT ?c2 g1)"
  from sent_wait_incoming [OF assms(1,2,3), of ?c1] have
    w1: "incoming T (a2 @ a3 @ m @ ?f) rest g1" "T < w_now g1 + 1000" "sockets g1 = sockets g"
    unfolding g1_def by blast+
  from sent_wait_incoming [OF w1(1,2) assms(4), of ?c2] have
    w2: "incoming T (a3 @ m @ ?f) rest g2" "T < w_now g2 + 1000" "sockets g2 = sockets g"
    unfolding g2_def w1(3) by blast+
  have "T < w_now g2 + unat (1000 :: u32)" using w2(2) by simp
  from command_ok_incoming [OF w2(1) this assms(5), of ?c3] obtain n3 g3 where
    w3: "command_ok 1000 ?c3 g2 = ((1 :: nat) = 1, g3)" "after T n3 (sendAT ?c3 g2) g3" "incoming T (m @ ?f) rest g3" .
  have t3: "T < w_now g3 + 1000" using after_now [OF w3(2)] w2(2) by simp
  then have "T < w_now g3 + unat (10000 :: u32)" by simp
  from wait_for_incoming [OF w3(3) this assms(6)] obtain n4 g4 where
    w4: "wait_for 10000 (default_rs (gsm_nl @ ''+CUSD:'')) g3 = (1, g4)" "after T n4 g3 g4" "incoming T ?f rest g4" .
  have "T \<le> w_now g4 + 1000" using after_now [OF w4(2)] t3 by simp
  from ussd_fields_incoming [OF w4(3) this assms(7-10)] obtain g5 g6 g7 g8 n where
    r: "readStringUntil quote g4 = (x, g5)" "readStringUntil quote g5 = (hex, g6)" "readStringUntil CHR '','' g6 = (y, g7)"
      "readStringUntil CHR 0x0A g7 = (z, g8)" "after T n g4 g8" "incoming T s rest g8" .
  have "sockets g8 = sockets g" using r(5) w4(2) w3(2) w2(3) by (auto simp: after_def sendAT_def stream_print_def)
  moreover have "sendUSSD code g =
      (if str_toInt z = 15 then TinyGsmDecodeHex8bit hex
       else if str_toInt z = 72 then TinyGsmDecodeHex16bit hex else hex, g8)"
    using w3(1) w4(1) r(1-4) by (simp add: sendUSSD_def g1_def g2_def Let_def)
  ultimately show ?thesis using r(6) by blast
qed

theorem sendUSSD_answer_witness:
  "\<exists>g'. sendUSSD ''*100#'' (sample_gsm (gsm_ok @ gsm_ok @ gsm_ok @ (gsm_nl @ ''+CUSD:'') @ '' 0,'' @ quote #
      ''0042'' @ quote # [] @ CHR '','' # '' 72'' @ CHR 0x0A # [])) = (''B'', g')"
proof -
  let ?s = "gsm_ok @ gsm_ok @ gsm_ok @ (gsm_nl @ ''+CUSD:'') @ '' 0,'' @ quote #
      ''0042'' @ quote # [] @ CHR '','' # '' 72'' @ CHR 0x0A # []"
  have "\<exists>g'. sendUSSD ''*100#'' (sample_gsm ?s) =
      (if str_toInt '' 72'' = 15 then TinyGsmDecodeHex8bit ''0042''
       else if str_toInt '' 72'' = 72 then TinyGsmDecodeHex16bit ''0042'' else ''0042'', g') \<and>
    incoming 1 [] [] g' \<and> sockets g' = sockets (sample_gsm ?s)"
  proof (rule sendUSSD_answer)
    show "incoming 1 ?s [] (sample_gsm ?s)" by (rule incoming_sample)
    show "answers (default_rs (gsm_nl @ ''+CUSD:'')) 1 (gsm_nl @ ''+CUSD:'')" by code_simp
    show "answers (default_rs gsm_ok) 1 gsm_ok" by code_simp
    show "answers (default_rs gsm_ok) 1 gsm_ok" by code_simp
    show "answers (default_rs gsm_ok) 1 gsm_ok" by code_simp
  qed (simp_all add: quote_def)
  moreover have "str_toInt '' 72'' = 72" "TinyGsmDecodeHex16bit ''0042'' = ''B''" by code_simp+
  ultimately show ?thesis by auto
qed


section \<open>Termination of the loops over a timeout\<close>

text \<open>A wait in which no byte is consumed lasts exactly its timeout.\<close>

lemma wait_loop_no_byte:
  assumes "start = of_nat n0" and "n0 \<le> w_now g" and "w_now g \<le> n0 + unat timeout"
    and "length (w_in (snd (snd (wait_loop timeout start rs data g)))) = length (w_in g)"
  shows "w_now (snd (snd (wait_loop timeout start rs data g))) = n0 + unat timeout"
  using assms
proof (induction timeout start rs data g rule: wait_loop.induct)
  case (1 timeout start rs data g)
  obtain a g1 where rd: "stream_read g = (a, g1)" by fastforce
  show ?case
  proof (cases a)
    case None
    then have g1: "g1 = g" using rd stream_read_None by blast
    show ?thesis
    proof (cases "w_now g = n0 + unat timeout")
      case True
      have "millis g - start = timeout" using True "1.prems"(1) by (simp add: millis_def)
      then have "wait_loop timeout start rs data g = (0, [], g)"
        using wait_loop_no_data(2) [OF rd [unfolded None]] g1 by simp
      then show ?thesis using True by simp
    next
      case False
      then have lt: "millis g1 - start < timeout" using "1.prems" elapsed_less [of n0 g timeout] g1 by simp
      then have eq: "wait_loop timeout start rs data g = wait_loop timeout start rs data (idle_poll g1)"
        by (rule wait_loop_no_data(1) [OF rd [unfolded None]])
      show ?thesis unfolding eq using False "1.prems" eq g1
        by (intro "1.IH"(1) [OF rd [symmetric] None lt]) (simp_all add: idle_poll_def)
    qed
  next
    case (Some c)
    then have "length (w_in g1) < length (w_in g)" using rd stream_read_Some by fastforce
    then show ?thesis
      using wait_loop_consumes [OF rd [unfolded Some] "1.prems"(1), of timeout rs data] "1.prems"(4) by simp
  qed
qed


lemma wait_for_progress:
  assumes "wait_for timeout rs g = (i, g')"
  shows "length (w_in g') < length (w_in g) \<or> length (w_in g') = length (w_in g) \<and> w_now g' = w_now g + unat timeout"
proof -
  obtain j d h where w: "waitResponse timeout [] rs g = (j, d, h)" using prod_cases3 by blast
  have h: "h = g'" using assms w by (simp add: wait_for_def)
  have "length (w_in g') \<le> length (w_in g)"
    using wait_for_looks [OF assms] line_le_length by (auto simp: looks_def)
  moreover have "w_now g' = w_now g + unat timeout" if "length (w_in g') = length (w_in g)"
    using wait_loop_no_byte [of "millis g" "w_now g" g timeout rs "[]"] w h that
    by (simp add: waitResponse_def millis_def)
  ultimately show ?thesis by linarith
qed

text \<open>
  The pattern of the three loops: an iteration either consumes a byte or takes a known time that
  cannot carry the elapsed milliseconds past \<open>2 ^ 32\<close>.
\<close>

lemma timeout_step:
  assumes "millis g - start < (timeout :: u32)" and "w_now g' = w_now g + d" and "unat timeout + d < 2 ^ 32"
    and "0 < d"
  shows "unat timeout - unat (millis g' - start) < unat timeout - unat (millis g - start)"
proof -
  let ?e = "millis g - start"
  have eq: "millis g' - start = ?e + of_nat d" using assms(2) by (simp add: millis_def)
  have lt: "unat ?e < unat timeout" using assms(1) by (simp add: word_less_nat_alt)
  then have "unat (?e + of_nat d) = unat ?e + d"
    using assms(3) by (simp add: unat_word_ariths unat_of_nat)
  then have "unat (millis g' - start) = unat ?e + d" unfolding eq .
  then show ?thesis using assms(4) lt by linarith
qed

lemma testAT_loop_returns:
  assumes "unat timeout + 300 < 2 ^ 32"
  shows "testAT_loop timeout start g \<noteq> None"
proof (induction g rule: wf_induct_rule [OF wf_measures [of "[\<lambda>g. length (w_in g),
    \<lambda>g. unat timeout - unat (millis g - start)]"]])
  case (1 g)
  let ?h = "sendAT [] g"
  obtain i g' where w: "wait_ok 200 ?h = (i, g')" by fastforce
  show ?case
  proof (cases "millis g - start < timeout")
    case True
    have "length (w_in g') < length (w_in ?h) \<or> length (w_in g') = length (w_in ?h) \<and> w_now g' = w_now ?h + 200"
      using wait_for_progress [OF w [unfolded wait_ok_def]] by simp
    then have "(delay 100 g', g) \<in> measures [\<lambda>g. length (w_in g), \<lambda>g. unat timeout - unat (millis g - start)]"
      using timeout_step [OF True, of "delay 100 g'" 300] assms
      by (auto simp: delay_def sendAT_def stream_print_def)
    then show ?thesis using 1 True w by (subst testAT_loop.simps) auto
  next
    case False
    then show ?thesis by (subst testAT_loop.simps) simp
  qed
qed

lemma getSimStatus_loop_returns:
  assumes "unat timeout + 2000 < 2 ^ 32"
  shows "getSimStatus_loop timeout start g \<noteq> None"
proof (induction g rule: wf_induct_rule [OF wf_measures [of "[\<lambda>g. length (w_in g),
    \<lambda>g. unat timeout - unat (millis g - start)]"]])
  case (1 g)
  let ?h = "sendAT ''+CPIN?'' g"
  obtain i g' where w: "wait_text (gsm_nl @ ''+CPIN:'') ?h = (i, g')" by fastforce
  show ?case
  proof (cases "millis g - start < timeout \<and> i \<noteq> 1")
    case True
    have "length (w_in g') < length (w_in ?h) \<or> length (w_in g') = length (w_in ?h) \<and> w_now g' = w_now ?h + 1000"
      using wait_for_progress [OF w [unfolded wait_text_def]] by simp
    then have "(delay 1000 g', g) \<in> measures [\<lambda>g. length (w_in g), \<lambda>g. unat timeout - unat (millis g - start)]"
      using timeout_step [OF conjunct1 [OF True], of "delay 1000 g'" 2000] assms
      by (auto simp: delay_def sendAT_def stream_print_def)
    then show ?thesis using 1 True w by (subst getSimStatus_loop.simps) auto
  next
    case False
    then show ?thesis using w by (subst getSimStatus_loop.simps) (auto split: prod.splits)
  qed
qed

lemma testAT_returns: "n < 2 ^ 32 - 300 \<Longrightarrow> testAT (of_nat n) g \<noteq> None"
  unfolding testAT_def by (intro testAT_loop_returns) (simp add: unat_of_nat)

lemma getSimStatus_returns: "n < 2 ^ 32 - 2000 \<Longrightarrow> getSimStatus (of_nat n) g \<noteq> None"
  unfolding getSimStatus_def by (intro getSimStatus_loop_returns) (simp add: unat_of_nat)


end
