(* ===== verification/SimClient.thy ===== *)
theory SimClient
  imports SimAnswers
begin

text \<open>
  The sockets of the modem driver (\<open>src/main/TinyGsmClientSIM800.h\<close>): the socket functions of
  \<open>TinyGsmSim800\<close> and the class \<open>GsmClient\<close>, whose objects are kept where the driver finds them, in
  \<open>sockets\<close>. \<open>None\<close> is a call that does not return or that follows a null pointer.
\<close>

section \<open>Sockets\<close>

definition socket_of :: "u8 \<Rightarrow> gsm \<Rightarrow> client option" where
  "socket_of mux g = (if unat mux < length (sockets g) then sockets g ! unat mux else None)"

text \<open>\<open>sockets[mux]->...\<close>: an access through the pointer.\<close>

definition set_socket :: "u8 \<Rightarrow> (client \<Rightarrow> client) \<Rightarrow> gsm \<Rightarrow> gsm option" where
  "set_socket mux f g =
     (if socket_of mux g = None then None else Some (sockets_update_at (unat mux) f g))"

definition modemConnect :: "string \<Rightarrow> u16 \<Rightarrow> u8 \<Rightarrow> bool \<Rightarrow> gsm \<Rightarrow> bool \<times> gsm" where
  "modemConnect host port mux ssl g =
     (let g = after_wait (sendAT (''+CIPSSL='' @ print_bool ssl) g);
          g = sendAT (''+CIPSTART='' @ print_number (unat mux) 10 @ '','' @ [quote] @ ''TCP'' @
                [quote, CHR '','', quote] @ host @ [quote, CHR '',''] @ print_number (unat port) 10) g
      in case wait_for 75000 [Some (''CONNECT OK'' @ gsm_nl), Some (''CONNECT FAIL'' @ gsm_nl),
             Some (''ALREADY CONNECT'' @ gsm_nl), Some (''ERROR'' @ gsm_nl), Some (''CLOSE OK'' @ gsm_nl)] g
         of (rsp, g) \<Rightarrow> (rsp = 1, g))"

definition modemSend :: "string \<Rightarrow> u8 \<Rightarrow> gsm \<Rightarrow> (int \<times> gsm) option" where
  "modemSend buff mux g =
     (case wait_text ''>'' (sendAT (''+CIPSEND='' @ print_number (unat mux) 10 @ '','' @
         print_number (length buff) 10) g) of (i, g) \<Rightarrow>
        if i \<noteq> 1 then Some (0, g)
        else (case wait_text (gsm_nl @ ''DATA ACCEPT:'') (stream_print buff g) of (i, g) \<Rightarrow>
          if i \<noteq> 1 then Some (0, g)
          else (case streamSkipUntil (CHR '','') g of
                  None \<Rightarrow> None
                | Some g \<Rightarrow>
                    (case readStringUntil (CHR 0x0A) g of (s, g) \<Rightarrow> Some (str_toInt s, g)))))"

text \<open>The loop that moves \<open>len\<close> bytes from the line into the receive buffer of the socket.\<close>

fun rx_loop :: "nat \<Rightarrow> u8 \<Rightarrow> gsm \<Rightarrow> gsm option" where
  "rx_loop 0 mux g = Some g"
| "rx_loop (Suc n) mux g =
     (case wait_available g of
        None \<Rightarrow> None
      | Some g \<Rightarrow>
          (case stream_read g of
             (None, g) \<Rightarrow> None
           | (Some c, g) \<Rightarrow>
               (case set_socket mux (\<lambda>cl. cl\<lparr>cl_rx := snd (fifo_put TINY_GSM_RX_BUFFER (cl_rx cl) c)\<rparr>) g of
                  None \<Rightarrow> None
                | Some g \<Rightarrow> rx_loop n mux g)))"

definition modemRead :: "nat \<Rightarrow> u8 \<Rightarrow> gsm \<Rightarrow> (nat \<times> gsm) option" where
  "modemRead sz mux g =
     (case wait_text ''+CIPRXGET:'' (sendAT (''+CIPRXGET=2,'' @ print_number (unat mux) 10 @ '','' @
         print_number sz 10) g) of (i, g) \<Rightarrow>
        if i \<noteq> 1 then Some (0, g)
        else (case Option.bind (streamSkipUntil (CHR '','') g) (streamSkipUntil (CHR '','')) of
                None \<Rightarrow> None
              | Some g \<Rightarrow>
                  (case readStringUntil (CHR '','') g of (l, g) \<Rightarrow>
                     (case readStringUntil (CHR 0x0A) g of (a, g) \<Rightarrow>
                        let len = c_uint (str_toInt l)
                        in case set_socket mux (\<lambda>cl. cl\<lparr>cl_available := of_int (str_toInt a)\<rparr>) g of
                             None \<Rightarrow> None
                           | Some g \<Rightarrow>
                               (case rx_loop len mux g of
                                  None \<Rightarrow> None
                                | Some g \<Rightarrow> Some (len, after_wait g))))))"

definition modemGetConnected :: "u8 \<Rightarrow> gsm \<Rightarrow> bool \<times> gsm" where
  "modemGetConnected mux g =
     (let state = (\<lambda>s. Some ([CHR '','', quote] @ s @ [quote]))
      in case wait_for 1000 [state ''CONNECTED'', state ''CLOSED'', state ''CLOSING'', state ''INITIAL'', None]
             (sendAT (''+CIPSTATUS='' @ print_number (unat mux) 10) g) of (res, g) \<Rightarrow> (res = 1, after_wait g))"

definition modemGetAvailable :: "u8 \<Rightarrow> gsm \<Rightarrow> (nat \<times> gsm) option" where
  "modemGetAvailable mux g =
     (case (case wait_text ''+CIPRXGET:'' (sendAT (''+CIPRXGET=4,'' @ print_number (unat mux) 10) g) of (i, g) \<Rightarrow>
              if i \<noteq> 1 then Some (0, g)
              else (case Option.bind (streamSkipUntil (CHR '','') g) (streamSkipUntil (CHR '','')) of
                      None \<Rightarrow> None
                    | Some g \<Rightarrow>
                        (case readStringUntil (CHR 0x0A) g of (s, g) \<Rightarrow> Some (c_uint (str_toInt s), after_wait g)))) of
        None \<Rightarrow> None
      | Some (result, g) \<Rightarrow>
          if result \<noteq> 0 then Some (result, g)
          else (case modemGetConnected mux g of (c, g) \<Rightarrow>
                  map_option (\<lambda>g. (result, g)) (set_socket mux (\<lambda>cl. cl\<lparr>cl_connected := c\<rparr>) g)))"

section \<open>maintain\<close>

text \<open>
  \<open>while (stream.available()) waitResponse(10, NULL, NULL)\<close>: with no text to look for, a wait only
  handles notices.
\<close>

lemma wait_nothing_consumes:
  assumes "0 < available g"
  shows "length (w_in (snd (wait_for 10 [None, None, None, None, None] g))) < length (w_in g)"
proof -
  obtain t c mid where g: "w_in g = (t, c) # mid" "t \<le> w_now g"
    using assms by (auto simp: available_def takeWhile_eq_Nil_iff split: list.splits if_splits)
      (metis (no_types, lifting) case_prodE hd_Cons_tl list.size(3) takeWhile_eq_Nil_iff)
  then have rd: "stream_read g = (Some c, g\<lparr>w_in := mid\<rparr>)" by (simp add: stream_read_def)
  have "length (w_in (snd (snd (wait_loop 10 (millis g) rs [] g)))) \<le> length mid" for rs
    using wait_loop_consumes [OF rd, of "millis g" "w_now g"] by (simp add: millis_def)
  then show ?thesis using g(1)
    by (simp add: wait_for_def waitResponse_def case_prod_beta le_imp_less_Suc)
qed

function (sequential) drain :: "gsm \<Rightarrow> gsm" where
  "drain g =
     (if 0 < available g then drain (snd (wait_for 10 [None, None, None, None, None] g)) else g)"
  by pat_completeness auto
termination
  by (relation "measure (\<lambda>g. length (w_in g))") (simp_all add: wait_nothing_consumes)

declare drain.simps [simp del]

text \<open>One step of the loop over the sockets; then the whole of \<open>maintain\<close>.\<close>

definition maintain_socket :: "nat \<Rightarrow> gsm \<Rightarrow> gsm option" where
  "maintain_socket mux g =
     (case socket_of (of_nat mux) g of
        None \<Rightarrow> Some g
      | Some sock \<Rightarrow>
          if cl_got_data sock then
            (case modemGetAvailable (of_nat mux) (sockets_update_at mux (\<lambda>cl. cl\<lparr>cl_got_data := False\<rparr>) g) of
               None \<Rightarrow> None
             | Some (n, g) \<Rightarrow> set_socket (of_nat mux) (\<lambda>cl. cl\<lparr>cl_available := of_nat n\<rparr>) g)
          else Some g)"

fun maintain_loop :: "nat \<Rightarrow> nat \<Rightarrow> gsm \<Rightarrow> gsm option" where
  "maintain_loop 0 mux g = Some g"
| "maintain_loop (Suc n) mux g =
     (case maintain_socket mux g of None \<Rightarrow> None | Some g \<Rightarrow> maintain_loop n (mux + 1) g)"

definition maintain :: "gsm \<Rightarrow> gsm option" where
  "maintain g = map_option drain (maintain_loop TINY_GSM_MUX_COUNT 0 g)"

section \<open>GsmClient\<close>

text \<open>\<open>init\<close> registers the object; the buffer keeps the contents its memory had.\<close>

definition client_init :: "u8 \<Rightarrow> client \<Rightarrow> gsm \<Rightarrow> gsm option" where
  "client_init mux self g =
     (if unat mux < length (sockets g)
      then Some (g\<lparr>sockets := (sockets g)[unat mux := Some (self\<lparr>cl_mux := mux, cl_available := 0,
             cl_prev_check := 0, cl_connected := False, cl_got_data := False\<rparr>)]\<rparr>)
      else None)"

definition client_stop :: "u8 \<Rightarrow> gsm \<Rightarrow> gsm option" where
  "client_stop mux g =
     (case set_socket mux (\<lambda>cl. cl\<lparr>cl_connected := False\<rparr>) (sendAT (''+CIPCLOSE='' @ print_number (unat mux) 10) g) of
        None \<Rightarrow> None
      | Some g \<Rightarrow> set_socket mux (\<lambda>cl. cl\<lparr>cl_rx := fifo_clear (cl_rx cl)\<rparr>) (after_wait g))"

text \<open>\<open>ssl\<close> is set in \<open>GsmClientSecure::connect\<close>, which is otherwise the same.\<close>

definition client_connect_with :: "bool \<Rightarrow> u8 \<Rightarrow> string \<Rightarrow> u16 \<Rightarrow> gsm \<Rightarrow> (bool \<times> gsm) option" where
  "client_connect_with ssl mux host port g =
     (case client_stop mux g of
        None \<Rightarrow> None
      | Some g \<Rightarrow>
          (case set_socket mux (\<lambda>cl. cl\<lparr>cl_rx := fifo_clear (cl_rx cl)\<rparr>) g of
             None \<Rightarrow> None
           | Some g \<Rightarrow>
               (case modemConnect host port mux ssl g of (c, g) \<Rightarrow>
                  map_option (\<lambda>g. (c, g)) (set_socket mux (\<lambda>cl. cl\<lparr>cl_connected := c\<rparr>) g))))"

definition client_connect :: "u8 \<Rightarrow> string \<Rightarrow> u16 \<Rightarrow> gsm \<Rightarrow> (bool \<times> gsm) option" where
  "client_connect mux host port g = client_connect_with False mux host port g"

definition client_connect_ip :: "u8 \<Rightarrow> ip_address \<Rightarrow> u16 \<Rightarrow> gsm \<Rightarrow> (bool \<times> gsm) option" where
  "client_connect_ip mux ip port g = client_connect mux (dotted ip) port g"

definition client_secure_connect :: "u8 \<Rightarrow> string \<Rightarrow> u16 \<Rightarrow> gsm \<Rightarrow> (bool \<times> gsm) option" where
  "client_secure_connect mux host port g = client_connect_with True mux host port g"

definition client_write :: "u8 \<Rightarrow> string \<Rightarrow> gsm \<Rightarrow> (int \<times> gsm) option" where
  "client_write mux buf g = (case maintain g of None \<Rightarrow> None | Some g \<Rightarrow> modemSend buf mux g)"

definition rx_size :: "client \<Rightarrow> nat" where
  "rx_size cl = fifo_size TINY_GSM_RX_BUFFER (cl_rx cl)"

definition client_available :: "u8 \<Rightarrow> gsm \<Rightarrow> (nat \<times> gsm) option" where
  "client_available mux g =
     (case socket_of mux g of
        None \<Rightarrow> None
      | Some cl \<Rightarrow>
          (case (if rx_size cl = 0 \<and> cl_connected cl then
                   maintain (if unat (millis g - cl_prev_check cl) > c_uint (cl_waits cl)
                             then sockets_update_at (unat mux)
                                    (\<lambda>cl. cl\<lparr>cl_got_data := True, cl_prev_check := millis g\<rparr>) g
                             else g)
                 else Some g) of
             None \<Rightarrow> None
           | Some g \<Rightarrow>
               map_option (\<lambda>cl. (rx_size cl + unat (cl_available cl), g)) (socket_of mux g)))"

text \<open>
  The loop of \<open>read\<close>: take what the receive buffer holds; when it is empty, ask the modem for as
  much as fits, as long as it has announced data. The loop has no other limit.
\<close>

partial_function (option) client_read_loop ::
    "u8 \<Rightarrow> nat \<Rightarrow> nat \<Rightarrow> string \<Rightarrow> gsm \<Rightarrow> (string \<times> gsm) option" where
  "client_read_loop mux sz cnt buf g =
     (case socket_of mux g of
        None \<Rightarrow> None
      | Some cl \<Rightarrow>
          if cnt < sz \<and> cl_connected cl then
            (let chunk = TinyGsmMin (sz - cnt) (rx_size cl)
             in if chunk > 0 then
                  (case fifo_get_block TINY_GSM_RX_BUFFER False (cl_rx cl) chunk of
                     None \<Rightarrow> None
                   | Some (bytes, q) \<Rightarrow>
                       client_read_loop mux sz (cnt + chunk) (buf @ bytes)
                         (sockets_update_at (unat mux) (\<lambda>cl. cl\<lparr>cl_rx := q\<rparr>) g))
                else
                  (case maintain g of
                     None \<Rightarrow> None
                   | Some g \<Rightarrow>
                       (case socket_of mux g of
                          None \<Rightarrow> None
                        | Some cl \<Rightarrow>
                            if cl_available cl > 0 then
                              (case modemRead (c_uint (fifo_free TINY_GSM_RX_BUFFER (cl_rx cl))) mux g of
                                 None \<Rightarrow> None
                               | Some (n, g) \<Rightarrow> client_read_loop mux sz cnt buf g)
                            else Some (buf, g))))
          else Some (buf, g))"

declare client_read_loop.simps [code]

definition client_read :: "u8 \<Rightarrow> nat \<Rightarrow> gsm \<Rightarrow> (string \<times> gsm) option" where
  "client_read mux sz g =
     (case maintain g of None \<Rightarrow> None | Some g \<Rightarrow> client_read_loop mux sz 0 [] g)"

definition client_read_byte :: "u8 \<Rightarrow> gsm \<Rightarrow> (char option \<times> gsm) option" where
  "client_read_byte mux g =
     map_option (\<lambda>(buf, g). (case buf of [c] \<Rightarrow> Some c | _ \<Rightarrow> None, g)) (client_read mux 1 g)"

definition client_connected :: "u8 \<Rightarrow> gsm \<Rightarrow> (bool \<times> gsm) option" where
  "client_connected mux g =
     (case client_available mux g of
        None \<Rightarrow> None
      | Some (n, g) \<Rightarrow>
          if n \<noteq> 0 then Some (True, g)
          else map_option (\<lambda>cl. (cl_connected cl, g)) (socket_of mux g))"


section \<open>Invariant\<close>

text \<open>The socket table has its length and every receive buffer is consistent.\<close>

definition client_ok :: "client \<Rightarrow> bool" where
  "client_ok cl = fifo_inv TINY_GSM_RX_BUFFER (cl_rx cl)"

definition gsm_inv :: "gsm \<Rightarrow> bool" where
  "gsm_inv g \<longleftrightarrow> length (sockets g) = TINY_GSM_MUX_COUNT \<and> (\<forall>x \<in> set (sockets g). pred_option client_ok x)"

definition rx_list :: "client \<Rightarrow> string" where
  "rx_list cl = fifo_list TINY_GSM_RX_BUFFER (cl_rx cl)"

lemma flags_le_rx: "flags_le cl cl' \<Longrightarrow> cl_rx cl' = cl_rx cl \<and> cl_available cl' = cl_available cl"
  by (cases cl; cases cl') (simp add: flags_le_def)

lemma sockets_le_inv:
  assumes "sockets_le g g'" and "gsm_inv g"
  shows "gsm_inv g'"
proof -
  have "pred_option client_ok y" if "rel_option flags_le x y" "pred_option client_ok x" for x y
    using that flags_le_rx by (cases x; cases y) (auto simp: client_ok_def)
  then show ?thesis using assms
    by (auto simp: sockets_le_def gsm_inv_def list_all2_conv_all_nth in_set_conv_nth) (metis nth_mem)
qed

lemma talks_inv: "talks g g' \<Longrightarrow> gsm_inv g \<Longrightarrow> gsm_inv g'"
  using sockets_le_inv by (auto simp: talks_def)

lemma sockets_le_socket:
  assumes "sockets_le g g'" and "socket_of mux g = Some cl"
  obtains cl' where "socket_of mux g' = Some cl'" "flags_le cl cl'"
proof -
  have "unat mux < length (sockets g)" "sockets g ! unat mux = Some cl"
    using assms(2) by (auto simp: socket_of_def split: if_splits)
  then have "rel_option flags_le (Some cl) (sockets g' ! unat mux)" "unat mux < length (sockets g')"
    using assms(1) by (auto simp: sockets_le_def list_all2_conv_all_nth)
  then show ?thesis using that by (cases "sockets g' ! unat mux") (auto simp: socket_of_def)
qed

lemma set_socket_inv:
  assumes "set_socket mux f g = Some g'" and "gsm_inv g" and "\<And>cl. client_ok cl \<Longrightarrow> client_ok (f cl)"
  shows "gsm_inv g'"
proof -
  have g': "g' = sockets_update_at (unat mux) f g" "unat mux < length (sockets g)"
    using assms(1) by (auto simp: set_socket_def socket_of_def split: if_splits)
  then have "pred_option client_ok (sockets g ! unat mux)" using assms(2) by (simp add: gsm_inv_def)
  then have "pred_option client_ok (map_option f (sockets g ! unat mux))"
    using assms(3) by (cases "sockets g ! unat mux") auto
  then show ?thesis using assms(2) g'
    by (auto simp: gsm_inv_def sockets_update_at_def dest!: subsetD [OF set_update_subset_insert])
qed

lemma update_at_inv:
  assumes "gsm_inv g" and "\<And>cl. client_ok cl \<Longrightarrow> client_ok (f cl)"
  shows "gsm_inv (sockets_update_at n f g)"
proof (cases "n < length (sockets g)")
  case True
  then have "pred_option client_ok (sockets g ! n)" using assms(1) by (simp add: gsm_inv_def)
  then have "pred_option client_ok (map_option f (sockets g ! n))"
    using assms(2) by (cases "sockets g ! n") auto
  then show ?thesis using assms(1)
    by (auto simp: gsm_inv_def sockets_update_at_def dest!: subsetD [OF set_update_subset_insert])
qed (use assms(1) in \<open>simp add: sockets_update_at_def\<close>)

lemma client_ok_fields [simp]:
  "client_ok (cl\<lparr>cl_connected := b\<rparr>) = client_ok cl" "client_ok (cl\<lparr>cl_got_data := b\<rparr>) = client_ok cl"
  "client_ok (cl\<lparr>cl_available := n\<rparr>) = client_ok cl"
  "client_ok (cl\<lparr>cl_got_data := b, cl_prev_check := t\<rparr>) = client_ok cl"
  "client_ok (cl\<lparr>cl_rx := q\<rparr>) = fifo_inv TINY_GSM_RX_BUFFER q"
  by (simp_all add: client_ok_def)

lemma socket_ok: "gsm_inv g \<Longrightarrow> socket_of mux g = Some cl \<Longrightarrow> client_ok cl"
  by (auto simp: gsm_inv_def socket_of_def split: if_splits) (metis nth_mem option.pred_inject(2))

lemmas talks_inv_steps = talks_inv [OF talks_steps(1) [OF talks_refl]] talks_inv [OF talks_wait_text [OF talks_refl]]
  talks_inv [OF talks_after_wait [OF talks_refl]] talks_inv [OF talks_read [OF talks_refl]]
  talks_inv [OF talks_wait_for [OF talks_refl]] talks_inv [OF talks_print [OF talks_refl]]

lemma skip_inv: "streamSkipUntil c h = Some h' \<Longrightarrow> gsm_inv h \<Longrightarrow> gsm_inv h'"
  using talks_skip talks_refl talks_inv by blast

lemma skip2_inv:
  "Option.bind (streamSkipUntil c h) (streamSkipUntil d) = Some h' \<Longrightarrow> gsm_inv h \<Longrightarrow> gsm_inv h'"
  using skip_inv by (auto simp: bind_eq_Some_conv)

lemma reads_only_inv: "reads_only g g' \<Longrightarrow> gsm_inv g \<Longrightarrow> gsm_inv g'" for g g' :: gsm
  using reads_only_looks looks_talks talks_inv by blast

lemma wait_available_inv: "wait_available h = Some h' \<Longrightarrow> gsm_inv h \<Longrightarrow> gsm_inv h'"
  by (auto simp: wait_available_def gsm_inv_def split: list.splits)

lemma stream_read_inv: "stream_read h = (a, h') \<Longrightarrow> gsm_inv h \<Longrightarrow> gsm_inv h'"
  using stream_read_reads_only reads_only_inv by blast

lemma rx_loop_inv: "rx_loop n mux g = Some g' \<Longrightarrow> gsm_inv g \<Longrightarrow> gsm_inv g'"
proof (induction n arbitrary: g)
  case (Suc n)
  obtain g1 where g1: "wait_available g = Some g1" using Suc.prems(1) by (auto split: option.splits)
  obtain c g2 where g2: "stream_read g1 = (Some c, g2)"
    using Suc.prems(1) g1 by (auto split: option.splits prod.splits)
  obtain g3 where g3: "set_socket mux (\<lambda>cl. cl\<lparr>cl_rx := snd (fifo_put TINY_GSM_RX_BUFFER (cl_rx cl) c)\<rparr>) g2 = Some g3"
    using Suc.prems(1) g1 g2 by (auto split: option.splits)
  have "gsm_inv g2" using Suc.prems(2) g1 g2 wait_available_inv stream_read_inv by blast
  then have "gsm_inv g3"
    by (rule set_socket_inv [OF g3]) (simp add: client_ok_def fifo.put_step(1))
  then show ?case using Suc.IH Suc.prems(1) g1 g2 g3 by simp
qed simp

lemma modemConnect_inv: "gsm_inv g \<Longrightarrow> gsm_inv (snd (modemConnect host port mux ssl g))"
  by (auto simp: modemConnect_def Let_def case_prod_beta intro!: talks_inv_steps)

lemma modemSend_inv: "modemSend buff mux g = Some r \<Longrightarrow> gsm_inv g \<Longrightarrow> gsm_inv (snd r)"
  by (auto simp: modemSend_def case_prod_beta split: if_splits option.splits
      intro!: talks_inv_steps elim!: skip_inv)

lemma modemGetConnected_inv: "gsm_inv g \<Longrightarrow> gsm_inv (snd (modemGetConnected mux g))"
  by (auto simp: modemGetConnected_def Let_def case_prod_beta intro!: talks_inv_steps)

lemma modemRead_inv: "modemRead n mux g = Some r \<Longrightarrow> gsm_inv g \<Longrightarrow> gsm_inv (snd r)"
  by (auto simp: modemRead_def case_prod_beta Let_def split: if_splits option.splits
      intro!: talks_inv_steps elim!: rx_loop_inv set_socket_inv skip2_inv)

lemma modemGetAvailable_inv: "modemGetAvailable mux g = Some r \<Longrightarrow> gsm_inv g \<Longrightarrow> gsm_inv (snd r)"
  by (auto simp: modemGetAvailable_def case_prod_beta Let_def split: if_splits option.splits
      intro!: talks_inv_steps modemGetConnected_inv elim!: set_socket_inv skip2_inv)

lemma drain_inv: "gsm_inv g \<Longrightarrow> gsm_inv (drain g)"
proof (induction g rule: drain.induct)
  case (1 g)
  then show ?case by (subst drain.simps) (simp add: talks_inv_steps)
qed

lemma maintain_inv: "maintain g = Some g' \<Longrightarrow> gsm_inv g \<Longrightarrow> gsm_inv g'"
proof -
  have step: "gsm_inv h'" if "maintain_socket n h = Some h'" "gsm_inv h" for n h h'
    using that modemGetAvailable_inv [of "of_nat n" "sockets_update_at n (\<lambda>cl. cl\<lparr>cl_got_data := False\<rparr>) h"]
      update_at_inv [OF that(2), of "\<lambda>cl. cl\<lparr>cl_got_data := False\<rparr>" n]
    by (auto simp: maintain_socket_def split: option.splits if_splits
        intro!: update_at_inv elim!: set_socket_inv)
  have "gsm_inv h'" if "maintain_loop k n h = Some h'" "gsm_inv h" for k n h h'
    using that by (induction k n h rule: maintain_loop.induct) (auto split: option.splits intro: step)
  then show "maintain g = Some g' \<Longrightarrow> gsm_inv g \<Longrightarrow> gsm_inv g'"
    by (auto simp: maintain_def intro!: drain_inv)
qed


lemma client_init_inv:
  "client_init mux self g = Some g' \<Longrightarrow> client_ok self \<Longrightarrow> gsm_inv g \<Longrightarrow> gsm_inv g'"
  by (auto simp: client_init_def gsm_inv_def client_ok_def split: if_splits
      dest!: subsetD [OF set_update_subset_insert])

lemma client_stop_inv: "client_stop mux g = Some g' \<Longrightarrow> gsm_inv g \<Longrightarrow> gsm_inv g'"
  by (auto simp: client_stop_def split: option.splits intro!: talks_inv_steps elim!: set_socket_inv
      simp: client_ok_def fifo.inv_clear)

lemma client_connect_with_inv:
  assumes "client_connect_with ssl mux host port g = Some r" and "gsm_inv g"
  shows "gsm_inv (snd r)"
proof -
  obtain g1 where g1: "client_stop mux g = Some g1"
    using assms(1) by (auto simp: client_connect_with_def split: option.splits)
  obtain g2 where g2: "set_socket mux (\<lambda>cl. cl\<lparr>cl_rx := fifo_clear (cl_rx cl)\<rparr>) g1 = Some g2"
    using assms(1) g1 by (auto simp: client_connect_with_def split: option.splits)
  have "gsm_inv g2"
    using set_socket_inv [OF g2 client_stop_inv [OF g1 assms(2)]] by (simp add: client_ok_def fifo.inv_clear)
  then have "gsm_inv (snd (modemConnect host port mux ssl g2))" by (rule modemConnect_inv)
  then show ?thesis using assms(1) g1 g2
    by (auto simp: client_connect_with_def case_prod_beta elim!: set_socket_inv)
qed

lemma client_write_inv: "client_write mux buf g = Some r \<Longrightarrow> gsm_inv g \<Longrightarrow> gsm_inv (snd r)"
  by (auto simp: client_write_def split: option.splits dest!: modemSend_inv intro: maintain_inv)

lemma client_available_inv: "client_available mux g = Some r \<Longrightarrow> gsm_inv g \<Longrightarrow> gsm_inv (snd r)"
  by (auto simp: client_available_def split: option.splits if_splits
      elim!: maintain_inv intro!: update_at_inv)

lemma client_connected_inv: "client_connected mux g = Some r \<Longrightarrow> gsm_inv g \<Longrightarrow> gsm_inv (snd r)"
  by (auto simp: client_connected_def split: option.splits if_splits dest!: client_available_inv)

text \<open>The loop of \<open>read\<close>, one rule for its four ways: it is over, takes bytes of the buffer, finds nothing
  after \<open>maintain\<close>, or fetches bytes from the modem.\<close>

lemma client_read_loop_rule:
  assumes "client_read_loop mux sz cnt buf g = Some r"
    and over: "\<And>cnt buf g cl. socket_of mux g = Some cl \<Longrightarrow> \<not> (cnt < sz \<and> cl_connected cl) \<Longrightarrow> P cnt buf g (buf, g)"
    and chunk: "\<And>cnt buf g cl bytes q r. socket_of mux g = Some cl \<Longrightarrow> cnt < sz \<Longrightarrow> cl_connected cl \<Longrightarrow>
      0 < TinyGsmMin (sz - cnt) (rx_size cl) \<Longrightarrow>
      fifo_get_block TINY_GSM_RX_BUFFER False (cl_rx cl) (TinyGsmMin (sz - cnt) (rx_size cl)) = Some (bytes, q) \<Longrightarrow>
      P (cnt + TinyGsmMin (sz - cnt) (rx_size cl)) (buf @ bytes)
        (sockets_update_at (unat mux) (\<lambda>cl. cl\<lparr>cl_rx := q\<rparr>) g) r \<Longrightarrow> P cnt buf g r"
    and nothing: "\<And>cnt buf g cl g1 cl1. socket_of mux g = Some cl \<Longrightarrow> cnt < sz \<Longrightarrow> cl_connected cl \<Longrightarrow>
      TinyGsmMin (sz - cnt) (rx_size cl) = 0 \<Longrightarrow> maintain g = Some g1 \<Longrightarrow> socket_of mux g1 = Some cl1 \<Longrightarrow>
      \<not> cl_available cl1 > 0 \<Longrightarrow> P cnt buf g (buf, g1)"
    and fetch: "\<And>cnt buf g cl g1 cl1 n g2 r. socket_of mux g = Some cl \<Longrightarrow> cnt < sz \<Longrightarrow> cl_connected cl \<Longrightarrow>
      TinyGsmMin (sz - cnt) (rx_size cl) = 0 \<Longrightarrow> maintain g = Some g1 \<Longrightarrow> socket_of mux g1 = Some cl1 \<Longrightarrow>
      cl_available cl1 > 0 \<Longrightarrow>
      modemRead (c_uint (fifo_free TINY_GSM_RX_BUFFER (cl_rx cl1))) mux g1 = Some (n, g2) \<Longrightarrow>
      P cnt buf g2 r \<Longrightarrow> P cnt buf g r"
  shows "P cnt buf g r"
proof (rule client_read_loop.raw_induct
    [where P = "\<lambda>m s cnt buf g r. m = mux \<longrightarrow> s = sz \<longrightarrow> P cnt buf g r", OF _ assms(1), rule_format], goal_cases)
  case (1 loop m s cnt buf g r)
  then have IH: "loop mux sz cnt buf g = Some r \<Longrightarrow> P cnt buf g r" for cnt buf g r by blast
  note eq = "1"(2) [unfolded "1"(3,4)]
  obtain cl where cl: "socket_of mux g = Some cl" using eq by (auto split: option.splits)
  let ?chunk = "TinyGsmMin (sz - cnt) (rx_size cl)"
  consider (over) "\<not> (cnt < sz \<and> cl_connected cl)" | (chunk) "cnt < sz" "cl_connected cl" "0 < ?chunk"
    | (empty) "cnt < sz" "cl_connected cl" "?chunk = 0" by blast
  then show ?case
  proof cases
    case over
    then have "r = (buf, g)" using eq cl by auto
    then show ?thesis using assms(2) [OF cl over] by simp
  next
    case chunk
    then obtain bytes q where q: "fifo_get_block TINY_GSM_RX_BUFFER False (cl_rx cl) ?chunk = Some (bytes, q)"
      "loop mux sz (cnt + ?chunk) (buf @ bytes) (sockets_update_at (unat mux) (\<lambda>cl. cl\<lparr>cl_rx := q\<rparr>) g) = Some r"
      using eq cl by (auto simp: Let_def split: option.splits)
    show ?thesis by (rule assms(3) [OF cl chunk q(1) IH [OF q(2)]])
  next
    case empty
    then obtain g1 cl1 where g1: "maintain g = Some g1" "socket_of mux g1 = Some cl1"
      using eq cl by (auto split: option.splits)
    show ?thesis
    proof (cases "cl_available cl1 > 0")
      case True
      then show ?thesis
        using eq cl empty g1 by (auto split: option.splits intro: assms(5) [OF cl empty g1 True] IH)
    next
      case False
      then have "r = (buf, g1)" using eq cl empty g1 by simp
      then show ?thesis using assms(4) [OF cl empty g1] False by simp
    qed
  qed
qed auto

lemma client_read_loop_inv:
  assumes "client_read_loop mux sz cnt buf g = Some r"
  shows "gsm_inv g \<longrightarrow> gsm_inv (snd r)"
  using assms
proof (rule client_read_loop_rule; intro impI)
  fix cnt buf g cl bytes q r
  assume a: "socket_of mux g = Some cl" "gsm_inv g"
    "fifo_get_block TINY_GSM_RX_BUFFER False (cl_rx cl) (TinyGsmMin (sz - cnt) (rx_size cl)) = Some (bytes, q)"
    "gsm_inv (sockets_update_at (unat mux) (\<lambda>cl. cl\<lparr>cl_rx := q\<rparr>) g) \<longrightarrow> gsm_inv (snd r)"
  have "fifo_inv TINY_GSM_RX_BUFFER q"
    using fifo.get_block [OF socket_ok [OF a(2,1), unfolded client_ok_def]] a(3) by (metis option.inject prod.inject)
  then show "gsm_inv (snd r)" using a(2,4) by (auto intro: update_at_inv)
qed (use maintain_inv modemRead_inv in \<open>fastforce+\<close>)

lemma client_read_inv: "client_read mux sz g = Some r \<Longrightarrow> gsm_inv g \<Longrightarrow> gsm_inv (snd r)"
  using client_read_loop_inv [rule_format] maintain_inv by (auto simp: client_read_def split: option.splits)


section \<open>Reachable states\<close>

text \<open>
  The states the driver can get into: registering a client object, the calls of a client, \<open>maintain\<close>,
  the commands and waits that every other operation is made of, and the modem sending more bytes.
\<close>

inductive driver_reachable :: "gsm \<Rightarrow> bool" where
  start: "driver_reachable \<lparr>w_now = n, w_in = [], w_out = [], sockets = replicate TINY_GSM_MUX_COUNT None\<rparr>"
| arrive: "driver_reachable g \<Longrightarrow> driver_reachable (g\<lparr>w_in := w_in g @ xs\<rparr>)"
| register: "driver_reachable g \<Longrightarrow> client_ok self \<Longrightarrow> client_init mux self g = Some g' \<Longrightarrow> driver_reachable g'"
| stop: "driver_reachable g \<Longrightarrow> client_stop mux g = Some g' \<Longrightarrow> driver_reachable g'"
| connect: "driver_reachable g \<Longrightarrow> client_connect_with ssl mux host port g = Some (c, g') \<Longrightarrow> driver_reachable g'"
| do_write: "driver_reachable g \<Longrightarrow> client_write mux buf g = Some (i, g') \<Longrightarrow> driver_reachable g'"
| read: "driver_reachable g \<Longrightarrow> client_read mux sz g = Some (str, g') \<Longrightarrow> driver_reachable g'"
| available: "driver_reachable g \<Longrightarrow> client_available mux g = Some (k, g') \<Longrightarrow> driver_reachable g'"
| connected: "driver_reachable g \<Longrightarrow> client_connected mux g = Some (c, g') \<Longrightarrow> driver_reachable g'"
| maintain: "driver_reachable g \<Longrightarrow> maintain g = Some g' \<Longrightarrow> driver_reachable g'"
| command: "driver_reachable g \<Longrightarrow> driver_reachable (sendAT cmd g)"
| do_wait: "driver_reachable g \<Longrightarrow> waitResponse timeout data rs g = (j, d, g') \<Longrightarrow> driver_reachable g'"

text \<open>C12: in every state the driver can reach, whatever the modem sends, the socket table keeps its length
  and the receive buffer of every registered client is consistent, so that no access of the ring
  buffer leaves its array.
\<close>

theorem driver_invariant:
  assumes "driver_reachable g"
  shows "gsm_inv g"
  using assms
proof induction
  case (start n)
  show ?case by (simp add: gsm_inv_def)
next
  case (arrive g xs)
  then show ?case by (simp add: gsm_inv_def)
next
  case (do_wait g timeout data rs j d g')
  then show ?case using talks_inv [OF talks_waitResponse [OF talks_refl], of g timeout data rs] by simp
qed (auto simp: talks_inv_steps dest: client_init_inv client_stop_inv client_connect_with_inv client_write_inv
      client_read_inv client_available_inv client_connected_inv maintain_inv)

theorem driver_invariant_witness:
  "gsm_inv \<lparr>w_now = 5, w_in = [(7, CHR ''x'')], w_out = [],
     sockets = [Some (sample_client\<lparr>cl_connected := False\<rparr>)]\<rparr>"
proof -
  have "driver_reachable \<lparr>w_now = 5, w_in = [], w_out = [], sockets = replicate TINY_GSM_MUX_COUNT None\<rparr>"
    by (rule driver_reachable.start)
  moreover have "client_ok sample_client"
    by (simp add: client_ok_def sample_client_def fifo_inv_def TINY_GSM_RX_BUFFER_def)
  moreover have "client_init 0 sample_client
      \<lparr>w_now = 5, w_in = [], w_out = [], sockets = replicate TINY_GSM_MUX_COUNT None\<rparr> =
    Some \<lparr>w_now = 5, w_in = [], w_out = [], sockets = [Some (sample_client\<lparr>cl_connected := False\<rparr>)]\<rparr>"
    by (simp add: client_init_def TINY_GSM_MUX_COUNT_def sample_client_def)
  ultimately have "driver_reachable \<lparr>w_now = 5, w_in = [], w_out = [],
      sockets = [Some (sample_client\<lparr>cl_connected := False\<rparr>)]\<rparr>"
    by (rule driver_reachable.register)
  from driver_invariant [OF driver_reachable.arrive [OF this, of "[(7, CHR ''x'')]"]] show ?thesis by simp
qed

section \<open>Receiving data\<close>

lemma set_socket_Some:
  assumes "socket_of mux g = Some cl"
  shows "\<exists>g'. set_socket mux f g = Some g' \<and> socket_of mux g' = Some (f cl) \<and>
    w_in g' = w_in g \<and> w_now g' = w_now g \<and> w_out g' = w_out g"
  using assms by (auto simp: set_socket_def socket_of_def sockets_update_at_def split: if_splits)

lemma after_socket: "after T r g g' \<Longrightarrow> socket_of mux g' = socket_of mux g"
  by (auto simp: after_def socket_of_def)

lemma socket_of_line [simp]:
  "socket_of mux (sendAT cmd g) = socket_of mux g"
  "socket_of mux (g\<lparr>w_now := n, w_in := r\<rparr>) = socket_of mux g"
  by (simp_all add: socket_of_def sendAT_def stream_print_def)

lemma incoming_cong:
  "w_in g' = w_in g \<Longrightarrow> w_now g' = w_now g \<Longrightarrow> incoming T s rest g' = incoming T s rest g"
  by (simp add: incoming_def)

lemma rx_loop_incoming:
  assumes "incoming T (cs @ tail) rest g" and "socket_of mux g = Some cl" and "client_ok cl"
  shows "\<exists>g'. rx_loop (length cs) mux g = Some g' \<and> incoming T tail rest g' \<and> w_now g \<le> w_now g' \<and>
    socket_of mux g' = Some (cl\<lparr>cl_rx := foldl (\<lambda>q c. snd (fifo_put TINY_GSM_RX_BUFFER q c)) (cl_rx cl) cs\<rparr>)"
  using assms
proof (induction cs arbitrary: g cl)
  case Nil
  then show ?case by simp
next
  case (Cons c cs)
  then have "incoming T (c # (cs @ tail)) rest g" by simp
  from wait_available_incoming [OF this] obtain n mid where n: "w_now g \<le> n" "n \<le> T"
    and av: "wait_available g = Some (g\<lparr>w_now := n\<rparr>)"
      "stream_read (g\<lparr>w_now := n\<rparr>) = (Some c, g\<lparr>w_now := n, w_in := mid\<rparr>)"
    and inc: "incoming T (cs @ tail) rest (g\<lparr>w_now := n, w_in := mid\<rparr>)" .
  let ?g1 = "g\<lparr>w_now := n, w_in := mid\<rparr>"
  let ?f = "\<lambda>cl. cl\<lparr>cl_rx := snd (fifo_put TINY_GSM_RX_BUFFER (cl_rx cl) c)\<rparr>"
  have "socket_of mux ?g1 = Some cl" using Cons.prems(2) by simp
  then obtain g2 where g2: "set_socket mux ?f ?g1 = Some g2" "socket_of mux g2 = Some (?f cl)"
    "w_in g2 = w_in ?g1" "w_now g2 = w_now ?g1"
    using set_socket_Some by blast
  have "incoming T (cs @ tail) rest g2" using inc g2 by (simp add: incoming_def)
  moreover have "client_ok (?f cl)" using Cons.prems(3) by (simp add: client_ok_def fifo.put_step(1))
  ultimately show ?case using Cons.IH [of g2 "?f cl"] g2 av n by auto
qed

text \<open>What \<open>modemRead\<close> reads before the data: two fields that it skips, the length and the number of bytes left.\<close>

lemma read_header_incoming:
  assumes "incoming T (s1 @ a @ CHR '','' # b @ CHR '','' # l @ CHR '','' # r @ CHR 0x0A # s) rest g"
    and "T < w_now g + 1000" and "answers (default_rs ''+CIPRXGET:'') 1 s1"
    and "CHR '','' \<notin> set (a @ b @ l)" and "CHR 0x0A \<notin> set r"
  obtains g1 g2 g3 g4 g5 n where "wait_text ''+CIPRXGET:'' g = (1, g1)" "streamSkipUntil CHR '','' g1 = Some g2"
    "streamSkipUntil CHR '','' g2 = Some g3" "readStringUntil CHR '','' g3 = (l, g4)" "readStringUntil CHR 0x0A g4 = (r, g5)"
    "after T n g g5" "incoming T s rest g5"
proof -
  let ?rest = "a @ CHR '','' # b @ CHR '','' # l @ CHR '','' # r @ CHR 0x0A # s"
  from wait_text_incoming [OF assms(1-3)] obtain m1 g1 where
    w: "wait_text ''+CIPRXGET:'' g = (1, g1)" "after T m1 g g1" "incoming T ?rest rest g1" .
  have sep: "CHR '','' \<notin> set a" "CHR '','' \<notin> set b" "CHR '','' \<notin> set l" using assms(4) by simp_all
  from streamSkip_incoming [OF w(3) sep(1)] obtain m2 g2 where
    k2: "streamSkipUntil CHR '','' g1 = Some g2" "after T m2 g1 g2"
      "incoming T (b @ CHR '','' # l @ CHR '','' # r @ CHR 0x0A # s) rest g2" .
  from streamSkip_incoming [OF k2(3) sep(2)] obtain m3 g3 where
    k3: "streamSkipUntil CHR '','' g2 = Some g3" "after T m3 g2 g3" "incoming T (l @ CHR '','' # r @ CHR 0x0A # s) rest g3" .
  have a3: "after T m3 g g3" using w(2) k2(2) k3(2) after_trans by blast
  then have t3: "T \<le> w_now g3 + 1000" using after_now [OF a3] assms(2) by simp
  from readStringUntil_incoming [OF k3(3) sep(3) t3] obtain m4 g4 where
    r4: "readStringUntil CHR '','' g3 = (l, g4)" "after T m4 g3 g4" "incoming T (r @ CHR 0x0A # s) rest g4" .
  have t4: "T \<le> w_now g4 + 1000" using after_now [OF r4(2)] t3 by simp
  from readStringUntil_incoming [OF r4(3) assms(5) t4] obtain m5 g5 where
    r5: "readStringUntil CHR 0x0A g4 = (r, g5)" "after T m5 g4 g5" "incoming T s rest g5" .
  have "after T m5 g g5" using a3 r4(2) r5(2) after_trans by blast
  then show ?thesis using that w(1) k2(1) k3(1) r4(1) r5(1,3) by blast
qed

text \<open>C17: fetching received data: when the modem answers with the announced number of bytes, \<open>modemRead\<close>
  returns that number, appends the bytes to what the receive buffer holds, in order and whatever
  bytes they are, up to the room there is, and notes how many bytes the modem still has.
\<close>

theorem modemRead_answer:
  assumes "incoming T (s1 @ a @ CHR '','' # b @ CHR '','' # l @ CHR '','' # r @ CHR 0x0A # cs @ s2) rest g"
    and "T < w_now g + 1000" and "socket_of mux g = Some cl" and "client_ok cl"
    and "answers (default_rs ''+CIPRXGET:'') 1 s1" and "CHR '','' \<notin> set (a @ b @ l)" and "CHR 0x0A \<notin> set r"
    and "str_toInt l = int (length cs)" and "length cs < 2 ^ 31" and "answers (default_rs gsm_ok) i s2"
  shows "\<exists>g' cl'. modemRead sz mux g = Some (length cs, g') \<and> w_in g' = rest \<and>
    socket_of mux g' = Some cl' \<and> cl_available cl' = of_int (str_toInt r) \<and> client_ok cl' \<and>
    rx_list cl' = rx_list cl @ take (TINY_GSM_RX_BUFFER - 1 - length (rx_list cl)) cs"
proof -
  let ?g = "sendAT (''+CIPRXGET=2,'' @ print_number (unat mux) 10 @ '','' @ print_number sz 10) g"
  let ?put = "foldl (\<lambda>q c. snd (fifo_put TINY_GSM_RX_BUFFER q c)) (cl_rx cl) cs"
  have "incoming T (s1 @ a @ CHR '','' # b @ CHR '','' # l @ CHR '','' # r @ CHR 0x0A # cs @ s2) rest ?g" "T < w_now ?g + 1000"
    using assms(1,2) by simp_all
  from read_header_incoming [OF this assms(5-7)] obtain g1 g2 g3 g4 g5 n where
    h: "wait_text ''+CIPRXGET:'' ?g = (1, g1)" "streamSkipUntil CHR '','' g1 = Some g2"
      "streamSkipUntil CHR '','' g2 = Some g3" "readStringUntil CHR '','' g3 = (l, g4)" "readStringUntil CHR 0x0A g4 = (r, g5)"
    and a5: "after T n ?g g5" and r5: "incoming T (cs @ s2) rest g5" .
  have "socket_of mux g5 = Some cl" using after_socket [OF a5, of mux] assms(3) by simp
  then obtain g6 where g6: "set_socket mux (\<lambda>cl. cl\<lparr>cl_available := of_int (str_toInt r)\<rparr>) g5 = Some g6"
    "socket_of mux g6 = Some (cl\<lparr>cl_available := of_int (str_toInt r)\<rparr>)" "w_in g6 = w_in g5" "w_now g6 = w_now g5"
    using set_socket_Some by blast
  have "incoming T (cs @ s2) rest g6" using r5 g6 by (simp add: incoming_def)
  from rx_loop_incoming [OF this g6(2)] assms(4) obtain g7 where
    g7: "rx_loop (length cs) mux g6 = Some g7" "incoming T s2 rest g7" "w_now g6 \<le> w_now g7"
    "socket_of mux g7 = Some (cl\<lparr>cl_available := of_int (str_toInt r), cl_rx := ?put\<rparr>)" by auto
  have t7: "T < w_now g7 + 1000" using after_now [OF a5] g6(4) g7(3) assms(2) by simp
  have a8: "after T rest g7 (after_wait g7)" by (rule after_wait_last [OF g7(2) t7 assms(10)])
  have "c_uint (str_toInt l) = length cs" using assms(8,9) by (simp add: c_uint_def)
  then have "modemRead sz mux g = Some (length cs, after_wait g7)"
    using h g6(1) g7(1) by (simp add: modemRead_def Let_def)
  moreover have "fifo_list TINY_GSM_RX_BUFFER ?put = rx_list cl @ take (TINY_GSM_RX_BUFFER - 1 - length (rx_list cl)) cs \<and>
      fifo_inv TINY_GSM_RX_BUFFER ?put"
    using fifo.put_all [OF assms(4) [unfolded client_ok_def], of cs] by (simp add: rx_list_def)
  moreover have "w_in (after_wait g7) = rest" using a8 by (rule after_in)
  ultimately show ?thesis using g7(4) after_socket [OF a8, of mux] by (auto simp: rx_list_def client_ok_def)
qed


lemma rx_list_sample: "rx_list sample_client = [] \<and> client_ok sample_client"
  by (simp add: rx_list_def sample_client_def fifo_list_def fifo_size_def client_ok_def fifo_inv_def
      TINY_GSM_RX_BUFFER_def)

theorem modemRead_answer_witness:
  "\<exists>g' cl'. modemRead 1459 0 (sample_gsm ((gsm_nl @ ''+CIPRXGET:'') @ '' 2'' @ CHR '','' # ''0'' @ CHR '','' #
      ''3'' @ CHR '','' # (''7'' @ [CHR 0x0D]) @ CHR 0x0A # [CHR 0x00, CHR 0x0A, CHR '',''] @ (gsm_nl @ gsm_ok))) =
    Some (3, g') \<and> socket_of 0 g' = Some cl' \<and> cl_available cl' = 7 \<and> rx_list cl' = [CHR 0x00, CHR 0x0A, CHR '','']"
proof -
  let ?cs = "[CHR 0x00, CHR 0x0A, CHR '','']"
  let ?s = "(gsm_nl @ ''+CIPRXGET:'') @ '' 2'' @ CHR '','' # ''0'' @ CHR '','' #
      ''3'' @ CHR '','' # (''7'' @ [CHR 0x0D]) @ CHR 0x0A # ?cs @ (gsm_nl @ gsm_ok)"
  have n: "str_toInt [CHR ''7'', CHR 0x0D] = 7" "str_toInt ''3'' = 3" by code_simp+
  have "\<exists>g' cl'. modemRead 1459 0 (sample_gsm ?s) = Some (length ?cs, g') \<and> w_in g' = [] \<and>
    socket_of 0 g' = Some cl' \<and> cl_available cl' = of_int (str_toInt (''7'' @ [CHR 0x0D])) \<and> client_ok cl' \<and>
    rx_list cl' = rx_list sample_client @ take (TINY_GSM_RX_BUFFER - 1 - length (rx_list sample_client)) ?cs"
  proof (rule modemRead_answer [where a = "'' 2''" and b = "''0''" and l = "''3''"])
    show "incoming 1 ?s [] (sample_gsm ?s)" by (rule incoming_sample)
    show "socket_of 0 (sample_gsm ?s) = Some sample_client" by (simp add: socket_of_def sample_gsm_def)
    show "client_ok sample_client" using rx_list_sample by blast
    show "answers (default_rs ''+CIPRXGET:'') 1 (gsm_nl @ ''+CIPRXGET:'')" by code_simp
    show "answers (default_rs gsm_ok) 1 (gsm_nl @ gsm_ok)" by code_simp
  qed (simp_all add: n)
  then show ?thesis using rx_list_sample by (auto simp: n TINY_GSM_RX_BUFFER_def)
qed

text \<open>Nothing to do for \<open>maintain\<close>: no socket has been notified and no byte is waiting.\<close>

lemma maintain_idle:
  assumes "gsm_inv g" and "socket_of 0 g = Some cl" and "\<not> cl_got_data cl" and "available g = 0"
  shows "maintain g = Some g"
proof -
  have "maintain_socket 0 g = Some g" using assms by (simp add: maintain_socket_def)
  moreover have "drain g = g" using assms(4) by (subst drain.simps) simp
  ultimately show ?thesis by (simp add: maintain_def TINY_GSM_MUX_COUNT_def)
qed

text \<open>A read that the receive buffer can satisfy returns its oldest bytes in order, keeps the rest, and
  does not talk to the modem.
\<close>

theorem client_read_buffered:
  assumes "gsm_inv g" and "socket_of 0 g = Some cl" and "cl_connected cl" and "\<not> cl_got_data cl"
    and "available g = 0" and "sz \<le> length (rx_list cl)"
  shows "\<exists>g' cl'. client_read 0 sz g = Some (take sz (rx_list cl), g') \<and> socket_of 0 g' = Some cl' \<and>
    rx_list cl' = drop sz (rx_list cl) \<and> client_ok cl' \<and> w_out g' = w_out g \<and> w_in g' = w_in g"
proof -
  have read: "client_read 0 sz g = client_read_loop 0 sz 0 [] g"
    using maintain_idle [OF assms(1,2,4,5)] by (simp add: client_read_def)
  have ok: "fifo_inv TINY_GSM_RX_BUFFER (cl_rx cl)" using socket_ok [OF assms(1,2)] by (simp add: client_ok_def)
  have stop: "client_read_loop 0 sz sz buf h = Some (buf, h)" if "socket_of 0 h \<noteq> None" for buf h
    using that by (subst client_read_loop.simps) auto
  show ?thesis
  proof (cases "sz = 0")
    case True
    then show ?thesis using read stop [of g "[]"] assms ok by (simp add: client_ok_def)
  next
    case False
    have "TinyGsmMin (sz - 0) (rx_size cl) = sz" using assms(6) by (simp add: TinyGsmMin_def rx_size_def rx_list_def)
    moreover obtain q where q: "fifo_get_block TINY_GSM_RX_BUFFER False (cl_rx cl) sz = Some (take sz (rx_list cl), q)"
      "fifo_inv TINY_GSM_RX_BUFFER q" "fifo_list TINY_GSM_RX_BUFFER q = drop sz (rx_list cl)"
      using fifo.get_block [OF ok, of sz] by (auto simp: rx_list_def)
    let ?g = "sockets_update_at (unat (0 :: u8)) (\<lambda>cl. cl\<lparr>cl_rx := q\<rparr>) g"
    have len: "length (sockets g) = 1" using assms(1) by (simp add: gsm_inv_def TINY_GSM_MUX_COUNT_def)
    then have sock: "socket_of 0 ?g = Some (cl\<lparr>cl_rx := q\<rparr>)"
      using assms(2) by (auto simp: socket_of_def sockets_update_at_def)
    ultimately have "client_read_loop 0 sz 0 [] g = client_read_loop 0 sz sz (take sz (rx_list cl)) ?g"
      using assms(2,3) False q(1) by (subst client_read_loop.simps) (simp add: Let_def)
    then have "client_read 0 sz g = Some (take sz (rx_list cl), ?g)" using read stop sock by simp
    then show ?thesis using sock q(2,3)
      by (auto simp: rx_list_def client_ok_def sockets_update_at_def)
  qed
qed

theorem client_read_buffered_witness:
  "\<exists>g'. client_read 0 2 \<lparr>w_now = 0, w_in = [], w_out = [],
      sockets = [Some (sample_client\<lparr>cl_rx := snd (fifo_put 1460 (snd (fifo_put 1460 (snd (fifo_put 1460
        (cl_rx sample_client) (CHR ''a''))) (CHR ''b''))) (CHR ''c''))\<rparr>)]\<rparr> = Some (''ab'', g')"
proof -
  let ?q = "snd (fifo_put 1460 (snd (fifo_put 1460 (snd (fifo_put 1460
        (cl_rx sample_client) (CHR ''a''))) (CHR ''b''))) (CHR ''c''))"
  let ?cl = "sample_client\<lparr>cl_rx := ?q\<rparr>"
  let ?g = "\<lparr>w_now = 0, w_in = [], w_out = [], sockets = [Some ?cl]\<rparr> :: gsm"
  have "fifo_inv 1460 (cl_rx sample_client)" "fifo_list 1460 (cl_rx sample_client) = []"
    using rx_list_sample by (simp_all add: client_ok_def rx_list_def TINY_GSM_RX_BUFFER_def)
  then have q: "fifo_inv 1460 ?q" "fifo_list 1460 ?q = ''abc''"
    by (simp_all add: fifo.put_step)
  then have rx: "rx_list ?cl = ''abc''" by (simp add: rx_list_def TINY_GSM_RX_BUFFER_def)
  have "\<exists>g' cl'. client_read 0 2 ?g = Some (take 2 (rx_list ?cl), g') \<and> socket_of 0 g' = Some cl' \<and>
    rx_list cl' = drop 2 (rx_list ?cl) \<and> client_ok cl' \<and> w_out g' = w_out ?g \<and> w_in g' = w_in ?g"
  proof (rule client_read_buffered)
    show "gsm_inv ?g" using q(1) by (simp add: gsm_inv_def client_ok_def TINY_GSM_MUX_COUNT_def TINY_GSM_RX_BUFFER_def)
    show "socket_of 0 ?g = Some ?cl" by (simp add: socket_of_def)
    show "cl_connected ?cl" "\<not> cl_got_data ?cl" by (simp_all add: sample_client_def)
    show "available ?g = 0" by (simp add: available_def)
    show "2 \<le> length (rx_list ?cl)" using rx by simp
  qed
  then show ?thesis using rx by auto
qed


text \<open>With a silent line, waiting changes nothing but the clock.\<close>

lemma wait_loop_silent_state:
  assumes "w_in g = []"
  shows "\<exists>n. wait_loop timeout start rs data g = (0, [], g\<lparr>w_now := n\<rparr>)"
  using assms
proof (induction timeout start rs data g rule: wait_loop.induct)
  case (1 timeout start rs data g)
  have rd: "stream_read g = (None, g)" using "1.prems" by (simp add: stream_read_def)
  show ?case
  proof (cases "millis g - start < timeout")
    case True
    then have "wait_loop timeout start rs data g = wait_loop timeout start rs data (idle_poll g)"
      using rd by (subst wait_loop.simps) simp
    then show ?thesis using "1.IH"(1) [OF rd [symmetric] refl True] "1.prems" by (auto simp: idle_poll_def)
  next
    case False
    then have "wait_loop timeout start rs data g = (0, [], g)" using rd by (subst wait_loop.simps) simp
    moreover have "g = g\<lparr>w_now := w_now g\<rparr>" by simp
    ultimately show ?thesis by metis
  qed
qed

lemma modemRead_silent:
  assumes "w_in g = []"
  shows "\<exists>g'. modemRead sz mux g = Some (0, g') \<and> sockets g' = sockets g \<and> w_in g' = []"
proof -
  let ?g = "sendAT (''+CIPRXGET=2,'' @ print_number (unat mux) 10 @ '','' @ print_number sz 10) g"
  have "w_in ?g = []" using assms by (simp add: sendAT_def stream_print_def)
  then obtain n where "wait_loop 1000 (millis ?g) (default_rs ''+CIPRXGET:'') [] ?g = (0, [], ?g\<lparr>w_now := n\<rparr>)"
    using wait_loop_silent_state by blast
  then have "modemRead sz mux g = Some (0, ?g\<lparr>w_now := n\<rparr>)"
    by (simp add: modemRead_def wait_text_def wait_for_def waitResponse_def)
  then show ?thesis using assms by (simp add: sendAT_def stream_print_def)
qed

text \<open>A connected socket that has data at the modem, an empty receive buffer and a line that has fallen silent.\<close>

definition stuck :: "gsm \<Rightarrow> bool" where
  "stuck g \<longleftrightarrow> w_in g = [] \<and> (\<exists>cl. sockets g = [Some cl] \<and> cl_connected cl \<and> \<not> cl_got_data cl \<and>
     rx_size cl = 0 \<and> cl_available cl > 0)"

lemma stuck_step:
  assumes "stuck g"
  obtains cl where "socket_of 0 g = Some cl" "cl_connected cl" "rx_size cl = 0" "cl_available cl > 0"
    "maintain g = Some g" "\<And>n. \<exists>g'. modemRead n 0 g = Some (0, g') \<and> stuck g'"
proof -
  obtain cl where cl: "sockets g = [Some cl]" "cl_connected cl" "\<not> cl_got_data cl" "rx_size cl = 0"
    "cl_available cl > 0" and w: "w_in g = []" using assms by (auto simp: stuck_def)
  then have s: "socket_of 0 g = Some cl" by (simp add: socket_of_def)
  have "maintain_socket 0 g = Some g" "available g = 0" using s cl w by (simp_all add: maintain_socket_def available_def)
  then have "maintain g = Some g"
    by (simp add: maintain_def TINY_GSM_MUX_COUNT_def drain.simps)
  moreover have "\<exists>g'. modemRead n 0 g = Some (0, g') \<and> stuck g'" for n
    using modemRead_silent [OF w, of n 0] assms by (auto simp: stuck_def)
  ultimately show ?thesis using that s cl by blast
qed

lemma client_read_loop_hangs:
  assumes "stuck h" and "0 < sz"
  shows "client_read_loop 0 sz 0 [] h = None"
proof (rule ccontr)
  assume "client_read_loop 0 sz 0 [] h \<noteq> None"
  then obtain r where r: "client_read_loop 0 sz 0 [] h = Some r" by blast
  then have "(0 :: nat) = 0 \<longrightarrow> \<not> stuck h"
  proof (rule client_read_loop_rule [where P = "\<lambda>cnt buf g r. cnt = 0 \<longrightarrow> \<not> stuck g"])
    fix cnt buf g cl g1 cl1 n g2
    assume a: "maintain g = Some g1" "modemRead (c_uint (fifo_free TINY_GSM_RX_BUFFER (cl_rx cl1))) 0 g1 = Some (n, g2)"
      "cnt = (0 :: nat) \<longrightarrow> \<not> stuck g2"
    show "cnt = 0 \<longrightarrow> \<not> stuck g"
      using a by (auto elim!: stuck_step) (metis option.inject prod.inject)
  qed (use assms(2) in \<open>auto elim!: stuck_step simp: TinyGsmMin_def\<close>)
  then show False using assms(1) by simp
qed

text \<open>C24: \<open>read\<close> has no time limit: once the modem has announced data for a connected socket and then falls
  silent, a read that the receive buffer cannot satisfy asks again for ever.
\<close>

theorem client_read_hangs:
  assumes "stuck g" and "0 < sz"
  shows "client_read 0 sz g = None"
  using client_read_loop_hangs [OF assms] assms(1) by (elim stuck_step) (simp add: client_read_def)

theorem client_read_hangs_witness:
  "client_read 0 1 \<lparr>w_now = 0, w_in = [], w_out = [],
     sockets = [Some (sample_client\<lparr>cl_available := 4\<rparr>)]\<rparr> = None"
proof (rule client_read_hangs)
  show "stuck \<lparr>w_now = 0, w_in = [], w_out = [], sockets = [Some (sample_client\<lparr>cl_available := 4\<rparr>)]\<rparr>"
    by (simp add: stuck_def sample_client_def rx_size_def fifo_size_def)
qed simp

section \<open>Connecting\<close>

text \<open>C16: \<open>connect\<close> closes the old connection, empties the receive buffer and asks for the new one; whatever
  the modem answers, the client is marked as connected exactly when the call reports success.
\<close>

theorem client_connect_result:
  assumes "client_connect_with ssl mux host port g = Some (c, g')" and "gsm_inv g"
  shows "\<exists>cl. socket_of mux g' = Some cl \<and> cl_connected cl = c \<and> rx_list cl = [] \<and>
    w_out g' = w_out g @ at_line (''+CIPCLOSE='' @ print_number (unat mux) 10) @
      at_line (''+CIPSSL='' @ print_bool ssl) @
      at_line (''+CIPSTART='' @ print_number (unat mux) 10 @ '','' @ [quote] @ ''TCP'' @ [quote, CHR '','', quote] @
        host @ [quote, CHR '',''] @ print_number (unat port) 10)"
proof -
  obtain g1 where g1: "client_stop mux g = Some g1"
    using assms(1) by (auto simp: client_connect_with_def split: option.splits)
  obtain g2 where g2: "set_socket mux (\<lambda>cl. cl\<lparr>cl_rx := fifo_clear (cl_rx cl)\<rparr>) g1 = Some g2"
    using assms(1) g1 by (auto simp: client_connect_with_def split: option.splits)
  obtain b g3 where g3: "modemConnect host port mux ssl g2 = (b, g3)" by fastforce
  have g4: "set_socket mux (\<lambda>cl. cl\<lparr>cl_connected := b\<rparr>) g3 = Some g'" "c = b"
    using assms(1) g1 g2 g3 by (auto simp: client_connect_with_def)
  have i1: "gsm_inv g1" by (rule client_stop_inv [OF g1 assms(2)])
  obtain cl1 where cl1: "socket_of mux g1 = Some cl1"
    using g2 by (cases "socket_of mux g1") (auto simp: set_socket_def)
  then have c2: "socket_of mux g2 = Some (cl1\<lparr>cl_rx := fifo_clear (cl_rx cl1)\<rparr>)" "w_out g2 = w_out g1"
    using set_socket_Some [OF cl1, of "\<lambda>cl. cl\<lparr>cl_rx := fifo_clear (cl_rx cl)\<rparr>"] g2 by auto
  have rx: "fifo_list TINY_GSM_RX_BUFFER (fifo_clear (cl_rx cl1)) = []"
    using socket_ok [OF i1 cl1] fifo.content_clear by (simp add: client_ok_def)
  have "talks g2 g3"
    using g3 by (auto simp: modemConnect_def Let_def case_prod_beta intro!: talks_steps)
  then have "sockets_le g2 g3" by (simp add: talks_def)
  from sockets_le_socket [OF this c2(1)] obtain cl3 where
    f: "socket_of mux g3 = Some cl3" "flags_le (cl1\<lparr>cl_rx := fifo_clear (cl_rx cl1)\<rparr>) cl3" .
  have cl3: "socket_of mux g3 = Some cl3" "cl_rx cl3 = fifo_clear (cl_rx cl1)"
    using f(1) flags_le_rx [OF f(2)] by simp_all
  have "w_out g3 = w_out g2 @ at_line (''+CIPSSL='' @ print_bool ssl) @
      at_line (''+CIPSTART='' @ print_number (unat mux) 10 @ '','' @ [quote] @ ''TCP'' @ [quote, CHR '','', quote] @
        host @ [quote, CHR '',''] @ print_number (unat port) 10)"
    using g3 unfolding modemConnect_def Let_def case_prod_beta by (auto simp: at_line_def)
  moreover have "w_out g1 = w_out g @ at_line (''+CIPCLOSE='' @ print_number (unat mux) 10)"
    using g1 by (auto simp: client_stop_def set_socket_def sockets_update_at_def at_line_def
        split: option.splits if_splits)
  moreover have "socket_of mux g' = Some (cl3\<lparr>cl_connected := b\<rparr>)" "w_out g' = w_out g3"
    using set_socket_Some [OF cl3(1), of "\<lambda>cl. cl\<lparr>cl_connected := b\<rparr>"] g4(1) by auto
  ultimately show ?thesis using c2(2) cl3(2) rx g4(2) by (simp add: rx_list_def)
qed


lemma talks_socket: "talks g g' \<Longrightarrow> socket_of mux g \<noteq> None \<Longrightarrow> socket_of mux g' \<noteq> None"
  using sockets_le_socket by (metis not_None_eq talks_def)

lemma client_connect_returns:
  assumes "socket_of mux g \<noteq> None"
  shows "client_connect_with ssl mux host port g \<noteq> None"
proof -
  have set: "\<exists>h'. set_socket mux f h = Some h' \<and> socket_of mux h' \<noteq> None" if "socket_of mux h \<noteq> None" for f h
    using that set_socket_Some by (metis not_None_eq)
  obtain g1 where g1: "set_socket mux (\<lambda>cl. cl\<lparr>cl_connected := False\<rparr>)
      (sendAT (''+CIPCLOSE='' @ print_number (unat mux) 10) g) = Some g1" "socket_of mux g1 \<noteq> None"
    using set [of "sendAT (''+CIPCLOSE='' @ print_number (unat mux) 10) g"] assms by auto
  have "socket_of mux (after_wait g1) \<noteq> None" using talks_socket [OF talks_after_wait [OF talks_refl] g1(2)] .
  then obtain g2 where g2: "client_stop mux g = Some g2" "socket_of mux g2 \<noteq> None"
    using set g1(1) by (fastforce simp: client_stop_def)
  obtain g3 where g3: "set_socket mux (\<lambda>cl. cl\<lparr>cl_rx := fifo_clear (cl_rx cl)\<rparr>) g2 = Some g3" "socket_of mux g3 \<noteq> None"
    using set [OF g2(2)] by blast
  have "talks g3 (snd (modemConnect host port mux ssl g3))"
    by (auto simp: modemConnect_def Let_def case_prod_beta intro!: talks_steps)
  then have "socket_of mux (snd (modemConnect host port mux ssl g3)) \<noteq> None" using g3(2) by (rule talks_socket)
  then show ?thesis using g2(1) g3(1) set by (fastforce simp: client_connect_with_def case_prod_beta)
qed

theorem client_connect_result_witness:
  "\<exists>c g' cl. client_connect_with True 0 ''h'' 443 (sample_gsm ''xyz'') = Some (c, g') \<and> socket_of 0 g' = Some cl \<and>
     cl_connected cl = c \<and> rx_list cl = []"
proof -
  have inv: "gsm_inv (sample_gsm ''xyz'')"
    using rx_list_sample by (simp add: gsm_inv_def sample_gsm_def TINY_GSM_MUX_COUNT_def)
  have "socket_of 0 (sample_gsm ''xyz'') \<noteq> None" by (simp add: socket_of_def sample_gsm_def)
  then obtain c g' where "client_connect_with True 0 ''h'' 443 (sample_gsm ''xyz'') = Some (c, g')"
    using client_connect_returns by (metis not_None_eq surj_pair)
  then show ?thesis using client_connect_result [OF _ inv] by blast
qed

end
