(* ===== verification/AutoBaud.thy ===== *)
theory AutoBaud
  imports Serial
begin

text \<open>
  \<open>TinyGsmAutoBaud\<close> of \<open>src/main/TinyGsmCommon.h\<close>: finding the baud rate at which the modem answers.
  Setting the rate of the port (\<open>SerialAT.begin\<close>) is the parameter \<open>set_rate\<close>: what the modem sends
  afterwards depends on it.
\<close>

definition autobaud_rates :: "u32 list" where
  "autobaud_rates = [115200, 57600, 38400, 19200, 9600, 74400, 74880, 230400, 460800, 2400, 4800, 14400, 28800]"

fun autobaud_probe :: "nat \<Rightarrow> 'a world_scheme \<Rightarrow> bool \<times> 'a world_scheme" where
  "autobaud_probe 0 w = (False, w)"
| "autobaud_probe (Suc n) w =
     (case readString (stream_print (''AT'' @ [CHR 0x0D, CHR 0x0A]) w) of (input, w) \<Rightarrow>
        if str_indexOf_str input ''OK'' 0 \<ge> 0 then (True, w) else autobaud_probe n w)"

fun autobaud_loop ::
    "(u32 \<Rightarrow> 'a world_scheme \<Rightarrow> 'a world_scheme) \<Rightarrow> u32 \<Rightarrow> u32 \<Rightarrow> u32 list \<Rightarrow> 'a world_scheme \<Rightarrow>
      u32 \<times> 'a world_scheme" where
  "autobaud_loop set_rate minimum maximum [] w = (0, w)"
| "autobaud_loop set_rate minimum maximum (rate # rates) w =
     (if rate < minimum \<or> rate > maximum then autobaud_loop set_rate minimum maximum rates w
      else (case autobaud_probe 3 (delay 10 (set_rate rate w)) of (ok, w) \<Rightarrow>
              if ok then (rate, w) else autobaud_loop set_rate minimum maximum rates w))"

definition TinyGsmAutoBaud ::
    "(u32 \<Rightarrow> 'a world_scheme \<Rightarrow> 'a world_scheme) \<Rightarrow> u32 \<Rightarrow> u32 \<Rightarrow> 'a world_scheme \<Rightarrow> u32 \<times> 'a world_scheme" where
  "TinyGsmAutoBaud set_rate minimum maximum w = autobaud_loop set_rate minimum maximum autobaud_rates w"

text \<open>A rate that is found is one of the table, within the bounds, and the modem has answered at it.\<close>

lemma autobaud_loop_sound:
  "autobaud_loop set_rate mn mx rates w = (r, w') \<Longrightarrow> r \<noteq> 0 \<Longrightarrow>
   r \<in> set rates \<and> mn \<le> r \<and> r \<le> mx \<and>
   (\<exists>h. autobaud_probe 3 (delay 10 (set_rate r h)) = (True, w'))"
  by (induction set_rate mn mx rates w rule: autobaud_loop.induct)
    (auto split: if_splits prod.splits)

end
