(* ===== verification/Crc.thy ===== *)
theory Crc
  imports Prelude
begin

text \<open>
  The checksums of the SD card driver (\<open>src/components/arduino/libraries/SD/src/sd_diskio_crc.c\<close>):
  CRC-7 of a command and CRC-16 of a data block, each by a table of 256 entries. The reference is
  the shift register that takes one message bit at a time.
\<close>

unbundle bit_operations_syntax

section \<open>The code\<close>

definition m_CRC7Table :: "u8 list" where
  "m_CRC7Table =
    [0x00, 0x09, 0x12, 0x1B, 0x24, 0x2D, 0x36, 0x3F,
     0x48, 0x41, 0x5A, 0x53, 0x6C, 0x65, 0x7E, 0x77,
     0x19, 0x10, 0x0B, 0x02, 0x3D, 0x34, 0x2F, 0x26,
     0x51, 0x58, 0x43, 0x4A, 0x75, 0x7C, 0x67, 0x6E,
     0x32, 0x3B, 0x20, 0x29, 0x16, 0x1F, 0x04, 0x0D,
     0x7A, 0x73, 0x68, 0x61, 0x5E, 0x57, 0x4C, 0x45,
     0x2B, 0x22, 0x39, 0x30, 0x0F, 0x06, 0x1D, 0x14,
     0x63, 0x6A, 0x71, 0x78, 0x47, 0x4E, 0x55, 0x5C,
     0x64, 0x6D, 0x76, 0x7F, 0x40, 0x49, 0x52, 0x5B,
     0x2C, 0x25, 0x3E, 0x37, 0x08, 0x01, 0x1A, 0x13,
     0x7D, 0x74, 0x6F, 0x66, 0x59, 0x50, 0x4B, 0x42,
     0x35, 0x3C, 0x27, 0x2E, 0x11, 0x18, 0x03, 0x0A,
     0x56, 0x5F, 0x44, 0x4D, 0x72, 0x7B, 0x60, 0x69,
     0x1E, 0x17, 0x0C, 0x05, 0x3A, 0x33, 0x28, 0x21,
     0x4F, 0x46, 0x5D, 0x54, 0x6B, 0x62, 0x79, 0x70,
     0x07, 0x0E, 0x15, 0x1C, 0x23, 0x2A, 0x31, 0x38,
     0x41, 0x48, 0x53, 0x5A, 0x65, 0x6C, 0x77, 0x7E,
     0x09, 0x00, 0x1B, 0x12, 0x2D, 0x24, 0x3F, 0x36,
     0x58, 0x51, 0x4A, 0x43, 0x7C, 0x75, 0x6E, 0x67,
     0x10, 0x19, 0x02, 0x0B, 0x34, 0x3D, 0x26, 0x2F,
     0x73, 0x7A, 0x61, 0x68, 0x57, 0x5E, 0x45, 0x4C,
     0x3B, 0x32, 0x29, 0x20, 0x1F, 0x16, 0x0D, 0x04,
     0x6A, 0x63, 0x78, 0x71, 0x4E, 0x47, 0x5C, 0x55,
     0x22, 0x2B, 0x30, 0x39, 0x06, 0x0F, 0x14, 0x1D,
     0x25, 0x2C, 0x37, 0x3E, 0x01, 0x08, 0x13, 0x1A,
     0x6D, 0x64, 0x7F, 0x76, 0x49, 0x40, 0x5B, 0x52,
     0x3C, 0x35, 0x2E, 0x27, 0x18, 0x11, 0x0A, 0x03,
     0x74, 0x7D, 0x66, 0x6F, 0x50, 0x59, 0x42, 0x4B,
     0x17, 0x1E, 0x05, 0x0C, 0x33, 0x3A, 0x21, 0x28,
     0x5F, 0x56, 0x4D, 0x44, 0x7B, 0x72, 0x69, 0x60,
     0x0E, 0x07, 0x1C, 0x15, 0x2A, 0x23, 0x38, 0x31,
     0x46, 0x4F, 0x54, 0x5D, 0x62, 0x6B, 0x70, 0x79]"

text \<open>The index is computed in \<open>int\<close>: it is not cut to eight bits.\<close>

definition crc7_index :: "u8 \<Rightarrow> u8 \<Rightarrow> nat" where
  "crc7_index crc d = unat (push_bit 1 (ucast crc :: u32) XOR ucast d)"

definition CRC7 :: "u8 list \<Rightarrow> u8" where
  "CRC7 data = foldl (\<lambda>crc d. m_CRC7Table ! crc7_index crc d) 0 data"

definition m_CRC16Table :: "u16 list" where
  "m_CRC16Table =
    [0x0000, 0x1021, 0x2042, 0x3063, 0x4084, 0x50A5, 0x60C6, 0x70E7,
     0x8108, 0x9129, 0xA14A, 0xB16B, 0xC18C, 0xD1AD, 0xE1CE, 0xF1EF,
     0x1231, 0x0210, 0x3273, 0x2252, 0x52B5, 0x4294, 0x72F7, 0x62D6,
     0x9339, 0x8318, 0xB37B, 0xA35A, 0xD3BD, 0xC39C, 0xF3FF, 0xE3DE,
     0x2462, 0x3443, 0x0420, 0x1401, 0x64E6, 0x74C7, 0x44A4, 0x5485,
     0xA56A, 0xB54B, 0x8528, 0x9509, 0xE5EE, 0xF5CF, 0xC5AC, 0xD58D,
     0x3653, 0x2672, 0x1611, 0x0630, 0x76D7, 0x66F6, 0x5695, 0x46B4,
     0xB75B, 0xA77A, 0x9719, 0x8738, 0xF7DF, 0xE7FE, 0xD79D, 0xC7BC,
     0x48C4, 0x58E5, 0x6886, 0x78A7, 0x0840, 0x1861, 0x2802, 0x3823,
     0xC9CC, 0xD9ED, 0xE98E, 0xF9AF, 0x8948, 0x9969, 0xA90A, 0xB92B,
     0x5AF5, 0x4AD4, 0x7AB7, 0x6A96, 0x1A71, 0x0A50, 0x3A33, 0x2A12,
     0xDBFD, 0xCBDC, 0xFBBF, 0xEB9E, 0x9B79, 0x8B58, 0xBB3B, 0xAB1A,
     0x6CA6, 0x7C87, 0x4CE4, 0x5CC5, 0x2C22, 0x3C03, 0x0C60, 0x1C41,
     0xEDAE, 0xFD8F, 0xCDEC, 0xDDCD, 0xAD2A, 0xBD0B, 0x8D68, 0x9D49,
     0x7E97, 0x6EB6, 0x5ED5, 0x4EF4, 0x3E13, 0x2E32, 0x1E51, 0x0E70,
     0xFF9F, 0xEFBE, 0xDFDD, 0xCFFC, 0xBF1B, 0xAF3A, 0x9F59, 0x8F78,
     0x9188, 0x81A9, 0xB1CA, 0xA1EB, 0xD10C, 0xC12D, 0xF14E, 0xE16F,
     0x1080, 0x00A1, 0x30C2, 0x20E3, 0x5004, 0x4025, 0x7046, 0x6067,
     0x83B9, 0x9398, 0xA3FB, 0xB3DA, 0xC33D, 0xD31C, 0xE37F, 0xF35E,
     0x02B1, 0x1290, 0x22F3, 0x32D2, 0x4235, 0x5214, 0x6277, 0x7256,
     0xB5EA, 0xA5CB, 0x95A8, 0x8589, 0xF56E, 0xE54F, 0xD52C, 0xC50D,
     0x34E2, 0x24C3, 0x14A0, 0x0481, 0x7466, 0x6447, 0x5424, 0x4405,
     0xA7DB, 0xB7FA, 0x8799, 0x97B8, 0xE75F, 0xF77E, 0xC71D, 0xD73C,
     0x26D3, 0x36F2, 0x0691, 0x16B0, 0x6657, 0x7676, 0x4615, 0x5634,
     0xD94C, 0xC96D, 0xF90E, 0xE92F, 0x99C8, 0x89E9, 0xB98A, 0xA9AB,
     0x5844, 0x4865, 0x7806, 0x6827, 0x18C0, 0x08E1, 0x3882, 0x28A3,
     0xCB7D, 0xDB5C, 0xEB3F, 0xFB1E, 0x8BF9, 0x9BD8, 0xABBB, 0xBB9A,
     0x4A75, 0x5A54, 0x6A37, 0x7A16, 0x0AF1, 0x1AD0, 0x2AB3, 0x3A92,
     0xFD2E, 0xED0F, 0xDD6C, 0xCD4D, 0xBDAA, 0xAD8B, 0x9DE8, 0x8DC9,
     0x7C26, 0x6C07, 0x5C64, 0x4C45, 0x3CA2, 0x2C83, 0x1CE0, 0x0CC1,
     0xEF1F, 0xFF3E, 0xCF5D, 0xDF7C, 0xAF9B, 0xBFBA, 0x8FD9, 0x9FF8,
     0x6E17, 0x7E36, 0x4E55, 0x5E74, 0x2E93, 0x3EB2, 0x0ED1, 0x1EF0]"

definition CRC16 :: "u8 list \<Rightarrow> u16" where
  "CRC16 data =
     foldl (\<lambda>crc d. push_bit 8 crc XOR m_CRC16Table ! unat ((drop_bit 8 crc XOR ucast d) AND 0x00FF)) 0 data"

section \<open>The shift register\<close>

text \<open>One step of the register with the polynomial \<open>p\<close>, and \<open>k\<close> steps.\<close>

definition crc_step :: "'a::len word \<Rightarrow> 'a word \<Rightarrow> 'a word" where
  "crc_step p r = (if bit r (LENGTH('a) - 1) then push_bit 1 r XOR p else push_bit 1 r)"

fun crc_steps :: "nat \<Rightarrow> 'a::len word \<Rightarrow> 'a word \<Rightarrow> 'a word" where
  "crc_steps 0 p r = r"
| "crc_steps (Suc k) p r = crc_step p (crc_steps k p r)"

lemma crc_steps_8: "crc_steps 8 p r =
    crc_step p (crc_step p (crc_step p (crc_step p (crc_step p (crc_step p (crc_step p (crc_step p r)))))))"
  by (simp add: eval_nat_numeral)

text \<open>The entries of a table, compared one by one.\<close>

fun table_from :: "('a::len word \<Rightarrow> 'b::len word) \<Rightarrow> 'a word \<Rightarrow> 'a word \<Rightarrow> 'b word list \<Rightarrow> bool" where
  "table_from f d x [] = True"
| "table_from f d x (v # vs) = (f x = v \<and> table_from f d (x + d) vs)"

definition crc16_entry :: "u16 \<Rightarrow> u16" where
  "crc16_entry x = crc_steps 8 0x1021 x"

definition crc7_entry :: "u8 \<Rightarrow> u8" where
  "crc7_entry x = drop_bit 1 (crc_steps 8 0x12 x)"

lemma step16: "crc_step (0x1021 :: u16) r = (if bit r 15 then push_bit 1 r XOR 0x1021 else push_bit 1 r)"
  by (simp add: crc_step_def)

lemma step7: "crc_step (0x12 :: u8) r = (if bit r 7 then push_bit 1 r XOR 0x12 else push_bit 1 r)"
  by (simp add: crc_step_def)

lemma crc16_table_check: "table_from crc16_entry 0x100 0 m_CRC16Table"
  by (simp add: m_CRC16Table_def crc16_entry_def crc_steps_8 step16)

lemma crc7_table_check: "table_from crc7_entry 1 0 m_CRC7Table"
  by (simp add: m_CRC7Table_def crc7_entry_def crc_steps_8 step7)


lemma table_from_nth:
  "table_from f d x t \<Longrightarrow> i < length t \<Longrightarrow> t ! i = f (x + of_nat i * d)"
proof (induction f d x t arbitrary: i rule: table_from.induct)
  case (2 f d x v vs)
  then show ?case by (cases i) (auto simp: algebra_simps)
qed simp

section \<open>The register is linear\<close>

lemma bit_times_2 [bit_simps]: "bit (r * 2) n \<longleftrightarrow> n < LENGTH('a) \<and> 0 < n \<and> bit r (n - 1)" for r :: "'a::len word"
  using bit_double_iff [of r n] by (auto simp: mult.commute)

lemma xor_cancel_right: "a XOR c = b XOR c \<Longrightarrow> a = b" for a b c :: "'a::len word"
  by (metis xor.assoc xor.right_neutral xor_self_eq)

lemma xor_cancel_left: "c XOR a = c XOR b \<Longrightarrow> a = b" for a b c :: "'a::len word"
  by (metis xor.assoc xor.left_neutral xor_self_eq)

lemma crc_step_xor: "crc_step p (a XOR b) = crc_step p a XOR crc_step p b"
  by (rule bit_word_eqI) (auto simp: crc_step_def bit_simps)

lemma crc_steps_xor: "crc_steps k p (a XOR b) = crc_steps k p a XOR crc_steps k p b"
  by (induction k) (simp_all add: crc_step_xor)

lemma crc_step_low: "\<not> bit r (LENGTH('a) - 1) \<Longrightarrow> crc_step p r = push_bit 1 r" for r :: "'a::len word"
  by (simp add: crc_step_def)

lemma crc_steps_low:
  fixes r :: "'a::len word"
  assumes "k \<le> LENGTH('a)" and "\<And>n. LENGTH('a) - k \<le> n \<Longrightarrow> \<not> bit r n"
  shows "crc_steps k p r = push_bit k r"
  using assms
proof (induction k)
  case (Suc k)
  then have "crc_steps k p r = push_bit k r" by simp
  moreover have "\<not> bit (push_bit k r) (LENGTH('a) - 1)"
    using Suc.prems by (auto simp: bit_simps)
  ultimately show ?case by (simp add: crc_step_low)
qed simp

text \<open>The register is injective when the polynomial has a constant term.\<close>

lemma crc_step_eq_0:
  fixes r :: "'a::len word"
  assumes "crc_step p r = 0" and "bit p 0"
  shows "r = 0"
proof (rule bit_word_eqI)
  fix n assume n: "n < LENGTH('a)"
  have "\<not> bit r (LENGTH('a) - 1)"
  proof
    assume "bit r (LENGTH('a) - 1)"
    then have "push_bit 1 r XOR p = 0" using assms(1) by (simp add: crc_step_def)
    moreover have "bit (push_bit 1 r XOR p) 0" using assms(2) by (simp add: bit_simps)
    ultimately show False by simp
  qed
  then have shift: "push_bit 1 r = 0" and top: "\<not> bit r (LENGTH('a) - 1)"
    using assms(1) by (simp_all add: crc_step_def)
  show "bit r n = bit 0 n"
  proof (cases "n = LENGTH('a) - 1")
    case True
    then show ?thesis using top by simp
  next
    case False
    then have "bit (push_bit 1 r) (Suc n) = bit r n" using n by (auto simp: bit_simps)
    then show ?thesis using shift by simp
  qed
qed

lemma crc_steps_inj: "bit p 0 \<Longrightarrow> crc_steps k p a = crc_steps k p b \<Longrightarrow> a = b"
proof -
  assume p: "bit p 0" and eq: "crc_steps k p a = crc_steps k p b"
  have zero: "crc_steps k p r = 0 \<Longrightarrow> r = 0" for r
    by (induction k) (auto dest!: crc_step_eq_0 [OF _ p])
  have "crc_steps k p (a XOR b) = 0" using eq by (simp add: crc_steps_xor)
  then have "a XOR b = 0" by (rule zero)
  then have "a XOR b = b XOR b" by simp
  then show "a = b" by (rule xor_cancel_right)
qed

section \<open>The bit-serial reference\<close>

definition crc_bit :: "'a::len word \<Rightarrow> 'a word \<Rightarrow> bool \<Rightarrow> 'a word" where
  "crc_bit p r b = crc_step p (r XOR (if b then push_bit (LENGTH('a) - 1) 1 else 0))"

lemma crc_bit_bool:
  "crc_bit p r True = crc_step p (r XOR 2 ^ (LENGTH('a) - Suc 0))" "crc_bit p r False = crc_step p r"
  for p r :: "'a::len word"
  by (simp_all add: crc_bit_def)

definition byte_bits :: "u8 \<Rightarrow> bool list" where
  "byte_bits d = map (\<lambda>j. bit d (7 - j)) [0..<8]"

definition message_bits :: "u8 list \<Rightarrow> bool list" where
  "message_bits data = concat (map byte_bits data)"

definition crc_serial :: "'a::len word \<Rightarrow> u8 list \<Rightarrow> 'a word" where
  "crc_serial p data = foldl (crc_bit p) 0 (message_bits data)"

lemma crc_bits_steps:
  fixes r D :: "'a::len word"
  assumes "k \<le> LENGTH('a)"
  shows "foldl (crc_bit p) r (map (\<lambda>j. bit D (LENGTH('a) - 1 - j)) [0..<k]) XOR push_bit k D =
    crc_steps k p (r XOR D)"
  using assms
proof (induction k)
  case (Suc k)
  let ?F = "foldl (crc_bit p) r (map (\<lambda>j. bit D (LENGTH('a) - 1 - j)) [0..<k])"
  let ?t = "(if bit D (LENGTH('a) - 1 - k) then push_bit (LENGTH('a) - 1) 1 else 0) :: 'a word"
  have k: "k \<le> LENGTH('a) - 1" using Suc.prems by simp
  have split: "?F XOR push_bit k D = (?F XOR ?t) XOR (push_bit k D XOR ?t)"
    by (rule bit_word_eqI) (auto simp: bit_simps)
  have "\<not> bit (push_bit k D XOR ?t) (LENGTH('a) - 1)" using k by (auto simp: bit_simps)
  then have "crc_step p (push_bit k D XOR ?t) = push_bit 1 (push_bit k D XOR ?t)"
    by (rule crc_step_low)
  also have "\<dots> = push_bit (Suc k) D" using Suc.prems by (intro bit_word_eqI) (auto simp: bit_simps)
  finally have low: "crc_step p (push_bit k D XOR ?t) = push_bit (Suc k) D" .
  have "crc_steps (Suc k) p (r XOR D) = crc_step p (?F XOR push_bit k D)"
    using Suc by simp
  also have "\<dots> = crc_step p (?F XOR ?t) XOR push_bit (Suc k) D"
    by (subst split, subst crc_step_xor, subst low) (rule refl)
  finally show ?case by (simp add: crc_bit_bool)
qed simp

lemma crc_byte_steps:
  fixes r :: "'a::len word"
  assumes "8 \<le> LENGTH('a)"
  shows "foldl (crc_bit p) r (byte_bits d) = crc_steps 8 p (r XOR push_bit (LENGTH('a) - 8) (ucast d))"
proof -
  let ?D = "push_bit (LENGTH('a) - 8) (ucast d) :: 'a word"
  have "bit ?D (LENGTH('a) - 1 - j) = bit d (7 - j)" if "j < 8" for j
  proof -
    have e: "LENGTH('a) - 1 - j - (LENGTH('a) - 8) = 7 - j" using assms that by linarith
    show ?thesis using assms that by (auto simp: bit_simps e)
  qed
  then have "map (\<lambda>j. bit ?D (LENGTH('a) - 1 - j)) [0..<8] = byte_bits d"
    by (simp add: byte_bits_def)
  moreover have "push_bit 8 ?D = 0"
    using assms by (intro bit_word_eqI) (auto simp: bit_simps dest: bit_imp_le_length)
  ultimately show ?thesis using crc_bits_steps [OF assms, of p r ?D] by simp
qed

section \<open>The tables are right\<close>

lemma length_tables [simp]: "length m_CRC16Table = 256" "length m_CRC7Table = 256"
  by (simp_all add: m_CRC16Table_def m_CRC7Table_def)

lemma crc16_entry_at: "unat x < 256 \<Longrightarrow> m_CRC16Table ! unat x = crc_steps 8 0x1021 (push_bit 8 x)" for x :: u16
  using table_from_nth [OF crc16_table_check, of "unat x"]
  by (simp add: crc16_entry_def push_bit_eq_mult mult.commute)

lemma crc7_entry_at: "m_CRC7Table ! unat x = drop_bit 1 (crc_steps 8 0x12 x)" for x :: u8
  using table_from_nth [OF crc7_table_check, of "unat x"] by (simp add: crc7_entry_def)

lemma crc16_step:
  "push_bit 8 crc XOR m_CRC16Table ! unat ((drop_bit 8 crc XOR ucast d) AND 0x00FF) =
    crc_steps 8 0x1021 (crc XOR push_bit 8 (ucast (d :: u8)))"
proof -
  have m: "(0x00FF :: u16) = mask 8" by (simp add: mask_eq_exp_minus_1)
  let ?i = "(drop_bit 8 crc XOR ucast d) AND 0x00FF"
  have lt: "unat ?i < 256"
  proof -
    have "?i < 2 ^ 8" unfolding m by (rule and_mask_less') simp
    then show ?thesis by (simp add: word_less_nat_alt)
  qed
  have split: "crc XOR push_bit 8 (ucast d) = push_bit 8 ?i XOR (crc AND 0x00FF)"
    unfolding m by (rule bit_word_eqI) (auto simp: bit_simps not_less)
  have low: "crc_steps 8 0x1021 (crc AND 0x00FF) = push_bit 8 (crc AND 0x00FF)"
    unfolding m by (rule crc_steps_low) (auto simp: bit_simps)
  have "push_bit 8 (crc AND 0x00FF) = push_bit 8 crc"
    unfolding m by (rule bit_word_eqI) (auto simp: bit_simps)
  then show ?thesis unfolding split crc_steps_xor low crc16_entry_at [OF lt] by (simp add: ac_simps)
qed

lemma crc_serial_snoc:
  "8 \<le> LENGTH('a) \<Longrightarrow> crc_serial p (data @ [d]) =
    crc_steps 8 p (crc_serial p data XOR push_bit (LENGTH('a) - 8) (ucast d))" for p :: "'a::len word"
  by (simp add: crc_serial_def message_bits_def crc_byte_steps)

lemma CRC16_serial_eq: "CRC16 data = crc_serial 0x1021 data"
proof (induction data rule: rev_induct)
  case (snoc d data)
  have "CRC16 (data @ [d]) = crc_steps 8 0x1021 (CRC16 data XOR push_bit 8 (ucast d))"
    using crc16_step [of "CRC16 data" d] by (simp add: CRC16_def)
  then show ?case using snoc by (simp add: crc_serial_snoc)
qed (simp add: CRC16_def crc_serial_def message_bits_def)

lemma crc_steps_even: "0 < k \<Longrightarrow> \<not> bit p 0 \<Longrightarrow> \<not> bit (crc_steps k p r) 0"
  by (cases k) (auto simp: crc_step_def bit_simps)

lemma crc7_serial_even: "\<not> bit (crc_serial 0x12 data :: u8) 0"
proof (cases data rule: rev_exhaust)
  case (snoc ds d)
  then show ?thesis using crc_serial_snoc [of "0x12 :: u8" ds d] crc_steps_even [of 8 "0x12 :: u8"] by simp
qed (simp add: crc_serial_def message_bits_def)

lemma shift_even: "\<not> bit r 0 \<Longrightarrow> push_bit 1 (drop_bit 1 r) = r" for r :: u8
proof (rule bit_word_eqI)
  fix n
  show "\<not> bit r 0 \<Longrightarrow> n < LENGTH(8) \<Longrightarrow> bit (push_bit 1 (drop_bit 1 r)) n = bit r n"
    by (cases n) (auto simp: bit_simps)
qed

lemma crc7_index_eq:
  assumes "\<not> bit (crc :: u8) 7"
  shows "crc7_index crc d = unat (push_bit 1 crc XOR d)"
proof -
  have "push_bit 1 (ucast crc :: u32) XOR ucast d = ucast (push_bit 1 crc XOR d)"
  proof (rule bit_word_eqI)
    fix n assume "n < LENGTH(32)"
    show "bit (push_bit 1 (ucast crc :: u32) XOR ucast d) n = bit (ucast (push_bit 1 crc XOR d) :: u32) n"
    proof (cases "n \<le> 7")
      case True
      then show ?thesis by (auto simp: bit_simps)
    next
      case False
      then have "\<not> bit crc (n - 1)" "\<not> bit d n"
        using assms bit_imp_le_length [of crc "n - 1"] bit_imp_le_length [of d n] by (cases "n = 8"; force)+
      then show ?thesis using False by (auto simp: bit_simps)
    qed
  qed
  moreover have "unat (push_bit 1 crc XOR d) < 4294967296" by (rule less_trans [OF unat_u8]) simp
  ultimately show ?thesis by (simp add: crc7_index_def unsigned_ucast_eq take_bit_nat_eq_self_iff)
qed

lemma CRC7_serial_eq: "CRC7 data = drop_bit 1 (crc_serial 0x12 data)"
proof (induction data rule: rev_induct)
  case (snoc d data)
  let ?R = "crc_serial 0x12 data :: u8"
  have "\<not> bit (drop_bit 1 ?R) 7" by (auto simp: bit_simps dest: bit_imp_le_length)
  then have "crc7_index (CRC7 data) d = unat (push_bit 1 (drop_bit 1 ?R) XOR d)"
    unfolding snoc by (rule crc7_index_eq)
  also have "push_bit 1 (drop_bit 1 ?R) = ?R" by (rule shift_even) (rule crc7_serial_even)
  finally have "CRC7 (data @ [d]) = m_CRC7Table ! unat (?R XOR d)" by (simp add: CRC7_def)
  then show ?case using crc_serial_snoc [of "0x12 :: u8" data d] by (simp add: crc7_entry_at)
qed (simp add: CRC7_def crc_serial_def message_bits_def)

section \<open>Properties\<close>

text \<open>C28: the table-driven checksums are those of the bit-serial shift registers: CRC-16 with the polynomial
  \<open>x^16 + x^12 + x^5 + 1\<close>, and CRC-7 with \<open>x^7 + x^3 + 1\<close>, whose register sits in the upper seven bits
  of a byte. The index into the CRC-7 table never leaves the table.
\<close>

theorem crc_tables_serial:
  "CRC16 data = crc_serial 0x1021 data \<and> CRC7 data = drop_bit 1 (crc_serial 0x12 data) \<and>
   crc7_index (CRC7 data) d < length m_CRC7Table"
proof -
  have "\<not> bit (CRC7 data) 7" unfolding CRC7_serial_eq by (auto simp: bit_simps dest: bit_imp_le_length)
  then have "crc7_index (CRC7 data) d < 256" by (simp add: crc7_index_eq)
  then show ?thesis by (simp add: CRC16_serial_eq CRC7_serial_eq)
qed

text \<open>C29: the block checksum detects every error that is confined to one byte.\<close>

theorem CRC16_detects_byte: "CRC16 (a @ x # b) = CRC16 (a @ y # b) \<longleftrightarrow> x = y"
proof
  let ?T = "\<lambda>crc (d :: u8). crc_steps 8 0x1021 (crc XOR push_bit 8 (ucast d :: u16))"
  have C: "CRC16 ds = foldl ?T 0 ds" for ds
    unfolding CRC16_def crc16_step ..
  have inj: "foldl ?T r1 ds = foldl ?T r2 ds \<Longrightarrow> r1 = r2" for r1 r2 ds
  proof (induction ds arbitrary: r1 r2)
    case (Cons d ds)
    from Cons.prems have "foldl ?T (?T r1 d) ds = foldl ?T (?T r2 d) ds" by simp
    from crc_steps_inj [OF _ Cons.IH [OF this]]
    have "r1 XOR push_bit 8 (ucast d) = r2 XOR push_bit 8 (ucast d)" by simp
    then show ?case by (rule xor_cancel_right)
  qed simp
  assume "CRC16 (a @ x # b) = CRC16 (a @ y # b)"
  then have "?T (foldl ?T 0 a) x = ?T (foldl ?T 0 a) y" unfolding C by (auto intro: inj)
  from crc_steps_inj [OF _ this]
  have "foldl ?T 0 a XOR push_bit 8 (ucast x) = foldl ?T 0 a XOR push_bit 8 (ucast y)" by simp
  then have "push_bit 8 (ucast x :: u16) = push_bit 8 (ucast y)"
    by (rule xor_cancel_left)
  then have "bit (push_bit 8 (ucast x :: u16)) (n + 8) = bit (push_bit 8 (ucast y :: u16)) (n + 8)" for n by simp
  note shifted = this
  show "x = y"
  proof (rule bit_word_eqI)
    fix n assume "n < LENGTH(8)"
    then show "bit x n = bit y n" using shifted [of n] by (simp add: bit_simps)
  qed
qed simp

end
