(* ===== verification/Base64.thy ===== *)
theory Base64
  imports Prelude Codec
begin

text \<open>
  The Base64 coder of the Arduino core (\<open>src/components/arduino/cores/esp32/libb64/cencode.c\<close>,
  \<open>cdecode.c\<close>). Both routines can be called block by block: the code jumps into the middle of its
  loop at the step saved in the state. The model has one equation for each step. The encoder
  yields the characters it writes; the decoder works on its output buffer, in which the byte at
  the write position is built up, and is \<open>None\<close> when an access leaves the buffer or the table.
\<close>

unbundle bit_operations_syntax

section \<open>Encoding\<close>

definition CHARS_PER_LINE :: int where
  "CHARS_PER_LINE = 72"

datatype encodestep = step_A | step_B | step_C

record encodestate =
  enc_step :: encodestep
  enc_result :: u8
  enc_stepcount :: int

definition base64_init_encodestate :: encodestate where
  "base64_init_encodestate = \<lparr>enc_step = step_A, enc_result = 0, enc_stepcount = 0\<rparr>"

definition encoding :: string where
  "encoding = ''ABCDEFGHIJKLMNOPQRSTUVWXYZabcdefghijklmnopqrstuvwxyz0123456789+/''"

definition base64_encode_value :: "u8 \<Rightarrow> char" where
  "base64_encode_value value_in = (if value_in > 63 then CHR ''='' else encoding ! unat value_in)"

fun encode_loop :: "encodestep \<Rightarrow> u8 \<Rightarrow> int \<Rightarrow> u8 list \<Rightarrow> string \<times> encodestate" where
  "encode_loop step result stepcount [] =
     ([], \<lparr>enc_step = step, enc_result = result, enc_stepcount = stepcount\<rparr>)"
| "encode_loop step_A result stepcount (fragment # plain) =
     (let result = drop_bit 2 (fragment AND 0xFC);
          out = [base64_encode_value result];
          result = push_bit 4 (fragment AND 0x03)
      in apfst (\<lambda>s. out @ s) (encode_loop step_B result stepcount plain))"
| "encode_loop step_B result stepcount (fragment # plain) =
     (let result = result OR drop_bit 4 (fragment AND 0xF0);
          out = [base64_encode_value result];
          result = push_bit 2 (fragment AND 0x0F)
      in apfst (\<lambda>s. out @ s) (encode_loop step_C result stepcount plain))"
| "encode_loop step_C result stepcount (fragment # plain) =
     (let result = result OR drop_bit 6 (fragment AND 0xC0);
          out = [base64_encode_value result];
          result = fragment AND 0x3F;
          out = out @ [base64_encode_value result];
          stepcount = stepcount + 1;
          (out, stepcount) = (if stepcount = CHARS_PER_LINE div 4 then (out @ [CHR 0x0A], 0) else (out, stepcount))
      in apfst (\<lambda>s. out @ s) (encode_loop step_A result stepcount plain))"

definition base64_encode_block :: "u8 list \<Rightarrow> encodestate \<Rightarrow> string \<times> encodestate" where
  "base64_encode_block plaintext_in st = encode_loop (enc_step st) (enc_result st) (enc_stepcount st) plaintext_in"

definition base64_encode_blockend :: "encodestate \<Rightarrow> string" where
  "base64_encode_blockend st =
     (case enc_step st of
        step_B \<Rightarrow> [base64_encode_value (enc_result st), CHR ''='', CHR ''='']
      | step_C \<Rightarrow> [base64_encode_value (enc_result st), CHR ''='']
      | step_A \<Rightarrow> [])"

definition base64_encode_chars :: "u8 list \<Rightarrow> string" where
  "base64_encode_chars plaintext_in =
     (case base64_encode_block plaintext_in base64_init_encodestate of
        (code, st) \<Rightarrow> code @ base64_encode_blockend st)"

text \<open>The macro for the size of the output.\<close>

definition base64_encode_expected_len :: "nat \<Rightarrow> nat" where
  "base64_encode_expected_len n = (4 * n div 3 + 3) div 4 * 4"

section \<open>Decoding\<close>

definition decoding :: "int list" where
  "decoding = [62,-1,-1,-1,63,52,53,54,55,56,57,58,59,60,61,-1,-1,-1,-2,-1,-1,-1,0,1,2,3,4,5,6,7,8,9,10,11,12,13,
     14,15,16,17,18,19,20,21,22,23,24,25,-1,-1,-1,-1,-1,-1,26,27,28,29,30,31,32,33,34,35,36,37,38,39,40,41,42,43,
     44,45,46,47,48,49,50,51]"

text \<open>The argument is an \<open>int8_t\<close>, and so is the result of the subtraction.\<close>

definition int8 :: "int \<Rightarrow> int" where
  "int8 i = (i + 128) mod 256 - 128"

definition base64_decode_value :: "char \<Rightarrow> int option" where
  "base64_decode_value c =
     (let value_in = int8 (int8 (of_char c) - 43)
      in if value_in < 0 \<or> value_in > int (length decoding) then Some (- 1)
         else if nat value_in < length decoding then Some (decoding ! nat value_in)
         else None)"

datatype decodestep = step_a | step_b | step_c | step_d

record decodestate =
  dec_step :: decodestep
  dec_plainchar :: u8

definition base64_init_decodestate :: decodestate where
  "base64_init_decodestate = \<lparr>dec_step = step_a, dec_plainchar = 0\<rparr>"

definition buf_put :: "u8 list \<Rightarrow> nat \<Rightarrow> u8 \<Rightarrow> u8 list option" where
  "buf_put buf i v = (if i < length buf then Some (buf[i := v]) else None)"

definition buf_or :: "u8 list \<Rightarrow> nat \<Rightarrow> u8 \<Rightarrow> u8 list option" where
  "buf_or buf i v = (if i < length buf then Some (buf[i := buf ! i OR v]) else None)"

text \<open>What a fragment does at each step: the new buffer, the new write position and the next step.\<close>

definition decode_fragment :: "decodestep \<Rightarrow> u8 \<Rightarrow> u8 list \<Rightarrow> nat \<Rightarrow> (u8 list \<times> nat \<times> decodestep) option" where
  "decode_fragment step f buf i =
     (case step of
        step_a \<Rightarrow> map_option (\<lambda>buf. (buf, i, step_b)) (buf_put buf i (push_bit 2 (f AND 0x3F)))
      | step_b \<Rightarrow> map_option (\<lambda>buf. (buf, i + 1, step_c))
                   (Option.bind (buf_or buf i (drop_bit 4 (f AND 0x30))) (\<lambda>buf. buf_put buf (i + 1) (push_bit 4 (f AND 0x0F))))
      | step_c \<Rightarrow> map_option (\<lambda>buf. (buf, i + 1, step_d))
                   (Option.bind (buf_or buf i (drop_bit 2 (f AND 0x3C))) (\<lambda>buf. buf_put buf (i + 1) (push_bit 6 (f AND 0x03))))
      | step_d \<Rightarrow> map_option (\<lambda>buf. (buf, i + 1, step_a)) (buf_or buf i (f AND 0x3F)))"

fun decode_loop ::
    "decodestep \<Rightarrow> string \<Rightarrow> u8 list \<Rightarrow> nat \<Rightarrow> (nat \<times> u8 list \<times> decodestate) option" where
  "decode_loop step [] buf i =
     (if i < length buf then Some (i, buf, \<lparr>dec_step = step, dec_plainchar = buf ! i\<rparr>) else None)"
| "decode_loop step (c # code) buf i =
     (case base64_decode_value c of
        None \<Rightarrow> None
      | Some fragment \<Rightarrow>
          if fragment < 0 then decode_loop step code buf i
          else (case decode_fragment step (of_int fragment) buf i of
                  None \<Rightarrow> None
                | Some (buf, i, step) \<Rightarrow> decode_loop step code buf i))"

definition base64_decode_block ::
    "string \<Rightarrow> u8 list \<Rightarrow> decodestate \<Rightarrow> (nat \<times> u8 list \<times> decodestate) option" where
  "base64_decode_block code_in plaintext_out st =
     Option.bind (buf_put plaintext_out 0 (dec_plainchar st)) (\<lambda>buf. decode_loop (dec_step st) code_in buf 0)"

definition base64_decode_chars :: "string \<Rightarrow> u8 list \<Rightarrow> (nat \<times> u8 list) option" where
  "base64_decode_chars code_in plaintext_out =
     (case base64_decode_block code_in plaintext_out base64_init_decodestate of
        None \<Rightarrow> None
      | Some (len, buf, st) \<Rightarrow>
          if len > 0 then map_option (\<lambda>buf. (len, buf)) (buf_put buf len 0) else Some (len, buf))"

section \<open>Lemmas\<close>

lemma decode_encode_table:
  "\<forall>i \<in> set [0..<64]. base64_decode_value (encoding ! i) = Some (int i)"
  by code_simp

lemma decode_encode_value:
  assumes "v < 64"
  shows "base64_decode_value (base64_encode_value v) = Some (int (unat v))"
proof -
  have "unat v < 64" using assms by (simp add: word_less_nat_alt)
  moreover have "\<not> v > 63" using assms by unat_arith
  ultimately show ?thesis using decode_encode_table by (simp add: base64_encode_value_def)
qed

lemma decode_skip: "base64_decode_value CHR 0x0A = Some (- 1)" "base64_decode_value CHR ''='' = Some (- 2)"
  by code_simp+

text \<open>The four fragments of three octets, and how they fit together again.\<close>

lemma u8_cases: "n < 8 \<Longrightarrow> n = 0 \<or> n = 1 \<or> n = 2 \<or> n = 3 \<or> n = 4 \<or> n = 5 \<or> n = 6 \<or> n = (7 :: nat)"
  by linarith

lemma u8_eqI:
  fixes x y :: u8
  assumes "bit x 0 = bit y 0" "bit x 1 = bit y 1" "bit x 2 = bit y 2" "bit x 3 = bit y 3"
    "bit x 4 = bit y 4" "bit x 5 = bit y 5" "bit x 6 = bit y 6" "bit x 7 = bit y 7"
  shows "x = y"
  using assms by (intro bit_word_eqI) (auto dest!: u8_cases)

lemma less_64I:
  fixes x :: u8
  assumes "\<not> bit x 6" and "\<not> bit x 7"
  shows "x < 64"
proof -
  have "x = x AND mask 6"
    using assms by (intro u8_eqI) (simp_all add: bit_simps)
  then have "x < 2 ^ 6" using and_mask_less' [of 6 x] by simp
  then show ?thesis by simp
qed

lemma fragment_bits:
  fixes a b c :: u8
  shows "drop_bit 2 (a AND 0xFC) < 64" "push_bit 4 (a AND 0x03) < 64"
    "push_bit 4 (a AND 0x03) OR drop_bit 4 (b AND 0xF0) < 64" "push_bit 2 (b AND 0x0F) < 64"
    "push_bit 2 (b AND 0x0F) OR drop_bit 6 (c AND 0xC0) < 64" "c AND 0x3F < 64"
  by (auto intro!: less_64I simp: bit_simps dest: bit_imp_le_length)

lemma join_bits:
  fixes a b c :: u8
  shows "push_bit 2 (drop_bit 2 (a AND 0xFC) AND 0x3F) OR
      drop_bit 4 ((push_bit 4 (a AND 0x03) OR drop_bit 4 (b AND 0xF0)) AND 0x30) = a"
    "push_bit 4 ((push_bit 4 (a AND 0x03) OR drop_bit 4 (b AND 0xF0)) AND 0x0F) OR
      drop_bit 2 ((push_bit 2 (b AND 0x0F) OR drop_bit 6 (c AND 0xC0)) AND 0x3C) = b"
    "push_bit 6 ((push_bit 2 (b AND 0x0F) OR drop_bit 6 (c AND 0xC0)) AND 0x03) OR ((c AND 0x3F) AND 0x3F) = c"
  by (rule u8_eqI; auto simp: bit_simps dest: bit_imp_le_length)+


section \<open>Groups of three\<close>

definition frag1 :: "u8 \<Rightarrow> u8" where "frag1 a = drop_bit 2 (a AND 0xFC)"
definition frag2 :: "u8 \<Rightarrow> u8 \<Rightarrow> u8" where "frag2 a b = push_bit 4 (a AND 0x03) OR drop_bit 4 (b AND 0xF0)"
definition frag3 :: "u8 \<Rightarrow> u8 \<Rightarrow> u8" where "frag3 b c = push_bit 2 (b AND 0x0F) OR drop_bit 6 (c AND 0xC0)"
definition frag4 :: "u8 \<Rightarrow> u8" where "frag4 c = c AND 0x3F"

definition encode_group :: "u8 \<Rightarrow> u8 \<Rightarrow> u8 \<Rightarrow> string" where
  "encode_group a b c = map base64_encode_value [frag1 a, frag2 a b, frag3 b c, frag4 c]"

definition encode_from :: "u8 \<Rightarrow> int \<Rightarrow> u8 list \<Rightarrow> string" where
  "encode_from r sc xs = (case encode_loop step_A r sc xs of (s, st) \<Rightarrow> s @ base64_encode_blockend st)"

definition line_break :: "int \<Rightarrow> string \<times> int" where
  "line_break sc = (if sc + 1 = 18 then ([CHR 0x0A], 0) else ([], sc + 1))"

lemma frag2_0: "frag2 a 0 = push_bit 4 (a AND 0x03)" and frag3_0: "frag3 b 0 = push_bit 2 (b AND 0x0F)"
  by (simp_all add: frag2_def frag3_def)

lemma encode_from_0: "encode_from r sc [] = []"
  by (simp add: encode_from_def base64_encode_blockend_def)

lemma encode_from_1: "encode_from r sc [a] = map base64_encode_value [frag1 a, frag2 a 0] @ ''==''"
  unfolding frag2_0 by (simp add: encode_from_def base64_encode_blockend_def Let_def frag1_def)

lemma encode_from_2:
  "encode_from r sc [a, b] = map base64_encode_value [frag1 a, frag2 a b, frag3 b 0] @ ''=''"
  unfolding frag3_0 by (simp add: encode_from_def base64_encode_blockend_def Let_def frag1_def frag2_def)

lemma encode_from_3:
  "encode_from r sc (a # b # c # xs) =
    encode_group a b c @ fst (line_break sc) @ encode_from (frag4 c) (snd (line_break sc)) xs"
  by (simp add: encode_from_def Let_def encode_group_def frag1_def frag2_def frag3_def frag4_def line_break_def
      CHARS_PER_LINE_def case_prod_beta)

lemma base64_encode_chars_eq: "base64_encode_chars xs = encode_from 0 0 xs"
  by (simp add: base64_encode_chars_def encode_from_def base64_encode_block_def base64_init_encodestate_def)

lemma frag_less: "frag1 a < 64" "frag2 a b < 64" "frag3 b c < 64" "frag4 c < 64"
  unfolding frag1_def frag2_def frag3_def frag4_def by (rule fragment_bits)+

lemma join_frags:
  "push_bit 2 (frag1 a AND 0x3F) OR drop_bit 4 (frag2 a b AND 0x30) = a"
  "push_bit 4 (frag2 a b AND 0x0F) OR drop_bit 2 (frag3 b c AND 0x3C) = b"
  "push_bit 6 (frag3 b c AND 0x03) OR (frag4 c AND 0x3F) = c"
  unfolding frag1_def frag2_def frag3_def frag4_def by (rule join_bits)+

text \<open>A coded fragment is decoded to itself.\<close>

lemma decode_fragment_char:
  "f < 64 \<Longrightarrow> decode_loop step (base64_encode_value f # code) buf i =
    (case decode_fragment step f buf i of None \<Rightarrow> None | Some (buf, i, step) \<Rightarrow> decode_loop step code buf i)"
  by (simp add: decode_encode_value)

lemma decode_group:
  assumes "i + 2 < length buf"
  shows "decode_loop step_a (encode_group a b c @ code) buf i =
    decode_loop step_a code (buf[i := a, i + 1 := b, i + 2 := c]) (i + 3)"
proof -
  have i3: "i + 3 = Suc (Suc (Suc i))" by simp
  show ?thesis using assms unfolding i3
    by (simp add: encode_group_def decode_fragment_char frag_less decode_fragment_def buf_put_def buf_or_def
        join_frags list_update_swap del: push_bit_and drop_bit_and push_bit_eq_mult decode_loop.simps(2))
qed


lemma decode_break:
  "decode_loop step_a (fst (line_break sc) @ code) buf i = decode_loop step_a code buf i"
  by (simp add: line_break_def decode_skip)

text \<open>The text of an encoding, decoded into a buffer with room for one more byte.\<close>

lemma decode_encode_from:
  "i + length xs < length buf \<Longrightarrow>
   \<exists>buf' st. decode_loop step_a (encode_from r sc xs) buf i = Some (i + length xs, buf', st) \<and>
     length buf' = length buf \<and> take (i + length xs) buf' = take i buf @ xs"
proof (induction "length xs" arbitrary: xs r sc buf i rule: less_induct)
  case less
  consider (none) "xs = []" | (one) a where "xs = [a]" | (two) a b where "xs = [a, b]"
    | (more) a b c ys where "xs = a # b # c # ys"
    by (metis list.exhaust)
  then show ?case
  proof cases
    case none
    then show ?thesis using less.prems by (simp add: encode_from_0)
  next
    case one
    let ?buf = "buf[i := a, Suc i := push_bit 4 (frag2 a 0 AND 0x0F)]"
    have "decode_loop step_a (encode_from r sc xs) buf i =
        Some (i + 1, ?buf, \<lparr>dec_step = step_c, dec_plainchar = ?buf ! Suc i\<rparr>)"
      using less.prems unfolding one encode_from_1
      by (simp add: decode_fragment_char frag_less decode_fragment_def buf_put_def buf_or_def join_frags decode_skip
          del: push_bit_and drop_bit_and decode_loop.simps(2))
        (simp add: decode_skip)
    then show ?thesis using less.prems one by (simp add: take_Suc_conv_app_nth)
  next
    case two
    let ?buf = "buf[i := a, Suc i := b, Suc (Suc i) := push_bit 6 (frag3 b 0 AND 0x03)]"
    have "decode_loop step_a (encode_from r sc xs) buf i =
        Some (i + 2, ?buf, \<lparr>dec_step = step_d, dec_plainchar = ?buf ! Suc (Suc i)\<rparr>)"
      using less.prems unfolding two encode_from_2
      by (simp add: decode_fragment_char frag_less decode_fragment_def buf_put_def buf_or_def join_frags decode_skip
          list_update_swap del: push_bit_and drop_bit_and decode_loop.simps(2))
        (simp add: decode_skip)
    then show ?thesis using less.prems two by (simp add: take_Suc_conv_app_nth eval_nat_numeral)
  next
    case more
    let ?buf = "buf[i := a, i + 1 := b, i + 2 := c]"
    have "decode_loop step_a (encode_from r sc xs) buf i =
        decode_loop step_a (encode_from (frag4 c) (snd (line_break sc)) ys) ?buf (i + 3)"
      using less.prems unfolding more encode_from_3 by (simp add: decode_group decode_break)
    moreover obtain buf' st where "decode_loop step_a (encode_from (frag4 c) (snd (line_break sc)) ys) ?buf (i + 3) =
        Some (i + 3 + length ys, buf', st)" "length buf' = length ?buf"
        "take (i + 3 + length ys) buf' = take (i + 3) ?buf @ ys"
      using less.hyps [of ys "i + 3" ?buf "frag4 c" "snd (line_break sc)"] less.prems more by auto
    moreover have "take (i + 3) ?buf = take i buf @ [a, b, c]"
      using less.prems more by (simp add: take_Suc_conv_app_nth eval_nat_numeral)
    ultimately show ?thesis using more by (simp add: eval_nat_numeral)
  qed
qed

lemma length_encode_from:
  "0 \<le> sc \<Longrightarrow> sc < 18 \<Longrightarrow>
   length (encode_from r sc xs) = 4 * ((length xs + 2) div 3) + (nat sc + length xs div 3) div 18"
proof (induction "length xs" arbitrary: xs r sc rule: less_induct)
  case less
  consider (none) "xs = []" | (one) a where "xs = [a]" | (two) a b where "xs = [a, b]"
    | (more) a b c ys where "xs = a # b # c # ys"
    by (metis list.exhaust)
  then show ?case
  proof cases
    case more
    let ?m = "length ys"
    have len: "length xs = ?m + 3" using more by simp
    have d: "(length xs + 2) div 3 = (?m + 2) div 3 + 1" "length xs div 3 = ?m div 3 + 1"
      unfolding len by presburger+
    have head: "length (encode_from r sc xs) =
        4 + length (fst (line_break sc)) + length (encode_from (frag4 c) (snd (line_break sc)) ys)"
      unfolding more by (simp add: encode_from_3 encode_group_def)
    show ?thesis
    proof (cases "sc = 17")
      case True
      have "(17 + (?m div 3 + 1)) div 18 = 1 + ?m div 3 div 18" by simp
      then show ?thesis using less.hyps [of ys 0 "frag4 c"] more True
        unfolding head d by (simp add: line_break_def)
    next
      case False
      then have "length (encode_from (frag4 c) (sc + 1) ys) =
          4 * ((?m + 2) div 3) + (nat (sc + 1) + ?m div 3) div 18"
        using less.hyps [of ys "sc + 1" "frag4 c"] less.prems more by simp
      moreover have "nat (sc + 1) = nat sc + 1" using less.prems by simp
      ultimately show ?thesis using False unfolding head d by (simp add: line_break_def)
    qed
  qed (use less.prems in \<open>simp_all add: encode_from_0 encode_from_1 encode_from_2\<close>)
qed

lemma decode_encode_chars:
  assumes "length xs < length buf"
  shows "\<exists>buf'. base64_decode_chars (base64_encode_chars xs) buf = Some (length xs, buf') \<and>
    take (length xs) buf' = xs \<and> length buf' = length buf"
proof -
  have "0 + length xs < length (buf[0 := 0])" using assms by simp
  from decode_encode_from [OF this, of 0 0] obtain buf' st where
    d: "decode_loop step_a (encode_from 0 0 xs) (buf[0 := 0]) 0 = Some (length xs, buf', st)"
    "length buf' = length buf" "take (length xs) buf' = xs" by auto
  moreover have "0 < length buf" using assms by linarith
  ultimately have "base64_decode_block (base64_encode_chars xs) buf base64_init_decodestate = Some (length xs, buf', st)"
    by (simp add: base64_decode_block_def base64_init_decodestate_def buf_put_def base64_encode_chars_eq)
  then show ?thesis using d assms by (cases "xs = []") (auto simp: base64_decode_chars_def buf_put_def)
qed

text \<open>The text decoded into a buffer as long as the text and a terminator, as a reader.\<close>

definition base64_read :: "string \<Rightarrow> u8 list option" where
  "base64_read s =
     map_option (\<lambda>(n, buf). take n buf) (base64_decode_chars s (replicate (length s + 1) 0))"

lemma length_encode_chars: "length xs \<le> length (base64_encode_chars xs)"
proof -
  have "length xs \<le> 4 * ((length xs + 2) div 3)" by presburger
  then show ?thesis using length_encode_from [of 0 0 xs] by (simp add: base64_encode_chars_eq)
qed

interpretation base64_text: codec base64_encode_chars base64_read "\<lambda>_. True"
proof
  fix xs :: "u8 list"
  have "length xs < length (replicate (length (base64_encode_chars xs) + 1) (0 :: u8))"
    using length_encode_chars [of xs] by simp
  then show "base64_read (base64_encode_chars xs) = Some xs"
    using decode_encode_chars unfolding base64_read_def by fastforce
qed

section \<open>Properties\<close>

text \<open>C15: decoding inverts encoding, line breaks and padding included: for every data and every buffer with
  room for the data and a terminator, the decoder reports the length, leaves the data in the buffer
  and stays inside the buffer and its table.
\<close>

theorem base64_roundtrip:
  assumes "length xs < length buf"
  shows "\<exists>buf'. base64_decode_chars (base64_encode_chars xs) buf = Some (length xs, buf') \<and>
    take (length xs) buf' = xs \<and> length buf' = length buf"
  using assms by (rule decode_encode_chars)

theorem base64_roundtrip_witness:
  "\<exists>buf'. base64_decode_chars (base64_encode_chars [0xFF, 0x00, 0x7F, 0x80]) (replicate 5 0) = Some (4, buf') \<and>
     take 4 buf' = [0xFF, 0x00, 0x7F, 0x80]"
  using base64_roundtrip [of "[0xFF, 0x00, 0x7F, 0x80]" "replicate 5 0"] by (auto simp: eval_nat_numeral)

text \<open>The length of the coded text: four characters for every three bytes begun, and a line break after
  every 54 bytes, which the macro for the expected length does not count.
\<close>

theorem base64_length:
  "length (base64_encode_chars xs) = base64_encode_expected_len (length xs) + length xs div 54"
proof -
  have "base64_encode_expected_len n = 4 * ((n + 2) div 3)" for n
  proof -
    define q r where "q = n div 3" and "r = n mod 3"
    have n: "n = 3 * q + r" "r < 3" by (simp_all add: q_def r_def)
    then consider "n = 3 * q" | "n = 3 * q + 1" | "n = 3 * q + 2" by linarith
    then show ?thesis
    proof cases
      case 1
      have "4 * (3 * q) div 3 = 4 * q" "(4 * q + 3) div 4 = q" "(3 * q + 2) div 3 = q" by simp_all
      then show ?thesis unfolding base64_encode_expected_len_def 1 by simp
    next
      case 2
      have "4 * (3 * q + 1) div 3 = 4 * q + 1" "(4 * q + 1 + 3) div 4 = q + 1" "(3 * q + 1 + 2) div 3 = q + 1"
        by presburger+
      then show ?thesis unfolding base64_encode_expected_len_def 2 by simp
    next
      case 3
      have "4 * (3 * q + 2) div 3 = 4 * q + 2" "(4 * q + 2 + 3) div 4 = q + 1" "(3 * q + 2 + 2) div 3 = q + 1"
        by presburger+
      then show ?thesis unfolding base64_encode_expected_len_def 3 by simp
    qed
  qed
  moreover have "length xs div 3 div 18 = length xs div 54" by (simp flip: div_mult2_eq)
  ultimately show ?thesis by (simp add: base64_encode_chars_eq length_encode_from)
qed

end
