(* ===== verification/Base64String.thy ===== *)
theory Base64String
  imports Base64 CLib
begin

text \<open>
  The class \<open>base64\<close> of the Arduino core (\<open>src/components/arduino/cores/esp32/base64.cpp\<close>): encoding into a buffer on
  the heap whose size is estimated, and from there into a \<open>String\<close>.

  The size is computed in \<open>float\<close>; for at most 65536 bytes the rounding does not reach the next whole
  number, so that it is the whole part of 1.6 times the length, plus one.
\<close>

section \<open>Operations\<close>

definition encode_size :: "nat \<Rightarrow> nat" where
  "encode_size len = 8 * len div 5 + 1"

text \<open>\<open>got\<close> says whether \<open>malloc\<close> returned memory. \<open>None\<close>: the coder wrote behind the buffer.\<close>

definition base64_encode :: "bool \<Rightarrow> u8 list \<Rightarrow> string option" where
  "base64_encode got data =
     (let size = encode_size (length data)
      in if got then
           (let (code, st) = base64_encode_block data base64_init_encodestate;
                tail = base64_encode_blockend st;
                buffer = code @ tail @ [CHR 0x00]
            in if length buffer > size then None else Some (c_str buffer))
         else Some ''-FAIL-'')"

definition base64_encode_text :: "bool \<Rightarrow> string \<Rightarrow> string option" where
  "base64_encode_text got str = base64_encode got (map char_byte str)"

section \<open>Properties\<close>

lemma encode_value_nonzero: "base64_encode_value v \<noteq> CHR 0x00"
proof -
  have "\<forall>n \<in> set [0..<64]. encoding ! n \<noteq> CHR 0x00" by code_simp
  then have "encoding ! n \<noteq> CHR 0x00" if "n < 64" for n using that by simp
  then show ?thesis by (auto simp: base64_encode_value_def word_less_nat_alt word_le_nat_alt)
qed

lemma encode_loop_nonzero: "CHR 0x00 \<notin> set (fst (encode_loop stp r sc xs))"
  by (induction stp r sc xs rule: encode_loop.induct)
    (auto simp: encode_value_nonzero [symmetric] Let_def)

lemma encode_chars_nonzero: "CHR 0x00 \<notin> set (base64_encode_chars xs)"
  using encode_loop_nonzero [of step_A 0 0 xs]
  by (cases "encode_loop step_A 0 0 xs")
    (auto simp: base64_encode_chars_def base64_encode_block_def base64_init_encodestate_def
      base64_encode_blockend_def encode_value_nonzero [symmetric] split: encodestep.splits)

lemma base64_encode_eq:
  "base64_encode True xs =
    (if length (base64_encode_chars xs) + 1 > encode_size (length xs) then None else Some (base64_encode_chars xs))"
  using encode_chars_nonzero [of xs] c_str_append_nul [of "base64_encode_chars xs" "[]"]
  by (auto simp: base64_encode_def base64_encode_chars_def Let_def split: prod.splits)

lemma encode_size_enough:
  "4 * ((n + 2) div 3) + n div 54 + 1 \<le> encode_size n \<longleftrightarrow> n \<notin> {1, 2, 4, 7}"
proof (cases "n < 14")
  case True
  have "\<forall>n \<in> set [0..<14]. 4 * ((n + 2) div 3) + n div 54 + 1 \<le> encode_size n \<longleftrightarrow> n \<notin> set [1, 2, 4, 7]" by code_simp
  then show ?thesis using True by simp
next
  case False
  have "3 * ((n + 2) div 3) \<le> n + 2" "54 * (n div 54) \<le> n" "8 * n < 5 * (8 * n div 5) + 5" by simp_all
  then have "4 * ((n + 2) div 3) + n div 54 \<le> 8 * n div 5" using False by linarith
  then show ?thesis using False by (auto simp: encode_size_def)
qed

text \<open>C39: the buffer that \<open>encode\<close> takes from the heap is too short for 1, 2, 4 and 7 bytes of data, and then the coder
  writes behind it; for every other length up to 65536 the result decodes to the data.\<close>

theorem base64_encode_buffer:
  assumes "length xs \<le> 65536"
  shows "(base64_encode True xs = None \<longleftrightarrow> length xs \<in> {1, 2, 4, 7}) \<and>
    (length xs \<notin> {1, 2, 4, 7} \<longrightarrow> (\<exists>s. base64_encode True xs = Some s \<and> base64_read s = Some xs))"
proof -
  have "length (base64_encode_chars xs) = 4 * ((length xs + 2) div 3) + length xs div 54"
    using length_encode_from [of 0 0 xs] by (simp add: base64_encode_chars_eq div_mult2_eq [symmetric])
  then have "length (base64_encode_chars xs) + 1 \<le> encode_size (length xs) \<longleftrightarrow> length xs \<notin> {1, 2, 4, 7}"
    using encode_size_enough by simp
  then show ?thesis using base64_text.dec_enc [of xs] by (auto simp: base64_encode_eq)
qed

theorem base64_encode_buffer_witness:
  "base64_encode True [1] = None \<and> (\<exists>s. base64_encode True [1, 2, 3] = Some s \<and> base64_read s = Some [1, 2, 3])"
  using base64_encode_buffer [of "[1]"] base64_encode_buffer [of "[1, 2, 3]"] by simp

end
