(* ===== verification/Scanf.thy ===== *)
theory Scanf
  imports Serial
begin

text \<open>
  The \<open>sscanf\<close> of the C library, as far as the formats of \<open>src/main/sim800.cpp\<close> go: literal
  characters, white space, and the conversions \<open>d\<close>, \<open>u\<close> and \<open>s\<close> with assignment suppression, a
  field width and the sizes \<open>h\<close> and \<open>l\<close>. The result is the list of the values assigned; its length
  is the number that \<open>sscanf\<close> returns (where it would return \<open>EOF\<close> the list is empty). Numbers
  are cut to the size of the conversion after the saturation of \<open>strtol\<close>.
\<close>

datatype scan_kind = Scan_int bool nat | Scan_str

datatype directive = Space | Literal char | Conv bool "nat option" scan_kind

datatype scanned = Num int | Str string

section \<open>Formats\<close>

definition scan_size :: "string \<Rightarrow> nat \<times> string" where
  "scan_size s =
     (case s of [] \<Rightarrow> (32, s)
      | c # t \<Rightarrow> if c = CHR ''h'' then (16, t) else if c = CHR ''l'' then (32, t) else (32, s))"

definition scan_star :: "string \<Rightarrow> bool \<times> string" where
  "scan_star s = (case s of [] \<Rightarrow> (False, s) | c # t \<Rightarrow> if c = CHR ''*'' then (True, t) else (False, s))"

definition scan_conv_of :: "string \<Rightarrow> (directive \<times> string) option" where
  "scan_conv_of s =
     (let (star, s) = scan_star s;
          ds = takeWhile c_isdigit s;
          width = (if ds = [] then None else Some (c_digits 10 0 ds));
          (bits, s) = scan_size (dropWhile c_isdigit s)
      in case s of [] \<Rightarrow> None
         | c # t \<Rightarrow>
             if c = CHR ''d'' then Some (Conv star width (Scan_int True bits), t)
             else if c = CHR ''u'' then Some (Conv star width (Scan_int False bits), t)
             else if c = CHR ''s'' then Some (Conv star width Scan_str, t)
             else None)"

lemma scan_size_length: "scan_size s = (b, t) \<Longrightarrow> length t \<le> length s"
  by (cases s) (auto simp: scan_size_def split: if_splits)

lemma scan_conv_of_length: "scan_conv_of s = Some (d, t) \<Longrightarrow> length t < length s"
proof -
  assume a: "scan_conv_of s = Some (d, t)"
  obtain star s1 where 1: "scan_star s = (star, s1)" by fastforce
  obtain bits s2 where 2: "scan_size (dropWhile c_isdigit s1) = (bits, s2)" by fastforce
  have "length s1 \<le> length s" using 1 by (auto simp: scan_star_def split: list.splits if_splits)
  moreover have "length s2 \<le> length (dropWhile c_isdigit s1)"
    using 2 by (rule scan_size_length)
  moreover have "length (dropWhile c_isdigit s1) \<le> length s1" by (rule length_dropWhile_le)
  moreover have "length t < length s2"
    using a by (auto simp: scan_conv_of_def 1 2 Let_def split: list.splits if_splits)
  ultimately show ?thesis by linarith
qed

function (sequential) scan_format :: "string \<Rightarrow> directive list" where
  "scan_format [] = []"
| "scan_format (c # s) =
     (if c = CHR ''%'' then
        (case scan_conv_of s of None \<Rightarrow> [] | Some (d, t) \<Rightarrow> d # scan_format t)
      else if c_isspace c then Space # scan_format s
      else Literal c # scan_format s)"
  by pat_completeness auto
termination
  by (relation "measure length") (auto dest: scan_conv_of_length)

section \<open>Matching\<close>

text \<open>A number of at most \<open>w\<close> characters, and what is left.\<close>

definition scan_number :: "nat option \<Rightarrow> string \<Rightarrow> (bool \<times> nat \<times> string) option" where
  "scan_number w s =
     (let field = (case w of None \<Rightarrow> s | Some n \<Rightarrow> take n s);
          (neg, t) = c_sign field;
          ds = takeWhile c_isdigit t
      in if ds = [] then None
         else Some (neg, c_digits 10 0 ds, drop (length field - length t + length ds) s))"

definition scan_value :: "bool \<Rightarrow> nat \<Rightarrow> bool \<Rightarrow> nat \<Rightarrow> int" where
  "scan_value sg bits neg v =
     (if sg then (if bits = 32 then long_clamp neg v
        else signed_take_bit (bits - 1) (long_clamp neg v))
      else (let m = min (int v) (2 ^ 32 - 1) in (if neg then - m else m) mod 2 ^ bits))"

definition scan_item :: "scan_kind \<Rightarrow> nat option \<Rightarrow> string \<Rightarrow> (scanned \<times> string) option" where
  "scan_item k w s =
     (let s = dropWhile c_isspace s in
      case k of
        Scan_int sg bits \<Rightarrow>
          map_option (\<lambda>(neg, v, t). (Num (scan_value sg bits neg v), t)) (scan_number w s)
      | Scan_str \<Rightarrow>
          (let field = (case w of None \<Rightarrow> s | Some n \<Rightarrow> take n s);
               word = takeWhile (\<lambda>c. \<not> c_isspace c) field
           in if word = [] then None else Some (Str word, drop (length word) s)))"

fun scan_run :: "directive list \<Rightarrow> string \<Rightarrow> scanned list" where
  "scan_run [] s = []"
| "scan_run (Space # ds) s = scan_run ds (dropWhile c_isspace s)"
| "scan_run (Literal c # ds) s =
     (case s of [] \<Rightarrow> [] | x # t \<Rightarrow> if x = c then scan_run ds t else [])"
| "scan_run (Conv star w k # ds) s =
     (case scan_item k w s of
        None \<Rightarrow> []
      | Some (v, t) \<Rightarrow> (if star then scan_run ds t else v # scan_run ds t))"

definition sscanf :: "string \<Rightarrow> string \<Rightarrow> scanned list" where
  "sscanf fmt s = scan_run (scan_format fmt) (c_str s)"

text \<open>What a variable holds after the call: the value assigned, or what it held before.\<close>

definition num_at :: "scanned list \<Rightarrow> nat \<Rightarrow> int \<Rightarrow> int" where
  "num_at vs i old = (if i < length vs then (case vs ! i of Num n \<Rightarrow> n | Str _ \<Rightarrow> old) else old)"

definition str_at :: "scanned list \<Rightarrow> nat \<Rightarrow> string \<Rightarrow> string" where
  "str_at vs i old = (if i < length vs then (case vs ! i of Num _ \<Rightarrow> old | Str s \<Rightarrow> s) else old)"

section \<open>Lemmas\<close>

named_theorems scan_simps \<open>matching of formats against printed text\<close>

lemma scan_run_Literals [scan_simps]: "scan_run (map Literal p @ ds) (p @ s) = scan_run ds s"
  by (induction p) simp_all

lemma scan_run_mismatch:
  "\<not> c_prefix p s \<Longrightarrow> scan_run (map Literal p @ ds) s = []"
proof (induction p arbitrary: s)
  case (Cons c p)
  then show ?case by (cases s) auto
qed simp

lemma dropWhile_space_digits:
  "s \<noteq> [] \<Longrightarrow> list_all c_isdigit s \<Longrightarrow> dropWhile c_isspace (s @ t) = s @ t"
  by (cases s) (auto simp: c_isdigit_def c_isspace_def)

lemma c_sign_digits: "s \<noteq> [] \<Longrightarrow> list_all c_isdigit s \<Longrightarrow> c_sign (s @ t) = (False, s @ t)"
  by (cases s) (auto simp: c_sign_def c_isdigit_def char_code_def)

lemma takeWhile_digits:
  "list_all c_isdigit s \<Longrightarrow> t = [] \<or> \<not> c_isdigit (hd t) \<Longrightarrow> takeWhile c_isdigit (s @ t) = s"
  by (induction s) (cases t, auto)+

text \<open>A printed number is read back, whatever follows it except a digit.\<close>

lemma scan_item_print_number [scan_simps]:
  assumes "t = [] \<or> \<not> c_isdigit (hd t)" and "n < 2 ^ 31"
  shows "scan_item (Scan_int True 32) None (print_number n 10 @ t) = Some (Num (int n), t)"
    and "scan_item (Scan_int False 32) None (print_number n 10 @ t) = Some (Num (int n), t)"
    and "n < 2 ^ 16 \<Longrightarrow> scan_item (Scan_int False 16) None (print_number n 10 @ t) = Some (Num (int n), t)"
proof -
  let ?s = "print_number n 10"
  have d: "?s \<noteq> []" "list_all c_isdigit ?s"
    by (rule print_number_nonempty, rule print_number_digits)
  have v: "c_digits 10 0 ?s = n" using print_digits_value by (simp add: print_number_def)
  note r = dropWhile_space_digits [OF d] c_sign_digits [OF d] takeWhile_digits [OF d(2) assms(1)] d(1) v
  show "scan_item (Scan_int True 32) None (?s @ t) = Some (Num (int n), t)"
    using assms(2) by (simp add: scan_item_def scan_number_def scan_value_def long_clamp_def r)
  show "scan_item (Scan_int False 32) None (?s @ t) = Some (Num (int n), t)"
    using assms(2) by (simp add: scan_item_def scan_number_def scan_value_def Let_def r)
  show "scan_item (Scan_int False 16) None (?s @ t) = Some (Num (int n), t)" if "n < 2 ^ 16"
    using that by (simp add: scan_item_def scan_number_def scan_value_def Let_def r)
qed

lemma scan_item_print_number_end [scan_simps]:
  "n < 2 ^ 31 \<Longrightarrow> scan_item (Scan_int True 32) None (print_number n 10) = Some (Num (int n), [])"
  "n < 2 ^ 31 \<Longrightarrow> scan_item (Scan_int False 32) None (print_number n 10) = Some (Num (int n), [])"
  using scan_item_print_number [of "[]" n] by simp_all

lemma dropWhile_space_print_number [scan_simps]:
  "dropWhile c_isspace (print_number n 10 @ t) = print_number n 10 @ t"
  by (rule dropWhile_space_digits [OF print_number_nonempty print_number_digits])

lemma not_digit_comma [scan_simps]: "\<not> c_isdigit CHR '',''"
  by code_simp

lemma digits_no_nul: "list_all c_isdigit s \<Longrightarrow> CHR 0x00 \<notin> set s"
  by (auto simp: list_all_iff c_isdigit_def char_code_def)

lemma print_number_no_nul [simp]: "CHR 0x00 \<notin> set (print_number n 10)"
  by (rule digits_no_nul [OF print_number_digits])

lemma print_number_length: "n < 10 ^ Suc k \<Longrightarrow> length (print_number n 10) \<le> Suc k"
proof (induction k arbitrary: n)
  case 0
  then show ?case by (simp add: print_number_def print_digits_10)
next
  case (Suc k)
  have "length (print_number n 10) = (if n < 10 then 1 else Suc (length (print_number (n div 10) 10)))"
    using print_digits_10 [of n] by (simp add: print_number_def)
  moreover have "n div 10 < 10 ^ Suc k" using Suc.prems by (simp add: div_less_iff_less_mult mult.commute)
  ultimately show ?case using Suc.IH [of "n div 10"] by auto
qed

end
