(* ===== verification/Sim800.thy ===== *)
theory Sim800
  imports Scanf
begin

text \<open>
  The modem driver of the main program (\<open>src/main/sim800.cpp\<close>, class \<open>sim800\<close>): the line discipline
  (\<open>readline\<close>, \<open>is_urc\<close>, \<open>expect\<close>, \<open>expect_scan\<close>) and the commands built on it.

  The state extends the line of \<open>Serial\<close> by the members of the class. Two fields are the
  environment's: \<open>s_ps\<close> is the level of the status pin at each millisecond, and \<open>s_poll\<close> the time a
  turn of the polling loop of \<open>readline\<close> takes. That loop sleeps for \<open>1 / portTICK_RATE_MS\<close> ticks,
  which is 0 at the configured 100 ticks per second: its timeout counts turns, not milliseconds, so
  the duration of a turn is left open. \<open>flush\<close>, which also empties the hardware queue of received
  bytes, is covered by the bytes that never reach \<open>w_in\<close>. The debug output is not modelled.

  A call that may never return is \<open>None\<close> when it does not. What \<open>sscanf\<close> leaves unassigned in a
  variable without initial value is an argument of the model (\<open>junk\<close>).
\<close>

section \<open>State\<close>

datatype pin_op = Pin_mode nat string | Pin_write nat bool

record sim800 = world +
  s_poll :: nat
  s_ps :: "nat \<Rightarrow> bool"
  s_pins :: "pin_op list"
  serial_worked :: bool
  gsm_rssi :: int
  gsm_ber :: int
  urc_status :: u8
  s_apn :: "string option"
  s_user :: "string option"
  s_pass :: "string option"
  current_operator :: nat

definition SIM800_BUFSIZE :: nat where "SIM800_BUFSIZE = 128"
definition SIM800_SERIAL_TIMEOUT :: u32 where "SIM800_SERIAL_TIMEOUT = 5000"
definition GSM_MAX_BUFFSIZE :: nat where "GSM_MAX_BUFFSIZE = 1460"
definition CRITICAL_BUFFER_HTTPREAD :: int where "CRITICAL_BUFFER_HTTPREAD = 102400"

definition SIM800_KEY :: nat where "SIM800_KEY = 21"
definition SIM800_PS :: nat where "SIM800_PS = 27"
definition SIM800_POWER :: nat where "SIM800_POWER = 14"

definition urc_messages :: "string list" where
  "urc_messages =
     [''+CIPRXGET: 1,'', ''+FTPGET: 1,'', ''+PDP: DEACT'', ''+SAPBR 1: DEACT'', ''*PSUTTZ:'', ''+CTZV:'',
      ''DST:'', ''+CIEV:'', ''RDY'', ''+CPIN: READY'', ''Call Ready'', ''SMS Ready'', ''NORMAL POWER DOWN'',
      ''UNDER-VOLTAGE POWER DOWN'', ''UNDER-VOLTAGE WARNNING'', ''OVER-VOLTAGE POWER DOWN'',
      ''OVER-VOLTAGE WARNNING'']"

text \<open>\<open>vTaskDelay(ms / portTICK_RATE_MS)\<close>: whole ticks of ten milliseconds.\<close>

definition task_delay :: "nat \<Rightarrow> 'a world_scheme \<Rightarrow> 'a world_scheme" where
  "task_delay ms w = delay (10 * (ms div 10)) w"

definition pin :: "pin_op \<Rightarrow> 'a sim800_scheme \<Rightarrow> 'a sim800_scheme" where
  "pin p s = s\<lparr>s_pins := s_pins s @ [p]\<rparr>"

definition ps_high :: "'a sim800_scheme \<Rightarrow> bool" where
  "ps_high s = s_ps s (w_now s)"

section \<open>Lines\<close>

text \<open>What \<open>readline\<close> does with the bytes that are there: the flag says that the line is complete.\<close>

function (sequential) readline_avail ::
    "nat \<Rightarrow> string \<Rightarrow> 'a sim800_scheme \<Rightarrow> bool \<times> string \<times> 'a sim800_scheme" where
  "readline_avail mx buf s =
     (case stream_read s of
        (None, s') \<Rightarrow> (False, buf, s')
      | (Some c, s') \<Rightarrow>
          if c = CHR 0x0D then readline_avail mx buf s'
          else if c = CHR 0x0A then
            (if buf = [] then readline_avail mx buf s' else (True, buf, s'))
          else readline_avail mx (if mx - length buf \<noteq> 0 then buf @ [c] else buf) s')"
  by pat_completeness auto
termination
  by (relation "measure (\<lambda>(m, b, s). length (w_in s))") (auto dest: stream_read_Some [OF sym])

declare readline_avail.simps [simp del]

definition poll_turn :: "'a sim800_scheme \<Rightarrow> 'a sim800_scheme" where
  "poll_turn s = s\<lparr>w_now := w_now s + s_poll s\<rparr>"

lemma countdown: "t \<noteq> 1 \<Longrightarrow> unat (t - 2) < unat (t - 1)" for t :: "'a::len word"
  using measure_unat [of "t - 1"] by simp

function (sequential) readline_loop ::
    "nat \<Rightarrow> u16 \<Rightarrow> string \<Rightarrow> 'a sim800_scheme \<Rightarrow> string \<times> 'a sim800_scheme" where
  "readline_loop mx timeout buf s =
     (if timeout - 1 = 0 then (buf, s)
      else (case readline_avail mx buf s of
              (True, buf, s) \<Rightarrow> (buf, s)
            | (False, buf, s) \<Rightarrow> readline_loop mx (timeout - 1) buf (poll_turn s)))"
  by pat_completeness auto
termination
  by (relation "measure (\<lambda>(m, t, b, s). unat (t - 1))") (auto intro: countdown)

declare readline_loop.simps [simp del]

definition readline :: "nat \<Rightarrow> u16 \<Rightarrow> 'a sim800_scheme \<Rightarrow> string \<times> 'a sim800_scheme" where
  "readline mx timeout s = readline_loop mx timeout [] s"

fun urc_index :: "nat \<Rightarrow> string list \<Rightarrow> string \<Rightarrow> nat option" where
  "urc_index i [] line = None"
| "urc_index i (urc # urcs) line =
     (if length urc \<le> length line \<and> c_prefix urc line then Some i else urc_index (i + 1) urcs line)"

definition is_urc :: "string \<Rightarrow> 'a sim800_scheme \<Rightarrow> bool \<times> 'a sim800_scheme" where
  "is_urc line s =
     (case urc_index 0 urc_messages line of
        None \<Rightarrow> (False, s\<lparr>urc_status := 0xFF\<rparr>)
      | Some i \<Rightarrow> (True, s\<lparr>urc_status := of_nat i\<rparr>))"

text \<open>The loop shared by the \<open>expect\<close> functions: the next line that is no notice, the sixth at the
  latest.\<close>

function (sequential) next_line :: "nat \<Rightarrow> u16 \<Rightarrow> 'a sim800_scheme \<Rightarrow> string \<times> 'a sim800_scheme" where
  "next_line i timeout s =
     (let (buf, s) = readline SIM800_BUFSIZE timeout s;
          i = i + 1
      in if i > 5 then (buf, s)
         else (let (urc, s) = is_urc buf s in if urc then next_line i timeout s else (buf, s)))"
  by pat_completeness auto
termination
  by (relation "measure (\<lambda>(i, t, s). 6 - i)") auto

declare next_line.simps [simp del]

definition expect :: "string \<Rightarrow> u16 \<Rightarrow> 'a sim800_scheme \<Rightarrow> bool \<times> 'a sim800_scheme" where
  "expect expected timeout s =
     (let (buf, s) = next_line 0 timeout s in (c_strstr (c_str buf) expected \<noteq> None, s))"

definition expect_OK :: "u16 \<Rightarrow> 'a sim800_scheme \<Rightarrow> bool \<times> 'a sim800_scheme" where
  "expect_OK timeout s = expect ''OK'' timeout s"

text \<open>The four variants of \<open>expect_scan\<close> differ in the number \<open>n\<close> of the variables to assign.\<close>

definition expect_scan :: "nat \<Rightarrow> string \<Rightarrow> u16 \<Rightarrow> 'a sim800_scheme \<Rightarrow> bool \<times> scanned list \<times> 'a sim800_scheme" where
  "expect_scan n fmt timeout s =
     (let (buf, s) = next_line 0 timeout s; vs = sscanf fmt buf in (length vs = n, vs, s))"

function (sequential) nonempty_line :: "nat \<Rightarrow> 'a sim800_scheme \<Rightarrow> string \<times> 'a sim800_scheme" where
  "nonempty_line i s =
     (let (buf, s) = readline 32 60 s;
          i = i + 1
      in if i > 1 then (buf, s) else if length buf = 0 then nonempty_line i s else (buf, s))"
  by pat_completeness auto
termination
  by (relation "measure (\<lambda>(i, s). 2 - i)") auto

declare nonempty_line.simps [simp del]

definition expect_scan_fast :: "string \<Rightarrow> 'a sim800_scheme \<Rightarrow> bool \<times> scanned list \<times> 'a sim800_scheme" where
  "expect_scan_fast fmt s =
     (let (buf, s) = nonempty_line 0 s; vs = sscanf fmt buf in (length vs = 2, vs, s))"

text \<open>\<open>mem\<close> is what the buffer holds behind the bytes read: it has no initial value.\<close>

definition fullexpect :: "string \<Rightarrow> string \<Rightarrow> nat \<Rightarrow> 'a sim800_scheme \<Rightarrow> bool \<times> 'a sim800_scheme" where
  "fullexpect mem expected count_read_bytes s =
     (let (buf, s) = readBytes SIM800_SERIAL_TIMEOUT count_read_bytes s
      in (c_strstr (c_str (buf @ mem)) expected \<noteq> None, s))"

section \<open>Writing\<close>

text \<open>Everything that has arrived is thrown away.\<close>

function (sequential) eat_echo :: "'a world_scheme \<Rightarrow> 'a world_scheme" where
  "eat_echo s = (case stream_read s of (None, s') \<Rightarrow> s' | (Some c, s') \<Rightarrow> eat_echo s')"
  by pat_completeness auto
termination
  by (relation "measure (\<lambda>s. length (w_in s))") (auto dest: stream_read_Some [OF sym])

declare eat_echo.simps [simp del]

definition crlf :: string where "crlf = [CHR 0x0D, CHR 0x0A]"

definition print_text :: "string \<Rightarrow> 'a world_scheme \<Rightarrow> 'a world_scheme" where
  "print_text t s = stream_print t s"

definition print_u32 :: "u32 \<Rightarrow> 'a world_scheme \<Rightarrow> 'a world_scheme" where
  "print_u32 n s = stream_print (print_number (unat n) 10) s"

definition println_text :: "string \<Rightarrow> 'a world_scheme \<Rightarrow> 'a world_scheme" where
  "println_text t s = stream_print crlf (eat_echo (stream_print t s))"

definition println_u32 :: "u32 \<Rightarrow> 'a world_scheme \<Rightarrow> 'a world_scheme" where
  "println_u32 n s = stream_print crlf (eat_echo (stream_print (print_number (unat n) 10) s))"

text \<open>The macro \<open>println_param\<close>.\<close>

definition println_param :: "string \<Rightarrow> string \<Rightarrow> 'a world_scheme \<Rightarrow> 'a world_scheme" where
  "println_param prefix p s =
     println_text [CHR 0x22] (print_text p (print_text [CHR '','', CHR 0x22] (print_text prefix s)))"

text \<open>The parameter named \<open>delay_seconds\<close> is a number of milliseconds, 10 by default.\<close>

definition expect_AT_delay :: "string \<Rightarrow> string \<Rightarrow> u16 \<Rightarrow> u16 \<Rightarrow> 'a sim800_scheme \<Rightarrow> bool \<times> 'a sim800_scheme" where
  "expect_AT_delay cmd expected timeout delay_seconds s =
     expect expected timeout (task_delay (unat delay_seconds) (println_text cmd (print_text ''AT'' s)))"

definition expect_AT :: "string \<Rightarrow> string \<Rightarrow> u16 \<Rightarrow> 'a sim800_scheme \<Rightarrow> bool \<times> 'a sim800_scheme" where
  "expect_AT cmd expected timeout s = expect_AT_delay cmd expected timeout 10 s"

definition expect_AT_OK :: "string \<Rightarrow> u16 \<Rightarrow> 'a sim800_scheme \<Rightarrow> bool \<times> 'a sim800_scheme" where
  "expect_AT_OK cmd timeout s = expect_AT cmd ''OK'' timeout s"

section \<open>What every operation keeps\<close>

text \<open>The clock runs forward, incoming bytes are consumed in order, what was written stays, and the
  environment is not touched.\<close>

definition sim_le :: "'a sim800_scheme \<Rightarrow> 'a sim800_scheme \<Rightarrow> bool" where
  "sim_le s s' \<longleftrightarrow> line_le s s' \<and> (\<exists>t. w_out s' = w_out s @ t) \<and> s_ps s' = s_ps s \<and> s_poll s' = s_poll s"

lemma sim_le_refl [intro, simp]: "sim_le s s"
  by (simp add: sim_le_def)

lemma sim_le_trans [trans]: "sim_le a b \<Longrightarrow> sim_le b c \<Longrightarrow> sim_le a c"
  unfolding sim_le_def by (metis append.assoc line_le_trans)

lemma sim_le_length: "sim_le s s' \<Longrightarrow> length (w_in s') \<le> length (w_in s)"
  by (simp add: sim_le_def line_le_length)

text \<open>The operations that only read: nothing is written and the members of the class stay.\<close>

definition sim_reads :: "'a sim800_scheme \<Rightarrow> 'a sim800_scheme \<Rightarrow> bool" where
  "sim_reads s s' \<longleftrightarrow> line_le s s' \<and>
     (\<exists>u. s' = s\<lparr>w_now := w_now s', w_in := w_in s', urc_status := u\<rparr>)"

lemma sim_reads_refl [intro, simp]: "sim_reads s s"
  unfolding sim_reads_def by (auto intro!: exI [of _ "urc_status s"])

lemma sim_reads_trans: "sim_reads a b \<Longrightarrow> sim_reads b c \<Longrightarrow> sim_reads a c"
  unfolding sim_reads_def by (cases a; cases b; cases c) (auto dest: line_le_trans)

lemma sim_reads_le: "sim_reads s s' \<Longrightarrow> sim_le s s'"
  unfolding sim_reads_def sim_le_def by (cases s; cases s') auto

lemma sim_reads_out: "sim_reads s s' \<Longrightarrow> w_out s' = w_out s"
  unfolding sim_reads_def by (cases s; cases s') auto

lemma reads_only_sim: "reads_only s s' \<Longrightarrow> sim_reads s s'"
  unfolding reads_only_def sim_reads_def by (cases s; cases s') (auto simp: sim800.defs)

lemma poll_turn_reads [simp]: "sim_reads s (poll_turn s)"
  unfolding sim_reads_def poll_turn_def line_le_def by (auto intro!: exI [of _ "urc_status s"])

lemma readline_avail_reads: "readline_avail mx buf s = (d, b, s') \<Longrightarrow> sim_reads s s'"
proof (induction mx buf s arbitrary: d b s' rule: readline_avail.induct)
  case (1 mx buf s)
  obtain r s1 where r: "stream_read s = (r, s1)" by fastforce
  have 1: "sim_reads s s1" using r by (intro reads_only_sim stream_read_reads_only)
  show ?case
  proof (cases r)
    case None
    then show ?thesis using 1 r "1.prems" by (subst (asm) readline_avail.simps) simp
  next
    case (Some c)
    note IH = "1.IH" [OF r [symmetric] Some]
    show ?thesis using "1.prems" Some r 1 IH
      by (subst (asm) readline_avail.simps) (auto split: if_splits dest: sim_reads_trans)
  qed
qed

lemma readline_reads: "readline mx tmo s = (b, s') \<Longrightarrow> sim_reads s s'"
proof -
  have "readline_loop mx tmo buf s = (b, s') \<Longrightarrow> sim_reads s s'" for buf
  proof (induction mx tmo buf s arbitrary: b s' rule: readline_loop.induct)
    case (1 mx tmo buf s)
    obtain d buf1 s1 where r: "readline_avail mx buf s = (d, buf1, s1)" by (metis prod_cases3)
    note s1 = readline_avail_reads [OF r]
    show ?case
    proof (cases "tmo - 1 = 0 \<or> d")
      case True
      then show ?thesis using "1.prems" r s1
        by (subst (asm) readline_loop.simps) (auto split: if_splits bool.splits)
    next
      case False
      then have "readline_loop mx (tmo - 1) buf1 (poll_turn s1) = (b, s')"
        using "1.prems" r by (subst (asm) readline_loop.simps) simp
      then have "sim_reads (poll_turn s1) s'" using "1.IH" r False by auto
      then show ?thesis using s1 poll_turn_reads sim_reads_trans by metis
    qed
  qed
  then show "readline mx tmo s = (b, s') \<Longrightarrow> sim_reads s s'" by (simp add: readline_def)
qed

lemma is_urc_reads: "is_urc line s = (u, s') \<Longrightarrow> sim_reads s s'"
  by (auto simp: is_urc_def sim_reads_def line_le_def split: option.splits)

lemma next_line_reads: "next_line i tmo s = (b, s') \<Longrightarrow> sim_reads s s'"
proof (induction i tmo s arbitrary: b s' rule: next_line.induct)
  case (1 i tmo s)
  obtain b1 s1 where r: "readline SIM800_BUFSIZE tmo s = (b1, s1)" by fastforce
  obtain u s2 where u: "is_urc b1 s1 = (u, s2)" by fastforce
  have s2: "sim_reads s s1" "sim_reads s s2"
    using readline_reads [OF r] is_urc_reads [OF u] sim_reads_trans by blast+
  show ?case
  proof (cases "i + 1 > 5 \<or> \<not> u")
    case True
    then show ?thesis using "1.prems" r u s2
      by (subst (asm) next_line.simps) (auto split: if_splits)
  next
    case False
    then have "next_line (i + 1) tmo s2 = (b, s')"
      using "1.prems" r u by (subst (asm) next_line.simps) simp
    moreover have "next_line (i + 1) tmo s2 = (b, s') \<Longrightarrow> sim_reads s2 s'"
      using "1.IH" r u False by auto
    ultimately show ?thesis using s2 sim_reads_trans by blast
  qed
qed

lemma expect_reads: "expect e tmo s = (ok, s') \<Longrightarrow> sim_reads s s'"
  by (auto simp: expect_def split: prod.splits dest: next_line_reads)

lemma expect_scan_reads: "expect_scan n fmt tmo s = (ok, vs, s') \<Longrightarrow> sim_reads s s'"
  by (auto simp: expect_scan_def Let_def split: prod.splits dest: next_line_reads)

lemma eat_echo_eq: "eat_echo s = s\<lparr>w_in := dropWhile (\<lambda>(t, c). t \<le> w_now s) (w_in s)\<rparr>"
proof (induction s rule: eat_echo.induct)
  case (1 s)
  then show ?case
    by (subst eat_echo.simps) (cases "w_in s", auto simp: stream_read_def split: if_splits)
qed

lemma line_le_eat_echo: "line_le s (eat_echo s)"
  unfolding eat_echo_eq line_le_def by (auto intro: takeWhile_dropWhile_id [symmetric])

lemma println_le: "sim_le s (println_text t s)" "sim_le s (println_u32 n s)"
  using line_le_eat_echo [of "stream_print _ s"]
  by (auto simp: sim_le_def println_text_def println_u32_def stream_print_def eat_echo_eq line_le_def)

lemma print_le: "sim_le s (print_text t s)" "sim_le s (print_u32 n s)" "sim_le s (stream_print t s)"
  by (auto simp: sim_le_def print_text_def print_u32_def stream_print_def line_le_def)

lemma task_delay_le: "sim_le s (task_delay ms s)"
  by (auto simp: sim_le_def task_delay_def delay_def line_le_def)

lemma pin_le: "sim_le s (pin p s)"
  by (auto simp: sim_le_def pin_def line_le_def)

text \<open>What is written by the elementary operations.\<close>

lemma w_out_println [simp]: "w_out (println_text t s) = w_out s @ t @ crlf"
  and w_out_println_u32 [simp]: "w_out (println_u32 n s) = w_out s @ print_number (unat n) 10 @ crlf"
  and w_out_print [simp]: "w_out (print_text t s) = w_out s @ t"
  and w_out_print_u32 [simp]: "w_out (print_u32 n s) = w_out s @ print_number (unat n) 10"
  and w_out_stream_print [simp]: "w_out (stream_print t s) = w_out s @ t"
  and w_out_task_delay [simp]: "w_out (task_delay ms s) = w_out s"
  and w_out_pin [simp]: "w_out (pin p s') = w_out s'"
  by (simp_all add: println_text_def println_u32_def print_text_def print_u32_def stream_print_def
    eat_echo_eq task_delay_def delay_def pin_def)

lemma expect_AT_out: "expect_AT cmd e tmo s = (ok, s') \<Longrightarrow> w_out s' = w_out s @ ''AT'' @ cmd @ crlf"
  unfolding expect_AT_def expect_AT_delay_def by (drule expect_reads, drule sim_reads_out) simp

lemma expect_AT_OK_out: "expect_AT_OK cmd tmo s = (ok, s') \<Longrightarrow> w_out s' = w_out s @ ''AT'' @ cmd @ crlf"
  unfolding expect_AT_OK_def by (rule expect_AT_out)

lemma expect_OK_out: "expect_OK tmo s = (ok, s') \<Longrightarrow> w_out s' = w_out s"
  unfolding expect_OK_def by (drule expect_reads, drule sim_reads_out)

lemma expect_le: "expect e tmo s = (ok, s') \<Longrightarrow> sim_le s s'"
  by (intro sim_reads_le expect_reads)

lemma expect_OK_le: "expect_OK tmo s = (ok, s') \<Longrightarrow> sim_le s s'"
  unfolding expect_OK_def by (rule expect_le)

lemma expect_AT_le: "expect_AT cmd e tmo s = (ok, s') \<Longrightarrow> sim_le s s'"
  unfolding expect_AT_def expect_AT_delay_def
  using println_le print_le task_delay_le expect_le by (metis sim_le_trans)

lemma expect_AT_OK_le: "expect_AT_OK cmd tmo s = (ok, s') \<Longrightarrow> sim_le s s'"
  unfolding expect_AT_OK_def by (rule expect_AT_le)

lemma expect_scan_le: "expect_scan n fmt tmo s = (ok, vs, s') \<Longrightarrow> sim_le s s'"
  by (intro sim_reads_le expect_scan_reads)

end
