(* ===== verification/Sim800Line.thy ===== *)
theory Sim800Line
  imports Sim800
begin

text \<open>
  The line discipline of the modem driver: what \<open>readline\<close>, \<open>is_urc\<close>, \<open>expect\<close> and \<open>expect_scan\<close>
  make of the bytes that arrive, for every arrival times within the timeout.
\<close>

section \<open>A line out of a stream of characters\<close>

text \<open>The line that \<open>readline\<close> finds in a text, and the text behind it.\<close>

fun line_of :: "nat \<Rightarrow> string \<Rightarrow> string \<Rightarrow> (string \<times> string) option" where
  "line_of mx buf [] = None"
| "line_of mx buf (c # cs) =
     (if c = CHR 0x0D then line_of mx buf cs
      else if c = CHR 0x0A then (if buf = [] then line_of mx buf cs else Some (buf, cs))
      else line_of mx (if length buf < mx then buf @ [c] else buf) cs)"

lemma line_of_text:
  "CHR 0x0D \<notin> set l \<Longrightarrow> CHR 0x0A \<notin> set l \<Longrightarrow> length buf \<le> mx \<Longrightarrow>
   line_of mx buf (l @ cs) = line_of mx (take mx (buf @ l)) cs"
  by (induction l arbitrary: buf) (auto simp: take_Cons')

text \<open>The modem puts its lines between line ends.\<close>

definition answer_line :: "string \<Rightarrow> string" where
  "answer_line l = crlf @ l @ crlf"

definition plain_line :: "string \<Rightarrow> bool" where
  "plain_line l \<longleftrightarrow> l \<noteq> [] \<and> CHR 0x0D \<notin> set l \<and> CHR 0x0A \<notin> set l"

lemma line_of_answer_line:
  "plain_line l \<Longrightarrow> 0 < mx \<Longrightarrow> line_of mx [] (answer_line l @ nxt) = Some (take mx l, nxt)"
  by (simp add: answer_line_def crlf_def plain_line_def line_of_text)

lemma incoming_later: "incoming T cs rest s \<Longrightarrow> n \<le> max T n \<Longrightarrow> incoming (max T n) cs rest (s\<lparr>w_now := n\<rparr>)"
  by (fastforce simp: incoming_def)

text \<open>The bytes that are there either complete the line or leave a text that still yields it.\<close>

lemma readline_avail_incoming:
  assumes "line_of mx buf cs = Some (line, nxt)" and "incoming T cs rest s"
  obtains mid where "readline_avail mx buf s = (True, line, s\<lparr>w_in := mid\<rparr>)"
      "incoming T nxt rest (s\<lparr>w_in := mid\<rparr>)"
  | mid buf' cs' where "readline_avail mx buf s = (False, buf', s\<lparr>w_in := mid\<rparr>)"
      "line_of mx buf' cs' = Some (line, nxt)" "incoming T cs' rest (s\<lparr>w_in := mid\<rparr>)" "w_now s < T"
  using assms
proof (induction cs arbitrary: buf s thesis)
  case (Cons c cs)
  obtain t mid where t: "w_in s = (t, c) # mid" "t \<le> T"
    and inc: "incoming T cs rest (s\<lparr>w_now := max t (w_now s), w_in := mid\<rparr>)"
    using Cons.prems(4) by (auto simp: incoming_Cons)
  show ?case
  proof (cases "t \<le> w_now s")
    case False
    then have "stream_read s = (None, s)" using t by (simp add: stream_read_def)
    then have "readline_avail mx buf s = (False, buf, s\<lparr>w_in := w_in s\<rparr>)"
      by (subst readline_avail.simps) simp
    moreover have "incoming T (c # cs) rest (s\<lparr>w_in := w_in s\<rparr>)" using Cons.prems(4) by simp
    ultimately show ?thesis using Cons.prems(2,3) False t(2) by (metis less_le_trans not_le)
  next
    case True
    let ?s = "s\<lparr>w_in := mid\<rparr>"
    have rd: "stream_read s = (Some c, ?s)" using t True by (simp add: stream_read_def)
    have i: "incoming T cs rest ?s" using inc True by (simp add: max_def)
    have step: thesis
      if "readline_avail mx buf s = readline_avail mx b ?s" "line_of mx b cs = Some (line, nxt)" for b
    proof (rule Cons.IH [OF _ _ that(2) i])
      fix m assume "readline_avail mx b ?s = (True, line, ?s\<lparr>w_in := m\<rparr>)" "incoming T nxt rest (?s\<lparr>w_in := m\<rparr>)"
      then show thesis using that(1) Cons.prems(1) [of m] by simp
    next
      fix m b' cs'
      assume "readline_avail mx b ?s = (False, b', ?s\<lparr>w_in := m\<rparr>)" "line_of mx b' cs' = Some (line, nxt)"
        "incoming T cs' rest (?s\<lparr>w_in := m\<rparr>)" "w_now ?s < T"
      then show thesis using that(1) Cons.prems(2) [of b' m cs'] by simp
    qed
    have unf: "readline_avail mx buf s =
      (if c = CHR 0x0D then readline_avail mx buf ?s
       else if c = CHR 0x0A then (if buf = [] then readline_avail mx buf ?s else (True, buf, ?s))
       else readline_avail mx (if mx - length buf \<noteq> 0 then buf @ [c] else buf) ?s)"
      by (subst readline_avail.simps) (simp add: rd)
    show ?thesis
    proof (cases "c = CHR 0x0A \<and> buf \<noteq> []")
      case True
      then have "readline_avail mx buf s = (True, line, ?s)" "nxt = cs"
        using unf Cons.prems(3) by auto
      then show ?thesis using Cons.prems(1) i by blast
    next
      case False
      have "length buf < mx \<longleftrightarrow> mx - length buf \<noteq> 0" by auto
      then show ?thesis using Cons.prems(3) False unf
        by (intro step [of "if c = CHR 0x0D \<or> c = CHR 0x0A then buf else if length buf < mx then buf @ [c] else buf"])
          (auto split: if_splits)
    qed
  qed
qed simp

text \<open>A line that is complete before the last turn is returned.\<close>

lemma readline_loop_incoming:
  assumes "line_of mx buf cs = Some (line, nxt)" and "incoming T cs rest s"
    and "timeout \<noteq> 1" and "T \<le> w_now s + s_poll s * (unat (timeout - 1) - 1)"
  obtains n mid where "readline_loop mx timeout buf s = (line, s\<lparr>w_now := n, w_in := mid\<rparr>)"
    "w_now s \<le> n" "incoming (max T n) nxt rest (s\<lparr>w_now := n, w_in := mid\<rparr>)"
  using assms
proof (induction mx timeout buf s arbitrary: cs T thesis rule: readline_loop.induct)
  case (1 mx timeout buf s)
  have nz: "timeout - 1 \<noteq> 0" using "1.prems"(4) by simp
  note IH = "1.IH" [OF nz]
  from "1.prems"(2,3) show ?case
  proof (cases rule: readline_avail_incoming)
    case (1 mid)
    then have "readline_loop mx timeout buf s = (line, s\<lparr>w_in := mid\<rparr>)"
      using nz by (subst readline_loop.simps) simp
    moreover have "incoming (max T (w_now s)) nxt rest (s\<lparr>w_in := mid\<rparr>)"
      using incoming_later [OF 1(2), of "w_now s"] by simp
    ultimately show ?thesis using "1.prems"(1) [of mid "w_now s"] by simp
  next
    case (2 mid buf' cs')
    let ?s = "poll_turn (s\<lparr>w_in := mid\<rparr>)"
    let ?T = "max T (w_now ?s)"
    have unf: "readline_loop mx timeout buf s = readline_loop mx (timeout - 1) buf' ?s"
      using nz 2(1) by (subst readline_loop.simps) simp
    have k: "1 < unat (timeout - 1)"
    proof (rule ccontr)
      assume "\<not> ?thesis"
      then have "unat (timeout - 1) - 1 = 0" by simp
      then show False using "1.prems"(5) 2(4) by simp
    qed
    have k2: "unat (timeout - 1 - 1) = unat (timeout - 1) - 1"
      using nz by (rule unat_minus_one)
    have inc: "incoming ?T cs' rest ?s"
      using incoming_later [OF 2(3), of "w_now ?s"] by (simp add: poll_turn_def)
    have ne: "timeout - 1 \<noteq> 1" using k by auto
    have "s_poll s * (unat (timeout - 1) - 1) = s_poll s + s_poll s * (unat (timeout - 1) - 1 - 1)"
      using k by (metis Suc_diff_1 add.commute diff_Suc_1 less_SucE mult_Suc_right not_less_eq plus_1_eq_Suc zero_less_diff)
    then have le: "?T \<le> w_now ?s + s_poll ?s * (unat (timeout - 1 - 1) - 1)"
      using "1.prems"(5) k2 by (auto simp: poll_turn_def)
    show ?thesis
    proof (rule IH [OF 2(1) [symmetric] refl refl, where cs = cs' and T = ?T])
      fix n m
      assume "readline_loop mx (timeout - 1) buf' ?s = (line, ?s\<lparr>w_now := n, w_in := m\<rparr>)"
        and "w_now ?s \<le> n" and "incoming (max ?T n) nxt rest (?s\<lparr>w_now := n, w_in := m\<rparr>)"
      moreover from this have "max ?T n = max T n" by auto
      ultimately show thesis using "1.prems"(1) [of m n] unf by (simp add: poll_turn_def)
    qed (use 2(2) inc ne le in auto)
  qed
qed

lemma readline_incoming:
  assumes "plain_line l" and "0 < mx" and "incoming T (answer_line l @ nxt) rest s"
    and "timeout \<noteq> 1" and "T \<le> w_now s + s_poll s * (unat (timeout - 1) - 1)"
  obtains n mid where "readline mx timeout s = (take mx l, s\<lparr>w_now := n, w_in := mid\<rparr>)"
    "w_now s \<le> n" "incoming (max T n) nxt rest (s\<lparr>w_now := n, w_in := mid\<rparr>)"
  unfolding readline_def
  using readline_loop_incoming [OF line_of_answer_line [OF assms(1,2)] assms(3-5)] by blast

section \<open>Notices\<close>

definition notice :: "string \<Rightarrow> bool" where
  "notice line \<longleftrightarrow> urc_index 0 urc_messages line \<noteq> None"

lemma urc_index_Some:
  "urc_index i urcs line = Some k \<longleftrightarrow>
    i \<le> k \<and> k < i + length urcs \<and> c_prefix (urcs ! (k - i)) line \<and>
    (\<forall>j < k - i. \<not> c_prefix (urcs ! j) line)"
proof (induction i urcs line rule: urc_index.induct)
  case (2 i urc urcs line)
  have len: "c_prefix urc line \<Longrightarrow> length urc \<le> length line" by (auto simp: c_prefix_iff)
  show ?case
  proof (cases "c_prefix urc line")
    case True
    then show ?thesis using len by (cases "k - i") auto
  next
    case False
    then have "urc_index i (urc # urcs) line = urc_index (i + 1) urcs line" by simp
    also have "\<dots> = Some k \<longleftrightarrow> i + 1 \<le> k \<and> k < i + 1 + length urcs \<and> c_prefix (urcs ! (k - (i + 1))) line \<and>
        (\<forall>j < k - (i + 1). \<not> c_prefix (urcs ! j) line)"
      using False "2.IH" by blast
    also have "\<dots> \<longleftrightarrow> i \<le> k \<and> k < i + length (urc # urcs) \<and> c_prefix ((urc # urcs) ! (k - i)) line \<and>
        (\<forall>j < k - i. \<not> c_prefix ((urc # urcs) ! j) line)"
    proof (cases "k \<le> i")
      case True
      then show ?thesis using False by (cases "k = i") auto
    next
      case False': False
      then obtain d where d: "k = Suc (i + d)" by (metis less_imp_Suc_add not_le)
      then show ?thesis using False by (auto simp: All_less_Suc2)
    qed
    finally show ?thesis .
  qed
qed simp

lemma urc_index_None: "urc_index i urcs line = None \<longleftrightarrow> (\<forall>u \<in> set urcs. \<not> c_prefix u line)"
  by (induction i urcs line rule: urc_index.induct) (auto simp: c_prefix_iff)

lemma is_urc_notice: "is_urc line s = (notice line, s\<lparr>urc_status := urc_status (snd (is_urc line s))\<rparr>)"
  by (auto simp: is_urc_def notice_def split: option.splits)

text \<open>One pass of the loop of the \<open>expect\<close> functions: a notice is skipped, any other line ends it.\<close>

lemma next_line_skips:
  assumes "plain_line v" and "notice (take SIM800_BUFSIZE v)" and "i < 5"
    and "incoming T (answer_line v @ nxt) rest s"
    and "timeout \<noteq> 1" and "T \<le> w_now s + s_poll s * (unat (timeout - 1) - 1)"
  obtains n mid u where
    "next_line i timeout s = next_line (i + 1) timeout (s\<lparr>w_now := n, w_in := mid, urc_status := u\<rparr>)"
    "w_now s \<le> n" "incoming (max T n) nxt rest (s\<lparr>w_now := n, w_in := mid, urc_status := u\<rparr>)"
proof -
  have pos: "0 < SIM800_BUFSIZE" by (simp add: SIM800_BUFSIZE_def)
  from readline_incoming [OF assms(1) pos assms(4-6)]
  obtain n mid where r: "readline SIM800_BUFSIZE timeout s = (take SIM800_BUFSIZE v, s\<lparr>w_now := n, w_in := mid\<rparr>)"
    "w_now s \<le> n" "incoming (max T n) nxt rest (s\<lparr>w_now := n, w_in := mid\<rparr>)" .
  obtain w where u: "is_urc (take SIM800_BUFSIZE v) (s\<lparr>w_now := n, w_in := mid\<rparr>) =
      (True, s\<lparr>w_now := n, w_in := mid, urc_status := w\<rparr>)"
    using is_urc_notice [of "take SIM800_BUFSIZE v" "s\<lparr>w_now := n, w_in := mid\<rparr>"] assms(2) by auto
  have "next_line i timeout s = next_line (i + 1) timeout (s\<lparr>w_now := n, w_in := mid, urc_status := w\<rparr>)"
    using r(1) u assms(3) by (subst next_line.simps) simp
  moreover have "incoming (max T n) nxt rest (s\<lparr>w_now := n, w_in := mid, urc_status := w\<rparr>)"
    using r(3) by (simp add: incoming_def)
  ultimately show ?thesis using that r(2) by blast
qed

lemma next_line_answers:
  assumes "plain_line l" and "i = 5 \<or> \<not> notice (take SIM800_BUFSIZE l)" and "i \<le> 5"
    and "incoming T (answer_line l @ nxt) rest s"
    and "timeout \<noteq> 1" and "T \<le> w_now s + s_poll s * (unat (timeout - 1) - 1)"
  obtains n mid u where
    "next_line i timeout s = (take SIM800_BUFSIZE l, s\<lparr>w_now := n, w_in := mid, urc_status := u\<rparr>)"
    "w_now s \<le> n" "incoming (max T n) nxt rest (s\<lparr>w_now := n, w_in := mid\<rparr>)"
proof -
  have pos: "0 < SIM800_BUFSIZE" by (simp add: SIM800_BUFSIZE_def)
  from readline_incoming [OF assms(1) pos assms(4-6)]
  obtain n mid where r: "readline SIM800_BUFSIZE timeout s = (take SIM800_BUFSIZE l, s\<lparr>w_now := n, w_in := mid\<rparr>)"
    "w_now s \<le> n" "incoming (max T n) nxt rest (s\<lparr>w_now := n, w_in := mid\<rparr>)" .
  define s1 where "s1 = s\<lparr>w_now := n, w_in := mid\<rparr>"
  have "\<exists>u. next_line i timeout s = (take SIM800_BUFSIZE l, s1\<lparr>urc_status := u\<rparr>)"
  proof (cases "i = 5")
    case True
    then have "next_line i timeout s = (take SIM800_BUFSIZE l, s1\<lparr>urc_status := urc_status s1\<rparr>)"
      using r(1) by (subst next_line.simps) (simp add: s1_def)
    then show ?thesis by blast
  next
    case False
    then have "\<not> notice (take SIM800_BUFSIZE l)" "i < 5" using assms(2,3) by auto
    then show ?thesis
      using r(1) is_urc_notice [of "take SIM800_BUFSIZE l" s1]
      by (subst next_line.simps) (auto simp: s1_def split: prod.splits)
  qed
  then show ?thesis using that r(2,3) by (auto simp: s1_def)
qed

text \<open>The loop of the \<open>expect\<close> functions passes over the notices before the answer.\<close>

lemma next_line_notices:
  assumes "\<forall>u \<in> set us. plain_line u \<and> notice (take SIM800_BUFSIZE u)" and "plain_line l"
    and "i + length us = 5 \<or> i + length us < 5 \<and> \<not> notice (take SIM800_BUFSIZE l)"
    and "incoming T (concat (map answer_line us) @ answer_line l @ nxt) rest s"
    and "timeout \<noteq> 1" and "T \<le> w_now s + s_poll s * (unat (timeout - 1) - 1)"
  obtains n mid u where
    "next_line i timeout s = (take SIM800_BUFSIZE l, s\<lparr>w_now := n, w_in := mid, urc_status := u\<rparr>)"
    "w_now s \<le> n" "incoming (max T n) nxt rest (s\<lparr>w_now := n, w_in := mid\<rparr>)"
  using assms
proof (induction us arbitrary: i s T thesis)
  case Nil
  have "incoming T (answer_line l @ nxt) rest s" using Nil.prems(5) by simp
  moreover have "i = 5 \<or> \<not> notice (take SIM800_BUFSIZE l)" "i \<le> 5" using Nil.prems(4) by auto
  ultimately obtain n mid u where
    "next_line i timeout s = (take SIM800_BUFSIZE l, s\<lparr>w_now := n, w_in := mid, urc_status := u\<rparr>)"
    "w_now s \<le> n" "incoming (max T n) nxt rest (s\<lparr>w_now := n, w_in := mid\<rparr>)"
    using next_line_answers [OF Nil.prems(3) _ _ _ Nil.prems(6,7)] by metis
  then show ?case by (rule Nil.prems(1))
next
  case (Cons v us)
  have v: "plain_line v" "notice (take SIM800_BUFSIZE v)" "i < 5" using Cons.prems(2,4) by auto
  have "incoming T (answer_line v @ (concat (map answer_line us) @ answer_line l @ nxt)) rest s"
    using Cons.prems(5) by simp
  from next_line_skips [OF v this Cons.prems(6,7)] obtain n mid w where
    r: "next_line i timeout s = next_line (i + 1) timeout (s\<lparr>w_now := n, w_in := mid, urc_status := w\<rparr>)"
      "w_now s \<le> n" "incoming (max T n) (concat (map answer_line us) @ answer_line l @ nxt) rest
        (s\<lparr>w_now := n, w_in := mid, urc_status := w\<rparr>)" .
  let ?s = "s\<lparr>w_now := n, w_in := mid, urc_status := w\<rparr>"
  have "max T n \<le> w_now ?s + s_poll ?s * (unat (timeout - 1) - 1)" using Cons.prems(7) r(2) by auto
  moreover have "i + 1 + length us = 5 \<or> i + 1 + length us < 5 \<and> \<not> notice (take SIM800_BUFSIZE l)"
    using Cons.prems(4) by auto
  ultimately obtain n' mid' u' where
    nx: "next_line (i + 1) timeout ?s = (take SIM800_BUFSIZE l, ?s\<lparr>w_now := n', w_in := mid', urc_status := u'\<rparr>)"
    "w_now ?s \<le> n'" "incoming (max (max T n) n') nxt rest (?s\<lparr>w_now := n', w_in := mid'\<rparr>)"
    using Cons.IH [where i = "i + 1" and T = "max T n" and s = ?s] Cons.prems(2,3,6) r(3) by auto
  have "max (max T n) n' = max T n'" using nx(2) by simp
  then have "incoming (max T n') nxt rest (s\<lparr>w_now := n', w_in := mid'\<rparr>)"
    using nx(3) by (simp add: incoming_def)
  then show ?case using Cons.prems(1) nx(1,2) r(1,2) by simp
qed

lemma expect_notices:
  assumes "\<forall>u \<in> set us. plain_line u \<and> notice (take SIM800_BUFSIZE u)" and "plain_line l"
    and "length us = 5 \<or> length us < 5 \<and> \<not> notice l" and "length l \<le> SIM800_BUFSIZE" and "CHR 0x00 \<notin> set l"
    and "incoming T (concat (map answer_line us) @ answer_line l @ nxt) rest s"
    and "timeout \<noteq> 1" and "T \<le> w_now s + s_poll s * (unat (timeout - 1) - 1)"
  obtains n mid u where
    "expect e timeout s = ((\<exists>a b. l = a @ e @ b), s\<lparr>w_now := n, w_in := mid, urc_status := u\<rparr>)"
    "w_now s \<le> n" "incoming (max T n) nxt rest (s\<lparr>w_now := n, w_in := mid\<rparr>)"
proof -
  have "0 + length us = 5 \<or> 0 + length us < 5 \<and> \<not> notice (take SIM800_BUFSIZE l)" using assms(3,4) by simp
  from next_line_notices [OF assms(1,2) this assms(6-8)]
  obtain n mid u where r: "next_line 0 timeout s = (take SIM800_BUFSIZE l, s\<lparr>w_now := n, w_in := mid, urc_status := u\<rparr>)"
    "w_now s \<le> n" "incoming (max T n) nxt rest (s\<lparr>w_now := n, w_in := mid\<rparr>)" .
  have "expect e timeout s = ((\<exists>a b. l = a @ e @ b), s\<lparr>w_now := n, w_in := mid, urc_status := u\<rparr>)"
    using r(1) assms(4,5) by (simp add: expect_def c_strstr_iff del: not_None_eq)
  then show thesis using that r(2,3) by blast
qed

lemma expect_scan_notices:
  assumes "\<forall>u \<in> set us. plain_line u \<and> notice (take SIM800_BUFSIZE u)" and "plain_line l"
    and "length us = 5 \<or> length us < 5 \<and> \<not> notice l" and "length l \<le> SIM800_BUFSIZE"
    and "incoming T (concat (map answer_line us) @ answer_line l @ nxt) rest s"
    and "timeout \<noteq> 1" and "T \<le> w_now s + s_poll s * (unat (timeout - 1) - 1)"
  obtains n mid u where
    "expect_scan k fmt timeout s =
       (length (sscanf fmt l) = k, sscanf fmt l, s\<lparr>w_now := n, w_in := mid, urc_status := u\<rparr>)"
    "w_now s \<le> n" "incoming (max T n) nxt rest (s\<lparr>w_now := n, w_in := mid\<rparr>)"
proof -
  have "0 + length us = 5 \<or> 0 + length us < 5 \<and> \<not> notice (take SIM800_BUFSIZE l)" using assms(3,4) by simp
  from next_line_notices [OF assms(1,2) this assms(5-7)]
  obtain n mid u where r: "next_line 0 timeout s = (take SIM800_BUFSIZE l, s\<lparr>w_now := n, w_in := mid, urc_status := u\<rparr>)"
    "w_now s \<le> n" "incoming (max T n) nxt rest (s\<lparr>w_now := n, w_in := mid\<rparr>)" .
  have "expect_scan k fmt timeout s =
      (length (sscanf fmt l) = k, sscanf fmt l, s\<lparr>w_now := n, w_in := mid, urc_status := u\<rparr>)"
    using r(1) assms(4) by (simp add: expect_scan_def Let_def)
  then show thesis using that r(2,3) by blast
qed

section \<open>Commands\<close>

text \<open>When nothing has arrived, a command throws nothing away.\<close>

lemma eat_echo_idle: "available s = 0 \<Longrightarrow> eat_echo s = s"
  by (cases "w_in s") (auto simp: eat_echo_eq available_def split: if_splits)

lemma println_idle: "available s = 0 \<Longrightarrow> println_text t s = stream_print (t @ crlf) s"
  using eat_echo_idle [of "stream_print t s"]
  by (simp add: println_text_def available_def stream_print_def)

section \<open>Properties\<close>

text \<open>C14: a command writes \<open>AT\<close>, its text and a line end, and nothing else; the result says whether the
  first line that is no notice, or the sixth line, contains the expected text, whatever the times
  at which the bytes arrive within the timeout.\<close>

theorem expect_AT_answer:
  assumes "available s = 0"
    and "\<forall>u \<in> set us. plain_line u \<and> notice (take SIM800_BUFSIZE u)" and "plain_line l"
    and "length us = 5 \<or> length us < 5 \<and> \<not> notice l" and "length l \<le> SIM800_BUFSIZE" and "CHR 0x00 \<notin> set l"
    and "incoming T (concat (map answer_line us) @ answer_line l @ nxt) rest s"
    and "timeout \<noteq> 1" and "T \<le> w_now s + s_poll s * (unat (timeout - 1) - 1)"
  shows "\<exists>s'. expect_AT cmd e timeout s = ((\<exists>a b. l = a @ e @ b), s') \<and>
    w_out s' = w_out s @ ''AT'' @ cmd @ crlf \<and> incoming (max T (w_now s')) nxt rest s'"
proof -
  let ?s = "task_delay 10 (println_text cmd (print_text ''AT'' s))"
  have s: "?s = s\<lparr>w_now := w_now s + 10, w_out := w_out s @ ''AT'' @ cmd @ crlf\<rparr>"
    using assms(1) println_idle [of "print_text ''AT'' s" cmd]
    by (simp add: print_text_def stream_print_def available_def task_delay_def delay_def)
  let ?T = "max T (w_now s + 10)"
  have inc: "incoming ?T (concat (map answer_line us) @ answer_line l @ nxt) rest ?s"
    using assms(7) unfolding s by (fastforce simp: incoming_def)
  have T: "?T \<le> w_now ?s + s_poll ?s * (unat (timeout - 1) - 1)" using assms(9) unfolding s by simp
  from expect_notices [OF assms(2-6) inc assms(8) T]
  obtain n mid u where r: "expect e timeout ?s = ((\<exists>a b. l = a @ e @ b), ?s\<lparr>w_now := n, w_in := mid, urc_status := u\<rparr>)"
    "w_now ?s \<le> n" "incoming (max ?T n) nxt rest (?s\<lparr>w_now := n, w_in := mid\<rparr>)" .
  have "max ?T n = max T n" using r(2) unfolding s by auto
  then show ?thesis using r(1,3) unfolding s
    by (auto simp: expect_AT_def expect_AT_delay_def incoming_def s)
qed

definition sample_sim :: "nat \<Rightarrow> string \<Rightarrow> sim800" where
  "sample_sim t text = \<lparr>w_now = 0, w_in = map (Pair t) text, w_out = [], s_poll = 1, s_ps = (\<lambda>_. True), s_pins = [],
     serial_worked = True, gsm_rssi = 0, gsm_ber = 0, urc_status = 0xFF, s_apn = None, s_user = None, s_pass = None,
     current_operator = 0\<rparr>"

lemma incoming_sample_sim: "incoming t text [] (sample_sim t text)"
  by (auto simp: incoming_def sample_sim_def o_def intro!: exI [of _ "map (Pair t) text"])

theorem expect_AT_answer_witness:
  "\<exists>s'. expect_AT ''+CSQ'' ''OK'' 5000 (sample_sim 20 (answer_line ''Call Ready'' @ answer_line ''OK'')) = (True, s') \<and>
     w_out s' = ''AT+CSQ'' @ crlf"
proof -
  let ?s = "sample_sim 20 (concat (map answer_line [''Call Ready'']) @ answer_line ''OK'' @ [])"
  have av: "available ?s = 0" by (simp add: available_def sample_sim_def answer_line_def crlf_def)
  have us: "\<forall>u \<in> set [''Call Ready'']. plain_line u \<and> notice (take SIM800_BUFSIZE u)"
    by (simp add: plain_line_def notice_def SIM800_BUFSIZE_def urc_messages_def)
  have l: "plain_line ''OK''" "length [''Call Ready''] = 5 \<or> length [''Call Ready''] < 5 \<and> \<not> notice ''OK''"
    "length ''OK'' \<le> SIM800_BUFSIZE" "CHR 0x00 \<notin> set ''OK''"
    by (simp_all add: plain_line_def notice_def SIM800_BUFSIZE_def urc_messages_def)
  have t: "(5000 :: u16) \<noteq> 1" "20 \<le> w_now ?s + s_poll ?s * (unat ((5000 :: u16) - 1) - 1)"
    by (simp_all add: sample_sim_def)
  have "\<exists>s'. expect_AT ''+CSQ'' ''OK'' 5000 ?s = ((\<exists>a b. ''OK'' = a @ ''OK'' @ b), s') \<and>
      w_out s' = w_out ?s @ ''AT'' @ ''+CSQ'' @ crlf \<and> incoming (max 20 (w_now s')) [] [] s'"
    by (rule expect_AT_answer [OF av us l incoming_sample_sim t])
  moreover have "\<exists>a b. ''OK'' = a @ ''OK'' @ b" by auto
  ultimately show ?thesis by (auto simp: sample_sim_def)
qed

text \<open>A line is a notice exactly when one of the seventeen texts of the table is its beginning; the
  status is the number of the first such text, and \<open>0xFF\<close> when there is none. The network name
  notice, the fifth text of the header, is not in the table.\<close>

theorem is_urc_table:
  "fst (is_urc line s) = (\<exists>u \<in> set urc_messages. c_prefix u line) \<and>
   (\<exists>u. snd (is_urc line s) = s\<lparr>urc_status := u\<rparr> \<and>
      (if fst (is_urc line s) then unat u < 17 \<and> c_prefix (urc_messages ! unat u) line \<and>
         (\<forall>j < unat u. \<not> c_prefix (urc_messages ! j) line)
       else u = 0xFF)) \<and>
   \<not> fst (is_urc (''*PSNWID:'' @ t) s)"
proof -
  have net: "\<not> fst (is_urc (''*PSNWID:'' @ t) s)"
    using urc_index_None [of 0 urc_messages "''*PSNWID:'' @ t"]
    by (simp add: is_urc_def urc_messages_def split: option.splits)
  have len: "length urc_messages = 17" by (simp add: urc_messages_def)
  show ?thesis
  proof (cases "urc_index 0 urc_messages line")
    case None
    then show ?thesis using net urc_index_None [of 0 urc_messages line] by (auto simp: is_urc_def)
  next
    case (Some k)
    then have k: "k < 17" "c_prefix (urc_messages ! k) line" "\<forall>j < k. \<not> c_prefix (urc_messages ! j) line"
      using urc_index_Some [of 0 urc_messages line k] len by auto
    have u: "unat (of_nat k :: u8) = k" using k(1) by (simp add: unat_of_nat)
    have "urc_messages ! k \<in> set urc_messages" using k(1) len by simp
    then show ?thesis using net Some k u by (auto simp: is_urc_def)
  qed
qed

theorem is_urc_table_witness:
  "fst (is_urc ''RDY.'' (sample_sim 0 [])) \<and> \<not> fst (is_urc ''*PSNWID: 1'' (sample_sim 0 []))"
  using is_urc_table [of "''RDY.''" "sample_sim 0 []" "'' 1''"] by (simp add: urc_messages_def)

lemma readline_avail_length:
  "readline_avail mx buf s = (d, b, s') \<Longrightarrow> length buf \<le> mx \<Longrightarrow> length b \<le> mx"
proof (induction mx buf s arbitrary: d b s' rule: readline_avail.induct)
  case (1 mx buf s)
  obtain r s1 where r: "stream_read s = (r, s1)" by fastforce
  show ?case
  proof (cases r)
    case None
    then show ?thesis using r "1.prems" by (subst (asm) readline_avail.simps) simp
  next
    case (Some c)
    note IH = "1.IH" [OF r [symmetric] Some]
    show ?thesis using "1.prems" Some r IH by (subst (asm) readline_avail.simps) (auto split: if_splits)
  qed
qed

lemma readline_loop_length:
  "length buf \<le> mx \<Longrightarrow> length (fst (readline_loop mx tmo buf s)) \<le> mx"
proof (induction mx tmo buf s rule: readline_loop.induct)
  case (1 mx tmo buf s)
  obtain d b s1 where r: "readline_avail mx buf s = (d, b, s1)" by (metis prod_cases3)
  have "length b \<le> mx" using readline_avail_length [OF r] "1.prems" .
  then show ?case using r "1.IH" "1.prems"
    by (subst readline_loop.simps) (auto split: bool.splits)
qed


end
