(* ===== verification/Sim800Cmd.thy ===== *)
theory Sim800Cmd
  imports Sim800
begin

text \<open>
  The commands of the modem driver (\<open>src/main/sim800.cpp\<close>): power, registration, GPRS, identity,
  HTTP, TCP and FTP. The functions of the flashing interface (\<open>esp_ota_*\<close>), which are not part of
  the sources, are arguments.
\<close>

section \<open>Power\<close>

definition status_description :: "u16 \<Rightarrow> string" where
  "status_description status =
     (if status = 200 then ''OK''
      else if status = 404 then ''PAGE NOT FOUND''
      else if status = 600 then ''Not HTTP PDU''
      else if status = 601 then ''Network Error''
      else if status = 602 then ''No memory''
      else if status = 603 then ''DNS Error''
      else if status = 604 then ''Stack Busy''
      else ''UNKNOWN'')"

definition sim_begin :: "'a sim800_scheme \<Rightarrow> 'a sim800_scheme" where
  "sim_begin s =
     (if serial_worked s then s
      else (pin (Pin_mode SIM800_PS ''INPUT'') (pin (Pin_mode SIM800_KEY ''OUTPUT'') s))\<lparr>serial_worked := True\<rparr>)"

definition sim_reset :: "bool \<Rightarrow> 'a sim800_scheme \<Rightarrow> bool \<times> 'a sim800_scheme" where
  "sim_reset flag_reboot s =
     (let s = (if flag_reboot then task_delay 5000 (snd (expect_AT_OK ''+CFUN=1,1'' 5000 s)) else s);
          (ok, s) = expect_AT_OK [] 5000 s;
          s = (if ok then s else snd (expect_AT_OK [] 5000 s));
          s = task_delay 1000 (println_text ''ATZ'' s);
          (ok, s) = expect_OK 5000 s;
          s = task_delay 1000 (println_text ''ATE0'' s);
          (ok, s) = expect_OK 5000 s;
          (ok, s) = (if ok then (ok, s) else expect_OK 5000 (task_delay 1000 (println_text ''ATE0'' s)));
          (ok, s) = expect_AT_OK ''+CFUN=1'' 5000 s;
          s = (if ok then s else snd (expect_AT_OK ''+CFUN=1'' 5000 s))
      in (ok, s))"

text \<open>Switching on while the status pin is low: eleven tries at most.\<close>

function (sequential) power_on_loop :: "nat \<Rightarrow> 'a sim800_scheme \<Rightarrow> 'a sim800_scheme" where
  "power_on_loop trying s =
     (let s = task_delay 3000 (pin (Pin_write SIM800_KEY True) s);
          trying = trying + 1
      in if trying > 10 then s
         else if \<not> ps_high s then power_on_loop trying s else s)"
  by pat_completeness auto
termination
  by (relation "measure (\<lambda>(n, s). 11 - n)") auto

declare power_on_loop.simps [simp del]

text \<open>Switching off and on until the status pin is low.\<close>

partial_function (option) power_cycle_loop :: "'a sim800_scheme \<Rightarrow> 'a sim800_scheme option" where
  "power_cycle_loop s =
     (let s = task_delay 1100 (pin (Pin_write 21 False) s);
          s = task_delay 1100 (pin (Pin_write 21 True) s);
          s = task_delay 100 (pin (Pin_write 21 True) s)
      in if ps_high s then power_cycle_loop s else Some s)"

declare power_cycle_loop.simps [code]

definition wakeup :: "'a sim800_scheme \<Rightarrow> (bool \<times> 'a sim800_scheme) option" where
  "wakeup s =
     (let (ok, s) = expect_AT_OK [] 100 s
      in if ok then Some (True, s)
         else
           (let (ok, s) = expect_AT_OK [] 100 s
            in do {
                 s \<leftarrow> (if ok then Some s
                      else do {
                        s \<leftarrow> (if \<not> ps_high s
                             then Some (power_on_loop 0
                               (pin (Pin_write SIM800_POWER False) (pin (Pin_mode SIM800_POWER ''OUTPUT'') s)))
                             else power_cycle_loop s);
                        Some (pin (Pin_mode SIM800_KEY ''INPUT_PULLUP'') s)
                      });
                 Some (sim_reset False s)
               }))"

definition shutdown :: "bool \<Rightarrow> 'a sim800_scheme \<Rightarrow> bool \<times> 'a sim800_scheme" where
  "shutdown hard s =
     (if hard then
        (True, task_delay 5000 (pin (Pin_write SIM800_POWER True) (pin (Pin_mode SIM800_POWER ''OUTPUT'') s)))
      else
        (let (reboot, s) = expect_AT_OK ''+CFUN=1,1'' 5000 s
         in if reboot then (True, task_delay 5000 s)
            else if ps_high s then
              (True, pin (Pin_write SIM800_KEY True) (task_delay 1100 (pin (Pin_write SIM800_KEY True)
                 (task_delay 1100 (pin (Pin_write SIM800_KEY False) (pin (Pin_mode SIM800_KEY ''OUTPUT'') s))))))
            else (True, s)))"

section \<open>Identity and state\<close>

definition setAPN :: "string option \<Rightarrow> string option \<Rightarrow> string option \<Rightarrow> 'a sim800_scheme \<Rightarrow> 'a sim800_scheme" where
  "setAPN apn user pass s = s\<lparr>s_apn := apn, s_user := user, s_pass := pass\<rparr>"

text \<open>\<open>print\<close> of a null pointer prints nothing.\<close>

definition print_opt :: "string option \<Rightarrow> 'a world_scheme \<Rightarrow> 'a world_scheme" where
  "print_opt t s = print_text (case t of None \<Rightarrow> [] | Some t \<Rightarrow> t) s"

definition unlock :: "string \<Rightarrow> 'a sim800_scheme \<Rightarrow> bool \<times> 'a sim800_scheme" where
  "unlock code s = expect_OK 5000 (println_text code (print_text ''AT+CPIN='' s))"

definition get_time :: "'a sim800_scheme \<Rightarrow> bool \<times> scanned list \<times> 'a sim800_scheme" where
  "get_time s = expect_scan 3 (''+CCLK: '' @ [CHR 0x22] @ ''%8s,%8s%3s'' @ [CHR 0x22]) 5000 (println_text ''AT+CCLK?'' s)"

text \<open>The last component is what the caller's buffer holds afterwards.\<close>

definition IMEI :: "string \<Rightarrow> 'a sim800_scheme \<Rightarrow> bool \<times> string \<times> 'a sim800_scheme" where
  "IMEI imei s =
     (let (_, vs, s) = expect_scan 1 ''%s'' 5000 (println_text ''AT+GSN'' s);
          (ok, s) = expect_OK 5000 s
      in (ok, str_at vs 0 imei, s))"

definition CIMI :: "string \<Rightarrow> 'a sim800_scheme \<Rightarrow> bool \<times> string \<times> 'a sim800_scheme" where
  "CIMI cimi s =
     (let (_, vs, s) = expect_scan 1 ''%s'' 5000 (println_text ''AT+CIMI'' s);
          (ok, s) = expect_OK 5000 s
      in (ok, str_at vs 0 cimi, s))"

text \<open>The three variables have 16 bits: the low half of what is scanned is theirs.\<close>

definition battery :: "u16 \<times> u16 \<times> u16 \<Rightarrow> 'a sim800_scheme \<Rightarrow> bool \<times> (u16 \<times> u16 \<times> u16) \<times> 'a sim800_scheme" where
  "battery old s =
     (let (bs, bp, bv) = old;
          (_, vs, s) = expect_scan 3 ''+CBC: %d,%d,%d'' 5000 (println_text ''AT+CBC'' s);
          (ok, s) = expect_OK 5000 s
      in (ok, (of_int (num_at vs 0 (uint bs)), of_int (num_at vs 1 (uint bp)), of_int (num_at vs 2 (uint bv))), s))"

text \<open>\<open>strtok\<close> with a comma: the non-empty pieces.\<close>

fun strtok_all :: "string \<Rightarrow> string \<Rightarrow> string list" where
  "strtok_all acc [] = (if acc = [] then [] else [acc])"
| "strtok_all acc (c # s) =
     (if c = CHR '','' then (if acc = [] then strtok_all [] s else acc # strtok_all [] s)
      else strtok_all (acc @ [c]) s)"

text \<open>\<open>strdup\<close> of a null pointer does not return, nor does a text that leaves the buffer of 64 bytes.
  \<open>loc0\<close> is the status before the call.\<close>

definition location ::
    "int \<Rightarrow> string \<times> string \<times> string \<times> string \<Rightarrow> 'a sim800_scheme \<Rightarrow>
     (bool \<times> (string \<times> string \<times> string \<times> string) \<times> 'a sim800_scheme) option" where
  "location loc0 old s =
     (let s = task_delay 3000 (println_text ''AT+CIPGSMLOC=1,1'' s);
          (found, vs, s) = expect_scan 2 ''+CIPGSMLOC: %d,%s'' 10000 s;
          loc_status = (of_int (num_at vs 0 loc0) :: u16)
      in do {
           fields \<leftarrow> (if length (str_at vs 1 []) \<ge> 64 then None
                     else if \<not> found then Some old
                     else (case strtok_all [] (str_at vs 1 []) of
                             lon # lat # date # tm # _ \<Rightarrow> Some (lat, lon, date, tm)
                           | _ \<Rightarrow> None));
           (case expect_OK 5000 s of (ok, s) \<Rightarrow> Some (ok \<and> loc_status = 0, fields, s))
         })"

section \<open>Registration\<close>

partial_function (option) registerNetwork_loop :: "u16 \<Rightarrow> 'a sim800_scheme \<Rightarrow> (bool \<times> 'a sim800_scheme) option" where
  "registerNetwork_loop timeout s =
     (if timeout - 1000 = 0 then Some (False, s)
      else
        (let (_, vs, s) = expect_scan 1 ''+CREG: 0,%hu'' 5000 (println_text ''AT+CREG?'' s);
             n = num_at vs 0 0
         in if n = 1 \<or> n = 5 then Some (True, s)
            else registerNetwork_loop (timeout - 1000) (task_delay 1000 s)))"

declare registerNetwork_loop.simps [code]

definition registerNetwork :: "u16 \<Rightarrow> 'a sim800_scheme \<Rightarrow> (bool \<times> 'a sim800_scheme) option" where
  "registerNetwork timeout s = registerNetwork_loop timeout (snd (expect_AT_OK [] 5000 s))"

section \<open>GPRS\<close>

text \<open>The timeout is a \<open>uint16_t\<close>: it counts down by 1000 until it is 0.\<close>

partial_function (option) attach_loop :: "bool \<Rightarrow> u16 \<Rightarrow> 'a sim800_scheme \<Rightarrow> (bool \<times> u16 \<times> 'a sim800_scheme) option" where
  "attach_loop attached timeout s =
     (if attached \<or> \<not> timeout > 0 then Some (attached, timeout, s)
      else
        (let (attached, s) = expect_AT_OK ''+CGATT=1'' 10000 s
         in attach_loop attached (timeout - 1000) (task_delay 1000 s)))"

declare attach_loop.simps [code]

function (sequential) attached_loop :: "u16 \<Rightarrow> 'a sim800_scheme \<Rightarrow> bool \<times> 'a sim800_scheme" where
  "attached_loop timeout s =
     (let (attached, s) = expect ''+CGATT: 1'' 5000 (println_text ''AT+CGATT?'' s);
          s = task_delay 1000 s;
          timeout = timeout - 1
      in if timeout \<noteq> 0 \<and> \<not> attached then attached_loop timeout s else (attached, s))"
  by pat_completeness auto
termination
  by (relation "measure (\<lambda>(t, s). unat (t - 1))") (auto intro: countdown)

declare attached_loop.simps [simp del]

text \<open>One parameter of the bearer profile; a null pointer skips it.\<close>

definition bearer_param :: "string \<Rightarrow> string option \<Rightarrow> 'a sim800_scheme \<Rightarrow> bool \<times> 'a sim800_scheme" where
  "bearer_param name v s =
     (case v of
        None \<Rightarrow> (True, s)
      | Some t \<Rightarrow> expect_OK 5000 (println_text [CHR 0x22] (print_text t
          (print_text (''AT+SAPBR=3,1,'' @ [CHR 0x22] @ name @ [CHR 0x22, CHR '','', CHR 0x22]) s))))"

definition bearer_profile :: "'a sim800_scheme \<Rightarrow> bool \<times> 'a sim800_scheme" where
  "bearer_profile s =
     (if s_apn s = None then (True, s)
      else
        (let (ok, s) = bearer_param ''APN'' (s_apn s) s
         in if \<not> ok then (False, s)
            else (let (ok, s) = bearer_param ''USER'' (s_user s) s
                  in if \<not> ok then (False, s) else bearer_param ''PWD'' (s_pass s) s)))"

definition enableGPRS :: "u16 \<Rightarrow> 'a sim800_scheme \<Rightarrow> (bool \<times> 'a sim800_scheme) option" where
  "enableGPRS timeout s =
     (let s = snd (expect_AT ''+CIPSHUT'' ''SHUT OK'' 5000 s);
          s = snd (expect_AT_OK ''+CIPMUX=1'' 5000 s);
          s = snd (expect_AT_OK ''+CIPRXGET=1'' 5000 s)
      in do {
           (attached, timeout, s) \<leftarrow> attach_loop False timeout s;
           if \<not> attached then Some (False, s)
           else
             (let (ok, s) = expect_AT_OK (''+SAPBR=3,1,'' @ [CHR 0x22] @ ''CONTYPE'' @ [CHR 0x22, CHR '','', CHR 0x22] @
                  ''GPRS'' @ [CHR 0x22]) 10000 s
              in if \<not> ok then Some (False, s)
                 else
                   (let (ok, s) = bearer_profile s
                    in if \<not> ok then Some (False, s)
                       else
                         (let s = snd (expect_AT_OK ''+SAPBR=1,1'' 30000 s);
                              s = println_text [CHR 0x22] (print_opt (s_apn s)
                                    (print_text (''+CGDCONT=1,'' @ [CHR 0x22] @ ''IP'' @ [CHR 0x22, CHR '','', CHR 0x22]) s));
                              (ok, s) = expect_OK 5000 s
                          in if \<not> ok then Some (False, s) else Some (attached_loop timeout s))))
         })"

definition disableGPRS :: "'a sim800_scheme \<Rightarrow> bool \<times> 'a sim800_scheme" where
  "disableGPRS s =
     (let s = snd (expect_AT ''+CIPSHUT'' ''SHUT OK'' 5000 s);
          (ok, s) = expect_AT_OK ''+SAPBR=0,1'' 30000 s
      in if \<not> ok then (False, s) else expect_AT_OK ''+CGATT=0'' 5000 s)"

section \<open>HTTP\<close>

definition http_url :: string where
  "http_url = ''AT+HTTPPARA='' @ [CHR 0x22] @ ''URL'' @ [CHR 0x22]"

definition http_cid :: string where
  "http_cid = ''+HTTPPARA='' @ [CHR 0x22] @ ''CID'' @ [CHR 0x22] @ '',1''"

definition http_content :: string where
  "http_content = ''+HTTPPARA='' @ [CHR 0x22] @ ''CONTENT'' @ [CHR 0x22, CHR '','', CHR 0x22] @
     ''application/x-www-form-urlencoded'' @ [CHR 0x22]"

text \<open>The status variable has no initial value: \<open>junk\<close> is what it holds.\<close>

definition http_action_status :: "scanned list \<Rightarrow> u16 \<Rightarrow> u16" where
  "http_action_status vs junk = of_int (num_at vs 0 (uint junk))"

definition HTTP_get :: "string \<Rightarrow> u16 \<Rightarrow> 'a sim800_scheme \<Rightarrow> u16 \<times> 'a sim800_scheme" where
  "HTTP_get url junk s =
     (let s = task_delay 100 (snd (expect_AT_OK ''+HTTPTERM'' 5000 s));
          (ok, s) = expect_AT_OK ''+HTTPINIT'' 5000 s
      in if \<not> ok then (1000, s) else
      (let (ok, s) = expect_AT_OK http_cid 5000 s
       in if \<not> ok then (1101, s) else
       (let (ok, s) = expect_OK 5000 (println_param http_url url s)
        in if \<not> ok then (1110, s) else
        (let (ok, s) = expect_AT_OK ''+HTTPACTION=0'' 5000 s
         in if \<not> ok then (1004, s) else
         (let (_, vs, s) = expect_scan 2 ''+HTTPACTION: 0,%hu,%lu'' 60000 s
          in (http_action_status vs junk, s))))))"

definition sim_read :: "nat \<Rightarrow> 'a sim800_scheme \<Rightarrow> string \<times> 'a sim800_scheme" where
  "sim_read n s = readBytes SIM800_SERIAL_TIMEOUT n s"

text \<open>The result, the bytes stored in the buffer, the state.\<close>

definition HTTP_read :: "nat \<Rightarrow> u32 \<Rightarrow> 'a sim800_scheme \<Rightarrow> u32 \<times> string \<times> 'a sim800_scheme" where
  "HTTP_read len junk s =
     (let (_, vs, s) = expect_scan 1 ''+HTTPREAD: %lu'' 5000 (println_text ''AT+HTTPREAD'' s);
          available = num_at vs 0 (uint junk)
      in if available > CRITICAL_BUFFER_HTTPREAD then (- 1, [], s)
         else
           (let (data, s) = sim_read (if available \<le> int len then nat available else len) s;
                (ok, s) = expect_OK 5000 s
            in if \<not> ok then (0, data, s) else (of_nat (length data), data, s)))"

definition HTTP_post_empty :: "string \<Rightarrow> u16 \<Rightarrow> 'a sim800_scheme \<Rightarrow> u16 \<times> 'a sim800_scheme" where
  "HTTP_post_empty url junk s =
     (let s = task_delay 100 (snd (expect_AT_OK ''+HTTPTERM'' 5000 s));
          (ok, s) = expect_AT_OK ''+HTTPINIT'' 5000 s
      in if \<not> ok then (1000, s) else
      (let (ok, s) = expect_AT_OK http_cid 5000 s
       in if \<not> ok then (1101, s) else
       (let (ok, s) = expect_OK 5000 (println_param http_url url s)
        in if \<not> ok then (1110, s) else
        (let (ok, s) = expect_AT_OK ''+HTTPACTION=1'' 5000 s
         in if \<not> ok then (1001, s) else
         (let (_, vs, s) = expect_scan 2 ''+HTTPACTION: 0,%hu,%lu'' 60000 s
          in (http_action_status vs junk, s))))))"

text \<open>Waiting for the end of the action, five seconds at a time, without a limit.\<close>

partial_function (option) action_loop :: "'a sim800_scheme \<Rightarrow> (scanned list \<times> 'a sim800_scheme) option" where
  "action_loop s =
     (let (ok, vs, s) = expect_scan 2 ''+HTTPACTION: 1,%hu,%lu'' 5000 s
      in if ok then Some (vs, s) else action_loop s)"

declare action_loop.simps [code]

definition post_data_header :: "u32 \<Rightarrow> u32 \<Rightarrow> 'a sim800_scheme \<Rightarrow> 'a sim800_scheme" where
  "post_data_header sz tmo s =
     println_u32 tmo (print_text '','' (print_u32 sz (print_text ''AT+HTTPDATA='' s)))"

text \<open>What follows the transfer of the data.\<close>

definition post_action :: "'a sim800_scheme \<Rightarrow> (u16 \<times> 'a sim800_scheme) option" where
  "post_action s =
     (let (ok, s) = expect_OK 5000 s
      in if \<not> ok then Some (1005, s) else
      (let (ok, s) = expect_AT_OK ''+HTTPACTION=1'' 5000 s
       in if \<not> ok then Some (1004, s) else
       do { (vs, s) \<leftarrow> action_loop s; Some (http_action_status vs 0, s) }))"

text \<open>\<open>buffer\<close> holds at least \<open>size\<close> bytes.\<close>

definition HTTP_post :: "string \<Rightarrow> string \<Rightarrow> u32 \<Rightarrow> 'a sim800_scheme \<Rightarrow> (u16 \<times> 'a sim800_scheme) option" where
  "HTTP_post url buffer sz s =
     (let s = task_delay 100 (snd (expect_AT_OK ''+HTTPTERM'' 5000 s));
          (ok, s) = expect_AT_OK ''+HTTPINIT'' 5000 s
      in if \<not> ok then Some (1000, s) else
      (let (ok, s) = expect_AT_OK http_cid 5000 s
       in if \<not> ok then Some (1101, s) else
       (let (ok, s) = expect_AT_OK http_content 5000 s
        in if \<not> ok then Some (1102, s) else
        (let (ok, s) = expect_OK 5000 (println_param http_url url s)
         in if \<not> ok then Some (1110, s) else
         (let (ok, s) = expect ''DOWNLOAD'' 5000 (post_data_header sz 3000 s)
          in if \<not> ok then Some (0, s)
             else post_action (stream_print (take (unat sz) buffer) s))))))"

text \<open>The body of the request comes from a stream, in portions of the size of the buffer.\<close>

function (sequential) post_stream :: "string \<Rightarrow> 'a sim800_scheme \<Rightarrow> 'a sim800_scheme" where
  "post_stream file s =
     (let s = stream_print (take SIM800_BUFSIZE file) s
      in if length (take SIM800_BUFSIZE file) < SIM800_BUFSIZE then s
         else post_stream (drop SIM800_BUFSIZE file) s)"
  by pat_completeness auto
termination
  by (relation "measure (\<lambda>(f, s). length f)") (auto simp: SIM800_BUFSIZE_def)

declare post_stream.simps [simp del]

definition HTTP_post_stream :: "string \<Rightarrow> string \<Rightarrow> u32 \<Rightarrow> 'a sim800_scheme \<Rightarrow> (u16 \<times> 'a sim800_scheme) option" where
  "HTTP_post_stream url file sz s =
     (let s = task_delay 100 (snd (expect_AT_OK ''+HTTPTERM'' 5000 s));
          (ok, s) = expect_AT_OK ''+HTTPINIT'' 5000 s
      in if \<not> ok then Some (1000, s) else
      (let (ok, s) = expect_AT_OK http_cid 5000 s
       in if \<not> ok then Some (1101, s) else
       (let (ok, s) = expect_OK 5000 (println_param http_url url s)
        in if \<not> ok then Some (1110, s) else
        (let (ok, s) = expect ''DOWNLOAD'' 5000 (post_data_header sz 120000 s)
         in if \<not> ok then Some (0, s) else post_action (post_stream file s)))))"

end
