(* ===== verification/Sim800Net.thy ===== *)
theory Sim800Net
  imports Sim800Cmd
begin

text \<open>
  The rest of the modem driver (\<open>src/main/sim800.cpp\<close>): TCP connections, downloads into the flash,
  the initialisation and FTP. The flashing interface \<open>esp_ota_*\<close> is outside the sources: a write is
  recorded in a list of handle and data, and whether it succeeds is an argument. A call that does
  not return to its caller (a restart, an access outside a buffer, an endless loop) is \<open>None\<close>.
\<close>

section \<open>Downloads\<close>

text \<open>\<open>HTTP_get\<close> into a stream. \<open>len\<close> is the value that the pointer leads to: \<open>HTTP_get\<close> passes the
  address of the pointer to \<open>sscanf\<close>, so the value does not change.\<close>

partial_function (option) get_stream_loop ::
    "(nat \<Rightarrow> u32) \<Rightarrow> u32 \<Rightarrow> nat \<Rightarrow> u32 \<Rightarrow> string \<Rightarrow> 'a sim800_scheme \<Rightarrow> (string \<times> 'a sim800_scheme) option" where
  "get_stream_loop junk len k pos file s =
     (let (r, data, s) = HTTP_read SIM800_BUFSIZE (junk k) s;
          pos = pos + r
      in if unat r > SIM800_BUFSIZE then None
         else (let file = file @ take (unat r) data
               in if pos < len then get_stream_loop junk len (k + 1) pos file s else Some (file, s)))"

declare get_stream_loop.simps [code]

definition HTTP_get_stream ::
    "string \<Rightarrow> u32 option \<Rightarrow> u16 \<Rightarrow> (nat \<Rightarrow> u32) \<Rightarrow> 'a sim800_scheme \<Rightarrow> (u16 \<times> string \<times> 'a sim800_scheme) option" where
  "HTTP_get_stream url len junk_status junk s =
     (let (status, s) = HTTP_get url junk_status s
      in case len of
           None \<Rightarrow> Some (status, [], s)
         | Some n \<Rightarrow> do { (file, s) \<leftarrow> get_stream_loop junk n 0 0 [] s; Some (status, file, s) })"

text \<open>
  \<open>read_ota\<close>: bytes that have arrived go into a buffer that is written whole when its last but one
  cell is filled. \<open>ota_write\<close> gives the error code of the writes made so far (0 is \<open>ESP_OK\<close>). The
  header declares the parameters as (handle, length), the definition names them (length, handle);
  both are 32-bit unsigned numbers, so that the caller's handle arrives as the length.
\<close>

type_synonym ota_log = "(u32 \<times> string) list"

function (sequential) read_ota_loop ::
    "(ota_log \<Rightarrow> int) \<Rightarrow> u32 \<Rightarrow> nat \<Rightarrow> string \<Rightarrow> ota_log \<Rightarrow> 'a sim800_scheme \<Rightarrow> nat \<times> ota_log \<times> 'a sim800_scheme" where
  "read_ota_loop ota_write handle 0 buffer log s = (length buffer, log, s)"
| "read_ota_loop ota_write handle (Suc len) buffer log s =
     (case stream_read s of
        (None, s) \<Rightarrow> (length buffer, log, s)
      | (Some c, s) \<Rightarrow>
          (let buffer = buffer @ [c]
           in if length buffer = GSM_MAX_BUFFSIZE - 1 then
                (let log = log @ [(handle, buffer @ [CHR 0x00])]
                 in if ota_write log \<noteq> 0 then (0, log, s)
                    else read_ota_loop ota_write handle len [] log s)
              else read_ota_loop ota_write handle len buffer log s))"
  by pat_completeness auto
termination
  by (relation "measure (\<lambda>(w, h, n, b, l, s). n)") auto

definition read_ota ::
    "(ota_log \<Rightarrow> int) \<Rightarrow> u32 \<Rightarrow> u32 \<Rightarrow> ota_log \<Rightarrow> 'a sim800_scheme \<Rightarrow> nat \<times> ota_log \<times> 'a sim800_scheme" where
  "read_ota ota_write len handle log s = read_ota_loop ota_write handle (unat len) [] log s"

definition HTTP_read_ota ::
    "(ota_log \<Rightarrow> int) \<Rightarrow> u32 \<Rightarrow> u32 \<Rightarrow> u32 \<Rightarrow> ota_log \<Rightarrow> 'a sim800_scheme \<Rightarrow> u32 \<times> ota_log \<times> 'a sim800_scheme" where
  "HTTP_read_ota ota_write ota_handle len junk log s =
     (let (_, vs, s) = expect_scan 1 ''+HTTPREAD: %lu'' 5000 (println_text ''AT+HTTPREAD'' s);
          available = num_at vs 0 (uint junk)
      in if available > CRITICAL_BUFFER_HTTPREAD then (- 1, log, s)
         else
           (let (idx, log, s) = read_ota ota_write ota_handle (if available \<le> uint len then of_int available else len) log s;
                (ok, s) = expect_OK 5000 s
            in if \<not> ok then (0, log, s) else (of_nat idx, log, s)))"

section \<open>TCP\<close>

text \<open>The text of a number in base ten, as \<open>String(int)\<close> makes it.\<close>

definition String_int :: "int \<Rightarrow> string" where
  "String_int n = (if n < 0 then CHR ''-'' # print_number (nat (- n)) 10 else print_number (nat n) 10)"

text \<open>Asking for the address until it is not \<open>ERROR\<close>. The buffer of the address has no initial
  value: \<open>junk\<close> gives what it holds in each turn.\<close>

function (sequential) address_loop ::
    "(u16 \<Rightarrow> string) \<Rightarrow> u16 \<Rightarrow> 'a sim800_scheme \<Rightarrow> bool \<times> u16 \<times> 'a sim800_scheme" where
  "address_loop junk timeout s =
     (let (_, vs, s) = expect_scan 1 ''%s'' 5000 (println_text ''AT+CIFSR'' s);
          connected = (str_at vs 0 (junk timeout) \<noteq> ''ERROR'')
      in if timeout \<noteq> 0 \<and> \<not> connected then address_loop junk (timeout - 1) s
         else (connected, timeout - 1, s))"
  by pat_completeness auto
termination
  by (relation "measure (\<lambda>(j, t, s). unat t)") (auto intro: measure_unat)

declare address_loop.simps [simp del]

definition cstt :: "'a sim800_scheme \<Rightarrow> 'a sim800_scheme" where
  "cstt s = println_text [CHR 0x22] (print_opt (s_apn s) (print_text (''AT+CSTT='' @ [CHR 0x22]) s))"

definition cipstart :: "int \<Rightarrow> string \<Rightarrow> u16 \<Rightarrow> string" where
  "cipstart connection address port =
     ''AT+CIPSTART='' @ String_int connection @ '','' @ [CHR 0x22] @ ''TCP'' @ [CHR 0x22, CHR '','', CHR 0x22] @
     address @ [CHR 0x22, CHR '',''] @ String_int (uint port)"

definition dns_servers :: string where
  "dns_servers = ''+CDNSCFG='' @ [CHR 0x22] @ ''8.8.8.8'' @ [CHR 0x22, CHR '','', CHR 0x22] @ ''8.8.4.4'' @ [CHR 0x22]"

definition sim_connect ::
    "string \<Rightarrow> u16 \<Rightarrow> u16 \<Rightarrow> int \<Rightarrow> (u16 \<Rightarrow> string) \<Rightarrow> 'a sim800_scheme \<Rightarrow> bool \<times> 'a sim800_scheme" where
  "sim_connect address port timeout connection junk s =
     (let (ok, s) = expect_AT ''+CIPSHUT'' ''SHUT OK'' 5000 s in if \<not> ok then (False, s) else
     (let (ok, s) = expect_AT_OK ''+CMEE=2'' 5000 s in if \<not> ok then (False, s) else
     (let (ok, s) = expect_AT_OK ''+CIPMUX=1'' 5000 s in if \<not> ok then (False, s) else
     (let (ok, s) = expect_AT_OK ''+CIPQSEND=1'' 5000 s in if \<not> ok then (False, s) else
     (let (ok, s) = expect_AT_OK ''+CIPRXGET=1'' 5000 s in if \<not> ok then (False, s) else
     (let (ok, s) = expect_OK 5000 (cstt s) in if \<not> ok then (False, s) else
     (let (ok, s) = expect_AT_OK ''+CIICR'' 5000 s in if \<not> ok then (False, s) else
     (let (connected, timeout, s) = address_loop junk timeout s in if \<not> connected then (False, s) else
     (let (ok, s) = expect_AT_OK dns_servers 5000 s in if \<not> ok then (False, s) else
     (let (ok, s) = expect_AT_OK ''+CIPSSL=0'' 5000 s in if \<not> ok then (False, s) else
     (let s = task_delay 5000 (println_text (cipstart connection address port) s);
          (ok, s) = expect_OK timeout s in if \<not> ok then (False, s) else
     (let (ok, s) = expect (String_int connection @ '', CONNECT OK'') timeout s in (ok, s)))))))))))))"

definition sim_status :: "string \<Rightarrow> int \<Rightarrow> 'a sim800_scheme \<Rightarrow> bool \<times> 'a sim800_scheme" where
  "sim_status expected connection s =
     expect expected 5000 (println_text (''AT+CIPSTATUS='' @ String_int connection) s)"

definition sim_disconnect :: "int \<Rightarrow> 'a sim800_scheme \<Rightarrow> bool \<times> 'a sim800_scheme" where
  "sim_disconnect connection s = expect_AT_OK (''+CIPCLOSE='' @ String_int connection) 5000 s"

text \<open>\<open>accepted\<close> is the caller's variable; the result has its value afterwards. \<open>buffer\<close> has at least
  \<open>sz\<close> bytes.\<close>

definition sim_send ::
    "string \<Rightarrow> nat \<Rightarrow> int \<Rightarrow> int \<Rightarrow> 'a sim800_scheme \<Rightarrow> bool \<times> int \<times> 'a sim800_scheme" where
  "sim_send buffer sz accepted connection s =
     (let s = println_text (''AT+CIPSEND='' @ String_int connection @ '','' @ String_int (int sz)) s;
          (ok, s) = expect ''> '' 5000 s
      in if \<not> ok then (False, accepted, s)
         else
           (let s = stream_print (take sz buffer) s;
                (_, vs, s) = expect_scan 1 ''DATA ACCEPT: %*d,%lu'' 3000 s;
                accepted = num_at vs 0 accepted
            in (accepted = int sz, accepted, s)))"

text \<open>The bytes stored in the buffer; their number is the result.\<close>

definition sim_receive :: "nat \<Rightarrow> int \<Rightarrow> 'a sim800_scheme \<Rightarrow> string \<times> 'a sim800_scheme" where
  "sim_receive sz connection s =
     (let (ok, vs, s) = expect_scan 2 ''+CIPRXGET: 2,%*d,%d,%d'' 5000
            (println_text (''AT+CIPRXGET=2,'' @ String_int connection @ '','' @ String_int (int sz)) s)
      in if \<not> ok then ([], s) else sim_read (nat (num_at vs 1 0 mod 2 ^ 32)) s)"

definition get_remain_tcp_data :: "int \<Rightarrow> 'a sim800_scheme \<Rightarrow> u32 \<times> 'a sim800_scheme" where
  "get_remain_tcp_data connection s =
     (let (ok, vs, s) = expect_scan 1 ''+CIPRXGET: 4,%*d,%d'' 5000
            (task_delay 1000 (println_text (''AT+CIPRXGET=4,'' @ String_int connection) s))
      in if \<not> ok then (0, s) else (of_int (num_at vs 0 0), s))"

text \<open>The header block and the field \<open>Content-Length\<close>. \<open>mem\<close> is the memory behind the buffer, which
  is read as a string without a terminator of its own.\<close>

definition get_content_length :: "string \<Rightarrow> int \<Rightarrow> 'a sim800_scheme \<Rightarrow> int \<times> 'a sim800_scheme" where
  "get_content_length mem connection s =
     (let (ok, vs, s) = expect_scan 2 ''+CIPRXGET: 2,%*d,%lu,%lu'' 5000
            (println_text (''AT+CIPRXGET=2,'' @ String_int connection @ '','' @ String_int (int GSM_MAX_BUFFSIZE)) s)
      in if \<not> ok then (0, s)
         else
           (let requested = nat (num_at vs 0 0);
                (data, s) = sim_read requested s;
                a0 = c_str (data @ replicate (requested - length data) CHR 0x00 @ mem);
                a1 = str_substring a0 (c_uint (str_indexOf_str a0 ''Content-Length:'' 0 + 15)) (length a0);
                (_, s) = sim_read (nat (num_at vs 1 0)) s
            in (str_toInt (str_substring a1 0 (c_uint (str_indexOf a1 CHR 0x0D 0))), s)))"

section \<open>Initialisation\<close>

definition check_sim_card :: "'a sim800_scheme \<Rightarrow> bool \<times> 'a sim800_scheme" where
  "check_sim_card s = expect ''+CSMINS: 0,1'' 3000 (println_text ''AT+CSMINS?'' s)"

text \<open>The format has one conversion: the error rate is not read.\<close>

definition get_signal :: "'a sim800_scheme \<Rightarrow> int \<times> 'a sim800_scheme" where
  "get_signal s =
     (let (_, vs, s) = expect_scan 2 ''+CSQ: %2d'' 5000 (task_delay 3000 (println_text ''AT+CSQ'' s))
      in (num_at vs 0 0, s))"

definition operators :: "string list" where
  "operators = [''Bee Line GSM'', ''MTS'', ''MegaFon'', ''TELE2'', ''YOTA'']"

definition apns :: "string list" where
  "apns = [''internet.beeline.ru'', ''internet.mts.ru'', ''internet'', ''internet.tele2.ru'', ''internet.yota'']"

definition users :: "string option list" where
  "users = [Some ''beeline'', Some ''mts'', Some ''gdata'', None, None]"

definition pwds :: "string option list" where
  "pwds = [Some ''beeline'', Some ''mts'', Some ''gdata'', None, None]"

fun operator_index :: "nat \<Rightarrow> string list \<Rightarrow> string \<Rightarrow> nat option" where
  "operator_index i [] name = None"
| "operator_index i (op # ops) name =
     (if c_strstr name op \<noteq> None then Some i else operator_index (i + 1) ops name)"

definition set_operator :: "'a sim800_scheme \<Rightarrow> 'a sim800_scheme" where
  "set_operator s =
     (let (ok, vs, s) = expect_scan 1 ''%s'' 3000 (println_text ''AT+COPS?'' s);
          found = (if ok then operator_index 0 (take 4 operators) (str_at vs 0 []) else None)
      in case found of
           None \<Rightarrow> s
         | Some i \<Rightarrow>
             if i \<noteq> current_operator s
             then setAPN (Some (apns ! i)) (users ! i) (pwds ! i) (s\<lparr>current_operator := i\<rparr>)
             else s)"

partial_function (option) wakeup_loop :: "'a sim800_scheme \<Rightarrow> 'a sim800_scheme option" where
  "wakeup_loop s = do { (ok, s) \<leftarrow> wakeup s; if ok then Some s else wakeup_loop (task_delay 3000 s) }"

declare wakeup_loop.simps [code]

partial_function (option) sim_card_loop :: "'a sim800_scheme \<Rightarrow> 'a sim800_scheme option" where
  "sim_card_loop s = (let (ok, s) = check_sim_card s in if ok then Some s else sim_card_loop (task_delay 60000 s))"

declare sim_card_loop.simps [code]

partial_function (option) signal_loop :: "'a sim800_scheme \<Rightarrow> 'a sim800_scheme option" where
  "signal_loop s =
     (if gsm_rssi s < 1 \<or> gsm_rssi s > 98 then
        (let (rssi, s) = get_signal (task_delay 10000 s) in signal_loop (s\<lparr>gsm_rssi := rssi\<rparr>))
      else Some s)"

declare signal_loop.simps [code]

partial_function (option) register_loop :: "'a sim800_scheme \<Rightarrow> 'a sim800_scheme option" where
  "register_loop s =
     do {
       (ok, s) \<leftarrow> registerNetwork 30000 s;
       if ok then Some s
       else do {
         (_, s) \<leftarrow> wakeup (snd (shutdown False (task_delay 20000 s)));
         register_loop s
       }
     }"

declare register_loop.simps [code]

text \<open>The commands before the checks: their answers are not looked at.\<close>

definition init_commands :: "'a sim800_scheme \<Rightarrow> 'a sim800_scheme" where
  "init_commands s =
     (let s = snd (expect_AT_OK [] 5000 s);
          s = snd (expect_AT_OK ''+IPR?'' 5000 s);
          s = snd (expect_AT_OK ''+IPR=115200'' 5000 s);
          s = snd (expect_AT_OK ''+IPR?'' 5000 s);
          s = snd (expect_AT_OK ''+CSCLK=0'' 5000 s);
          s = snd (expect_AT_OK ''+CNMI=0,0,0,0,0'' 5000 s);
          s = snd (expect_AT_OK ''+GSMBUSY=1'' 5000 s);
          s = snd (expect_AT_OK ''+CBC'' 2000 s)
      in snd (expect_AT_OK ''+CADC?'' 2000 s))"

text \<open>The four parts of the address are 16-bit variables.\<close>

definition init_bearer :: "'a sim800_scheme \<Rightarrow> bool \<times> 'a sim800_scheme" where
  "init_bearer s =
     (let s = snd (expect ''+CGATT: '' 3000 (println_text ''AT+CGATT?'' s));
          s = set_operator s;
          s = snd (expect_OK 5000 (println_text ''AT+SAPBR=1,1'' s));
          s = task_delay 2000 (println_text ''AT+SAPBR=2,1'' s);
          (result, vs, s) = expect_scan 4 (''+SAPBR: 1,1,'' @ [CHR 0x22] @ ''%d.%d.%d.%d'' @ [CHR 0x22]) 5000 s
      in if \<forall>i \<in> set [0..<4]. (of_int (num_at vs i 0) :: u16) = 0
         then expect_OK 5000 (task_delay 2000 (println_text ''AT+SAPBR=2,1'' s))
         else (result, s))"

definition gsm_init :: "'a sim800_scheme \<Rightarrow> (bool \<times> 'a sim800_scheme) option" where
  "gsm_init s =
     do {
       s \<leftarrow> wakeup_loop (sim_begin s);
       s \<leftarrow> (case check_sim_card (init_commands s) of
               (ok, s) \<Rightarrow> if ok then Some s else sim_card_loop (task_delay 3000 s));
       s \<leftarrow> (case get_signal s of (rssi, s) \<Rightarrow> signal_loop (s\<lparr>gsm_rssi := rssi\<rparr>));
       s \<leftarrow> register_loop s;
       Some (init_bearer s)
     }"

section \<open>Updates\<close>

text \<open>
  \<open>update_esp_http\<close>: the blocks received go to the flash until none comes. A block longer than the
  buffer leaves it (\<open>None\<close>). The error code of a write is not looked at.
\<close>

lemma sim_receive_consumed:
  "sim_receive n c s = (data, s') \<Longrightarrow> length (w_in s') + length data \<le> length (w_in s)"
proof -
  assume r: "sim_receive n c s = (data, s')"
  let ?s = "println_text (''AT+CIPRXGET=2,'' @ String_int c @ '','' @ String_int (int n)) s"
  obtain ok vs s1 where e: "expect_scan 2 ''+CIPRXGET: 2,%*d,%d,%d'' 5000 ?s = (ok, vs, s1)"
    by (metis prod_cases3)
  have "length (w_in s1) \<le> length (w_in s)"
    using sim_le_length [OF expect_scan_le [OF e]] sim_le_length [OF println_le(1)] le_trans by blast
  then show ?thesis using r e readBytes_consumed
    by (fastforce simp: sim_receive_def sim_read_def split: if_splits)
qed

function (sequential) update_loop ::
    "u32 \<Rightarrow> string \<Rightarrow> ota_log \<Rightarrow> 'a sim800_scheme \<Rightarrow> (ota_log \<times> 'a sim800_scheme) option" where
  "update_loop handle data log s =
     (if data = [] then Some (log, s)
      else if length data > 1024 then None
      else (case sim_receive 1024 0 s of (data', s) \<Rightarrow> update_loop handle data' (log @ [(handle, data)]) s))"
  by pat_completeness auto
termination
proof (relation "measure (\<lambda>(h, d, l, s). length (w_in s) + length d)", simp)
  fix handle :: u32 and data data' :: string and log :: ota_log and s s' :: "'a sim800_scheme"
  assume "data \<noteq> []" and "(data', s') = sim_receive 1024 0 s"
  then show "((handle, data', log @ [(handle, data)], s'), handle, data, log, s)
      \<in> measure (\<lambda>(h, d, l, s). length (w_in s) + length d)"
    using sim_receive_consumed [of 1024 0 s data' s'] by (cases data) auto
qed

datatype update_end = Returned | Restarted

definition update_esp_http ::
    "string \<Rightarrow> u16 \<Rightarrow> string \<Rightarrow> u32 option \<Rightarrow> (ota_log \<Rightarrow> bool) \<Rightarrow> (ota_log \<Rightarrow> bool) \<Rightarrow> (u16 \<Rightarrow> string) \<Rightarrow> 'a sim800_scheme \<Rightarrow>
     (update_end \<times> ota_log \<times> 'a sim800_scheme) option" where
  "update_esp_http host port url ota_begin ota_end set_boot junk s =
     (let (ok, s) = sim_connect host port 15000 0 junk s
      in if \<not> ok then Some (Returned, [], s)
         else
           (let request = ''GET '' @ url @ ''HTTP/1.1'' @ crlf @ ''Host:'' @ host @ crlf @ ''Connection:keep-alive'';
                (ok, _, s) = sim_send request (length url) 0 0 s
            in if \<not> ok then Some (Returned, [], snd (sim_disconnect 0 s))
               else
                 (case ota_begin of
                    None \<Rightarrow> Some (Returned, [], s)
                  | Some handle \<Rightarrow>
                      do {
                        (log, s) \<leftarrow> (case sim_receive 1024 0 s of (data, s) \<Rightarrow> update_loop handle data [] s);
                        if ota_end log \<and> set_boot log then Some (Restarted, log, s)
                        else Some (Returned, log, snd (sim_disconnect 0 s))
                      })))"

section \<open>FTP\<close>

definition ftp_param :: "string \<Rightarrow> string \<Rightarrow> string" where
  "ftp_param name v = name @ [CHR ''='', CHR 0x22] @ v @ [CHR 0x22]"

definition init_ftp ::
    "string \<Rightarrow> int \<Rightarrow> string \<Rightarrow> string \<Rightarrow> string \<Rightarrow> string \<Rightarrow> 'a sim800_scheme \<Rightarrow> bool \<times> 'a sim800_scheme" where
  "init_ftp host port user password file_name path s =
     (let (ftpcid, s) = expect_AT_OK ''+FTPCID=1'' 1000 s;
          (ftpcid, s) =
            (if ftpcid then (ftpcid, s)
             else (let (quit, s) = expect_AT_OK ''+FTPQUIT'' 1000 s
                   in if quit then expect_AT_OK ''+FTPCID=1'' 1000 (task_delay 5000 s) else (False, s)))
      in if \<not> ftpcid then (False, s) else
     (let (ok, s) = expect_AT_OK (ftp_param ''+FTPSERV'' host) 1000 s in if \<not> ok then (False, s) else
     (let (ok, s) = expect_AT_OK (''+FTPPORT='' @ String_int port) 1000 s in if \<not> ok then (False, s) else
     (let (ok, s) = expect_AT_OK (ftp_param ''+FTPUN'' user) 1000 s in if \<not> ok then (False, s) else
     (let (ok, s) = expect_AT_OK (ftp_param ''+FTPPW'' password) 1000 s in if \<not> ok then (False, s) else
     (let (ok, s) = expect_AT_OK (ftp_param ''+FTPGETNAME'' file_name) 1000 s in if \<not> ok then (False, s) else
      expect_AT_OK (ftp_param ''+FTPGETPATH'' path) 1000 s))))))"

text \<open>
  \<open>update_esp_ftp\<close>: \<open>uart_read\<close> stands for \<open>uart_read_bytes\<close> of the serial driver, \<open>mem\<close> for the
  memory behind the small buffer. The copy of the first block on the memory card and the output of
  the bytes skipped are left out.
\<close>

lemma sim_read_consumed: "sim_read n s = (d, s') \<Longrightarrow> length (w_in s) = length d + length (w_in s')"
  unfolding sim_read_def by (rule readBytes_consumed)

definition ftp_next :: "'a sim800_scheme \<Rightarrow> string \<times> 'a sim800_scheme" where
  "ftp_next s = sim_read GSM_MAX_BUFFSIZE (println_text (''+FTPGET=2,'' @ String_int (int GSM_MAX_BUFFSIZE)) s)"

lemma ftp_next_consumed: "ftp_next s = (d, s') \<Longrightarrow> length d + length (w_in s') \<le> length (w_in s)"
  using sim_read_consumed sim_le_length [OF println_le(1)] unfolding ftp_next_def by metis

function (sequential) ftp_loop ::
    "(ota_log \<Rightarrow> int) \<Rightarrow> u32 \<Rightarrow> string \<Rightarrow> ota_log \<Rightarrow> 'a sim800_scheme \<Rightarrow> ota_log \<times> 'a sim800_scheme" where
  "ftp_loop ota_write handle buf log s =
     (if available s = 0 then (log, s)
      else
        (let log = log @ [(handle, buf)]
         in if ota_write log \<noteq> 0 \<or> length buf < 1024 then (log, s)
            else (case ftp_next s of (buf, s) \<Rightarrow>
              if length buf < 32 then (log, s) else ftp_loop ota_write handle buf log s)))"
  by pat_completeness auto
termination
proof (relation "measure (\<lambda>(w, h, b, l, s). length (w_in s))", simp)
  fix ota_write :: "ota_log \<Rightarrow> int" and handle :: u32 and buf d :: string and log log' :: ota_log
    and s s' :: "'a sim800_scheme"
  assume "(d, s') = ftp_next s" and "\<not> length d < 32"
  then show "((ota_write, handle, d, log', s'), ota_write, handle, buf, log, s) \<in> measure (\<lambda>(w, h, b, l, s). length (w_in s))"
    using ftp_next_consumed [of s d s'] by simp
qed

definition update_esp_ftp ::
    "string \<Rightarrow> u32 option \<Rightarrow> (ota_log \<Rightarrow> int) \<Rightarrow> (ota_log \<Rightarrow> bool) \<Rightarrow> (ota_log \<Rightarrow> bool) \<Rightarrow>
     (nat \<Rightarrow> 'a sim800_scheme \<Rightarrow> string \<times> 'a sim800_scheme) \<Rightarrow> 'a sim800_scheme \<Rightarrow>
     update_end \<times> ota_log \<times> 'a sim800_scheme" where
  "update_esp_ftp mem ota_begin ota_write ota_end set_boot uart_read s =
     (let (_, s) = expect_AT_delay ''+FTPGET=1'' ''+FTPGET: 1,1'' 1000 8000 s;
          (b, s) = sim_read 14 s;
          ret = (c_strstr (c_str (b @ replicate (14 - length b) CHR 0x00 @ mem)) ''+FTPGET: 1,1'' \<noteq> None)
      in if \<not> ret then (Returned, [], snd (expect_AT_OK ''+FTPQUIT'' 1000 s))
         else
           (case ota_begin of
              None \<Rightarrow> (Returned, [], s)
            | Some handle \<Rightarrow>
                (let s = eat_echo (println_text ''AT+FTPGET=2,1024'' s);
                     (_, s) = readBytesUntil SIM800_SERIAL_TIMEOUT CHR 0x0A GSM_MAX_BUFFSIZE s;
                     (_, s) = readBytesUntil SIM800_SERIAL_TIMEOUT CHR 0x0A GSM_MAX_BUFFSIZE s;
                     (buf, s) = uart_read GSM_MAX_BUFFSIZE s;
                     (log, s) = ftp_loop ota_write handle buf [] s
                 in if \<not> ota_end log \<and> set_boot log
                    then (Restarted, log, snd (expect_AT_OK ''+FTPQUIT'' 1000 s))
                    else (Returned, log, snd (expect_AT_OK ''+FTPQUIT'' 1000 s)))))"

end
