(* ===== verification/Sim800Frame.thy ===== *)
theory Sim800Frame
  imports Sim800Cmd
begin

text \<open>
  What a conversation with the modem leaves alone: HTTP requests change the clock, the line and the
  status of the last notice, and nothing else of the state; and the order in which a request writes
  its texts.
\<close>

section \<open>Conversations\<close>

definition converses :: "'a sim800_scheme \<Rightarrow> 'a sim800_scheme \<Rightarrow> bool" where
  "converses s s' \<longleftrightarrow>
     s' = s\<lparr>w_now := w_now s', w_in := w_in s', w_out := w_out s', urc_status := urc_status s'\<rparr>"

named_theorems converses_intros \<open>operations that only converse\<close>

lemma converses_refl [intro, simp]: "converses s s"
  by (simp add: converses_def)

lemma converses_trans [trans]: "converses a b \<Longrightarrow> converses b c \<Longrightarrow> converses a c"
  unfolding converses_def by (cases a; cases b; cases c) simp

lemma converses_frame:
  assumes "converses s s'"
  shows "sim800.more s' = sim800.more s" "gsm_rssi s' = gsm_rssi s" "gsm_ber s' = gsm_ber s" "s_pins s' = s_pins s"
    "s_ps s' = s_ps s" "s_poll s' = s_poll s" "s_apn s' = s_apn s" "serial_worked s' = serial_worked s"
  using assms by (cases s; cases s'; simp add: converses_def)+

lemma sim_reads_converses: "sim_reads s s' \<Longrightarrow> converses s s'"
  unfolding sim_reads_def converses_def by (cases s; cases s') auto

lemma elementary_converses [converses_intros]:
  "converses s (println_text t s)" "converses s (print_text t s)" "converses s (print_u32 n s)" "converses s (println_u32 n s)"
  "converses s (stream_print t s)" "converses s (task_delay ms s)"
  by (simp_all add: converses_def println_text_def println_u32_def print_text_def print_u32_def stream_print_def
      eat_echo_eq task_delay_def delay_def)

lemma println_param_converses [converses_intros]: "converses s (println_param p v s)"
  unfolding println_param_def by (meson elementary_converses converses_trans)

lemma post_data_header_converses [converses_intros]: "converses s (post_data_header sz tmo s)"
  unfolding post_data_header_def by (meson elementary_converses converses_trans)

lemma expect_converses [converses_intros]:
  "converses s (snd (expect e tmo s))" "converses s (snd (expect_OK tmo s))" "converses s (snd (expect_AT_OK cmd tmo s))"
  "converses s (snd (snd (expect_scan k fmt tmo s)))"
proof -
  show e: "converses s (snd (expect e tmo s))" for s :: "'a sim800_scheme" and e tmo
    using expect_reads [of e tmo s] sim_reads_converses by (metis surjective_pairing)
  then show "converses s (snd (expect_OK tmo s))" by (simp add: expect_OK_def)
  show "converses s (snd (expect_AT_OK cmd tmo s))"
    unfolding expect_AT_OK_def expect_AT_def expect_AT_delay_def
    by (meson e elementary_converses converses_trans)
  show "converses s (snd (snd (expect_scan k fmt tmo s)))"
    using expect_scan_reads [of k fmt tmo s] sim_reads_converses by (metis surjective_pairing)
qed

lemma sim_read_converses [converses_intros]: "converses s (snd (sim_read n s))"
  using readBytes_reads_only [of SIM800_SERIAL_TIMEOUT n s] reads_only_sim sim_reads_converses
  unfolding sim_read_def by (metis surjective_pairing)

lemma expect_AT_OK_converses: "expect_AT_OK cmd tmo s = (ok, s') \<Longrightarrow> converses s s'"
  using expect_converses(3) [of s cmd tmo] by simp

lemma expect_OK_converses: "expect_OK tmo s = (ok, s') \<Longrightarrow> converses s s'"
  using expect_converses(2) [of s tmo] by simp

text \<open>The same as rules that follow a chain of operations backwards.\<close>

lemma converses_chain:
  assumes "converses s t"
  shows "converses s (println_text x t)" "converses s (print_text x t)" "converses s (print_u32 n t)"
    "converses s (println_u32 n t)" "converses s (stream_print x t)" "converses s (task_delay ms t)"
    "converses s (println_param p v t)" "converses s (post_data_header sz tm t)" "converses s (snd (expect e tmo t))"
    "converses s (snd (expect_OK tmo t))" "converses s (snd (expect_AT_OK cmd tmo t))"
    "converses s (snd (snd (expect_scan k fmt tmo t)))" "converses s (snd (sim_read j t))"
  by (rule converses_trans [OF assms], rule converses_intros)+

text \<open>Rules for the steps of an operation that passes the state along.\<close>

lemma converses_bind:
  assumes "converses s (snd r)" and "\<And>x t. converses s t \<Longrightarrow> converses s (snd (f x t))"
  shows "converses s (snd (case r of (x, t) \<Rightarrow> f x t))"
  using assms by (simp add: case_prod_beta)

lemma converses_bind3:
  assumes "converses s (snd (snd r))" and "\<And>x y t. converses s t \<Longrightarrow> converses s (snd (f x y t))"
  shows "converses s (snd (case r of (x, y, t) \<Rightarrow> f x y t))"
  using assms by (simp add: case_prod_beta)

lemma converses_if: "converses s (snd a) \<Longrightarrow> converses s (snd b) \<Longrightarrow> converses s (snd (if c then a else b))"
  by simp

lemma converses_end: "converses s t \<Longrightarrow> converses s (snd (x, t))"
  by simp

lemmas converses_rules = converses_bind converses_bind3 converses_if converses_end converses_chain

lemma HTTP_get_converses [converses_intros]: "converses s (snd (HTTP_get url junk s))"
  unfolding HTTP_get_def Let_def split_beta by (auto intro!: converses_chain simp del: One_nat_def)

lemma HTTP_read_converses [converses_intros]: "converses s (snd (snd (HTTP_read n junk s)))"
  unfolding HTTP_read_def Let_def split_beta by (auto intro!: converses_chain simp del: One_nat_def)

text \<open>The wait for the end of an action: every pass either scans the two numbers or reads on.\<close>

lemma action_loop_rule:
  assumes "action_loop s = Some r"
    and hit: "\<And>s vs t. expect_scan 2 ''+HTTPACTION: 1,%hu,%lu'' 5000 s = (True, vs, t) \<Longrightarrow> P s (vs, t)"
    and again: "\<And>s vs t r. expect_scan 2 ''+HTTPACTION: 1,%hu,%lu'' 5000 s = (False, vs, t) \<Longrightarrow> P t r \<Longrightarrow> P s r"
  shows "P s r"
proof (rule action_loop.raw_induct [where P = P, OF _ assms(1)], goal_cases)
  case (1 loop s r)
  obtain ok vs t where e: "expect_scan 2 ''+HTTPACTION: 1,%hu,%lu'' 5000 s = (ok, vs, t)" by (metis prod_cases3)
  then show ?case using "1"(1) [of t r] "1"(2) hit [of s vs t] again [of s vs t r] by (cases ok) auto
qed

lemma expect_scan_converses: "expect_scan n e tmo s = (ok, vs, t) \<Longrightarrow> converses s t"
  using expect_converses(4) [of s n e tmo] by simp

lemma action_loop_converses: "action_loop s = Some (vs, s') \<Longrightarrow> converses s s'"
  by (drule action_loop_rule [where P = "\<lambda>s r. converses s (snd r)"])
    (auto dest: expect_scan_converses intro: converses_trans)

section \<open>Requests\<close>

text \<open>The end of an action: a line that the format matches.\<close>

lemma action_loop_out: "action_loop s = Some (vs, s') \<Longrightarrow> w_out s' = w_out s \<and> length vs = 2"
proof -
  assume "action_loop s = Some (vs, s')"
  then have "w_out (snd (vs, s')) = w_out s \<and> length (fst (vs, s')) = 2"
  proof (rule action_loop_rule [where P = "\<lambda>s r. w_out (snd r) = w_out s \<and> length (fst r) = 2"])
    fix s :: "'a sim800_scheme" and vs t
    assume e: "expect_scan 2 ''+HTTPACTION: 1,%hu,%lu'' 5000 s = (True, vs, t)"
    then show "w_out (snd (vs, t)) = w_out s \<and> length (fst (vs, t)) = 2"
      using sim_reads_out [OF expect_scan_reads [OF e]] by (auto simp: expect_scan_def Let_def split: prod.splits)
  next
    fix s :: "'a sim800_scheme" and vs t and r :: "scanned list \<times> 'a sim800_scheme"
    assume "expect_scan 2 ''+HTTPACTION: 1,%hu,%lu'' 5000 s = (False, vs, t)"
    then show "w_out (snd r) = w_out t \<and> length (fst r) = 2 \<Longrightarrow> w_out (snd r) = w_out s \<and> length (fst r) = 2"
      using sim_reads_out [OF expect_scan_reads] by simp
  qed
  then show ?thesis by simp
qed

text \<open>The texts that a request with a body writes, one after the other.\<close>

definition param_line :: "string \<Rightarrow> string \<Rightarrow> string" where
  "param_line prefix p = prefix @ [CHR '','', CHR 0x22] @ p @ [CHR 0x22] @ crlf"

definition post_steps :: "string \<Rightarrow> string \<Rightarrow> u32 \<Rightarrow> string list" where
  "post_steps url buffer sz =
     [''AT+HTTPTERM'' @ crlf, ''AT+HTTPINIT'' @ crlf, ''AT'' @ http_cid @ crlf, ''AT'' @ http_content @ crlf,
      param_line http_url url, ''AT+HTTPDATA='' @ print_number (unat sz) 10 @ '',3000'' @ crlf,
      take (unat sz) buffer, ''AT+HTTPACTION=1'' @ crlf]"

definition post_errors :: "(nat \<times> u16) list" where
  "post_errors = [(2, 1000), (3, 1101), (4, 1102), (5, 1110), (6, 0), (7, 1005), (8, 1004)]"

lemma w_out_println_param: "w_out (println_param prefix p s) = w_out s @ param_line prefix p"
  by (simp add: println_param_def param_line_def)

lemma print_3000: "print_number (unat (3000 :: u32)) 10 = ''3000''"
  by code_simp

lemma w_out_header:
  "w_out (post_data_header sz 3000 s) = w_out s @ ''AT+HTTPDATA='' @ print_number (unat sz) 10 @ '',3000'' @ crlf"
  using print_3000 by (simp add: post_data_header_def)

lemma expect_out: "expect e tmo s = (ok, s') \<Longrightarrow> w_out s' = w_out s"
  by (drule expect_reads) (rule sim_reads_out)

definition post_end :: "(scanned list \<times> 'a sim800_scheme) option \<Rightarrow> (u16 \<times> 'a sim800_scheme) option" where
  "post_end r = (case r of None \<Rightarrow> None | Some (vs, s) \<Rightarrow> Some (http_action_status vs 0, s))"

definition posted :: "string list \<Rightarrow> nat \<Rightarrow> 'a sim800_scheme \<Rightarrow> 'a sim800_scheme \<Rightarrow> bool" where
  "posted steps k s t \<longleftrightarrow> w_out t = w_out s @ concat (take k steps) \<and> converses s t"

lemma posted_AT_OK:
  assumes "posted steps k s t" and "expect_AT_OK cmd tmo t = (ok, t')" and "k < length steps"
    and "steps ! k = ''AT'' @ cmd @ crlf"
  shows "posted steps (Suc k) s t'"
  using assms expect_AT_OK_out [OF assms(2)] expect_converses(3) [of t cmd tmo] converses_trans
  by (auto simp: posted_def take_Suc_conv_app_nth)

text \<open>A text is written and an answer awaited.\<close>

lemma posted_write:
  assumes "posted steps k s t" and "k < length steps" and "w_out t' = w_out t @ steps ! k" and "converses t t'"
    and "expect e tmo t' = (ok, t'')"
  shows "posted steps (Suc k) s t''"
proof -
  have "converses t' t''" using expect_converses(1) [of t' e tmo] assms(5) by simp
  then have "converses s t''" using assms(1,4) converses_trans unfolding posted_def by metis
  then show ?thesis using assms(1-3) expect_out [OF assms(5)] by (simp add: posted_def take_Suc_conv_app_nth)
qed

text \<open>A request stops at one of the first seven steps, or waits for its end.\<close>

lemma HTTP_post_cases:
  obtains
    (failed) k st s' where "HTTP_post url buffer sz s = Some (st, s')" "(k, st) \<in> set post_errors"
      "w_out s' = w_out s @ concat (take k (post_steps url buffer sz))" "converses s s'"
  | (all_written) s2 where "HTTP_post url buffer sz s = post_end (action_loop s2)"
      "w_out s2 = w_out s @ concat (post_steps url buffer sz)" "converses s s2"
proof -
  let ?st = "post_steps url buffer sz"
  let ?P = "posted ?st"
  obtain ok0 s0 where e0: "expect_AT_OK ''+HTTPTERM'' 5000 s = (ok0, s0)" by fastforce
  obtain ok1 s1 where e1: "expect_AT_OK ''+HTTPINIT'' 5000 (task_delay 100 s0) = (ok1, s1)" by fastforce
  obtain ok2 s2 where e2: "expect_AT_OK http_cid 5000 s1 = (ok2, s2)" by fastforce
  obtain ok3 s3 where e3: "expect_AT_OK http_content 5000 s2 = (ok3, s3)" by fastforce
  obtain ok4 s4 where e4: "expect ''OK'' 5000 (println_param http_url url s3) = (ok4, s4)" by fastforce
  obtain ok5 s5 where e5: "expect ''DOWNLOAD'' 5000 (post_data_header sz 3000 s4) = (ok5, s5)" by fastforce
  obtain ok6 s6 where e6: "expect ''OK'' 5000 (stream_print (take (unat sz) buffer) s5) = (ok6, s6)" by fastforce
  obtain ok7 s7 where e7: "expect_AT_OK ''+HTTPACTION=1'' 5000 s6 = (ok7, s7)" by fastforce
  note e = e0 e1 e2 e3 e4 e5 e6 e7
  have l: "length ?st = 8" by (simp add: post_steps_def)
  have "?P 1 s s0" using posted_AT_OK [OF _ e0, of ?st 0 s] l by (simp add: posted_def post_steps_def)
  then have "?P 1 s (task_delay 100 s0)" using converses_chain(6) by (auto simp: posted_def)
  then have p1: "?P 2 s s1" using posted_AT_OK [OF _ e1, of ?st 1 s] l by (simp add: post_steps_def numeral_2_eq_2)
  then have p2: "?P 3 s s2" using posted_AT_OK [OF _ e2, of ?st 2 s] l by (simp add: post_steps_def)
  then have p3: "?P 4 s s3" using posted_AT_OK [OF _ e3, of ?st 3 s] l by (simp add: post_steps_def)
  then have p4: "?P 5 s s4" using posted_write [OF _ _ _ println_param_converses e4, of ?st 4 s] l
    by (simp add: post_steps_def w_out_println_param)
  then have p5: "?P 6 s s5" using posted_write [OF _ _ _ post_data_header_converses e5, of ?st 5 s] l
    by (simp add: post_steps_def w_out_header)
  then have p6: "?P 7 s s6" using posted_write [OF _ _ _ elementary_converses(5) e6, of ?st 6 s] l
    by (simp add: post_steps_def)
  then have p7: "?P 8 s s7" using posted_AT_OK [OF _ e7, of ?st 7 s] l by (simp add: post_steps_def)
  have all: "take 8 ?st = ?st" using l by simp
  note d = HTTP_post_def post_action_def expect_OK_def
  have stop: thesis if "HTTP_post url buffer sz s = Some (st, t)" and "(k, st) \<in> set post_errors" and "?P k s t" for k st t
    by (rule failed [OF that(1,2)]) (use that(3) in \<open>simp_all add: posted_def\<close>)
  consider "\<not> ok1" | "ok1" "\<not> ok2" | "ok1" "ok2" "\<not> ok3" | "ok1" "ok2" "ok3" "\<not> ok4"
    | "ok1" "ok2" "ok3" "ok4" "\<not> ok5" | "ok1" "ok2" "ok3" "ok4" "ok5" "\<not> ok6"
    | "ok1" "ok2" "ok3" "ok4" "ok5" "ok6" "\<not> ok7" | "ok1" "ok2" "ok3" "ok4" "ok5" "ok6" "ok7" by blast
  then show thesis
  proof cases
    case 1 then show thesis using e by (intro stop [OF _ _ p1, of 1000]) (simp_all add: d post_errors_def)
  next
    case 2 then show thesis using e by (intro stop [OF _ _ p2, of 1101]) (simp_all add: d post_errors_def)
  next
    case 3 then show thesis using e by (intro stop [OF _ _ p3, of 1102]) (simp_all add: d post_errors_def)
  next
    case 4 then show thesis using e by (intro stop [OF _ _ p4, of 1110]) (simp_all add: d post_errors_def)
  next
    case 5 then show thesis using e by (intro stop [OF _ _ p5, of 0]) (simp_all add: d post_errors_def)
  next
    case 6 then show thesis using e by (intro stop [OF _ _ p6, of 1005]) (simp_all add: d post_errors_def)
  next
    case 7 then show thesis using e by (intro stop [OF _ _ p7, of 1004]) (simp_all add: d post_errors_def)
  next
    case 8
    then have "HTTP_post url buffer sz s = post_end (action_loop s7)"
      using e by (simp add: d post_end_def split: option.split)
    then show thesis using p7 unfolding posted_def all by (blast intro: all_written)
  qed
qed

end
