(* ===== verification/Sim800Props.thy ===== *)
theory Sim800Props
  imports Sim800Net Sim800Line Sim800Frame
begin

text \<open>
  Properties of the commands of the modem driver: which of them return, what they write on which
  outcome, and what they make of the documented answers.
\<close>

section \<open>A silent modem\<close>

lemma readline_silent:
  assumes "w_in s = []"
  obtains n where "readline mx tmo s = ([], s\<lparr>w_now := n\<rparr>)" "w_now s \<le> n"
proof -
  have "\<exists>n. readline_loop mx tmo [] s = ([], s\<lparr>w_now := n\<rparr>) \<and> w_now s \<le> n" using assms
  proof (induction mx tmo "[] :: string" s rule: readline_loop.induct)
    case (1 mx tmo s)
    have av: "readline_avail mx [] s = (False, [], s)"
      using "1.prems" by (subst readline_avail.simps) (simp add: stream_read_def)
    show ?case
    proof (cases "tmo - 1 = 0")
      case True
      then have "readline_loop mx tmo [] s = ([], s\<lparr>w_now := w_now s\<rparr>)"
        by (subst readline_loop.simps) simp
      then show ?thesis by blast
    next
      case False
      have "w_in (poll_turn s) = []" using "1.prems" by (simp add: poll_turn_def)
      from "1.hyps" [OF False av [symmetric] refl refl this]
      obtain n where "readline_loop mx (tmo - 1) [] (poll_turn s) = ([], poll_turn s\<lparr>w_now := n\<rparr>)"
        "w_now (poll_turn s) \<le> n" by blast
      then have "readline_loop mx tmo [] s = ([], s\<lparr>w_now := n\<rparr>)" "w_now s \<le> n"
        using False av by (subst readline_loop.simps, auto simp: poll_turn_def)+
      then show ?thesis by blast
    qed
  qed
  then show thesis using that unfolding readline_def by blast
qed

lemma not_notice_Nil: "\<not> notice []"
  by (simp add: notice_def urc_messages_def)

lemma expect_scan_silent:
  assumes "w_in s = []" and "sscanf fmt [] = []" and "0 < k"
  obtains n u where "expect_scan k fmt tmo s = (False, [], s\<lparr>w_now := n, urc_status := u\<rparr>)" "w_now s \<le> n"
proof -
  obtain n where r: "readline SIM800_BUFSIZE tmo s = ([], s\<lparr>w_now := n\<rparr>)" "w_now s \<le> n"
    using assms(1) by (rule readline_silent)
  obtain u where "is_urc [] (s\<lparr>w_now := n\<rparr>) = (False, s\<lparr>w_now := n, urc_status := u\<rparr>)"
    using is_urc_notice [of "[]" "s\<lparr>w_now := n\<rparr>"] not_notice_Nil by auto
  then have "next_line 0 tmo s = ([], s\<lparr>w_now := n, urc_status := u\<rparr>)"
    using r(1) by (subst next_line.simps) simp
  then have "expect_scan k fmt tmo s = (False, [], s\<lparr>w_now := n, urc_status := u\<rparr>)"
    using assms(2,3) by (simp add: expect_scan_def)
  then show thesis using that r(2) by blast
qed

lemma println_silent: "w_in s = [] \<Longrightarrow> w_in (println_text t s) = []"
  by (simp add: println_text_def stream_print_def eat_echo_eq)

lemma task_delay_silent: "w_in s = [] \<Longrightarrow> w_in (task_delay ms s) = []"
  by (simp add: task_delay_def delay_def)

section \<open>Registration\<close>

definition creg :: "'a sim800_scheme \<Rightarrow> int \<times> 'a sim800_scheme" where
  "creg s = (case expect_scan 1 ''+CREG: 0,%hu'' 5000 (println_text ''AT+CREG?'' s) of (_, vs, s) \<Rightarrow> (num_at vs 0 0, s))"

lemma registerNetwork_step:
  "registerNetwork_loop timeout s =
     (if timeout - 1000 = 0 then Some (False, s)
      else (case creg s of (n, s) \<Rightarrow>
        if n = 1 \<or> n = 5 then Some (True, s)
        else registerNetwork_loop (timeout - 1000) (task_delay 1000 s)))"
  by (subst registerNetwork_loop.simps) (auto simp: creg_def split: prod.splits)

lemma registerNetwork_countdown:
  "timeout = of_nat (1000 * Suc k) \<Longrightarrow> registerNetwork_loop timeout s \<noteq> None"
proof (induction k arbitrary: timeout s)
  case 0
  then show ?case by (subst registerNetwork_step) simp
next
  case (Suc k)
  have "timeout - 1000 = of_nat (1000 * Suc k)" using Suc.prems by simp
  then show ?case using Suc.IH
    by (subst registerNetwork_step) (auto split: prod.splits)
qed

text \<open>The multiples of 1000 modulo 65536 are the multiples of 8: 125 has the inverse 6357 modulo 8192.\<close>

lemma multiple_of_8:
  fixes t :: u16
  assumes "unat t mod 8 = 0"
  shows "\<exists>k. t = of_nat (1000 * Suc k)"
proof -
  define m where "m = unat t div 8"
  have t: "unat t = 8 * m" using assms by (auto simp: m_def)
  have "t = of_nat (8 * m)" by (simp add: t [symmetric])
  moreover have "1000 * (6357 * m + 8192) = 8 * m + 65536 * (97 * m + 125)" by simp
  then have "(of_nat (1000 * (6357 * m + 8192)) :: u16) = of_nat (8 * m) + of_nat (65536 * (97 * m + 125))"
    by (metis of_nat_add)
  moreover have "(of_nat (65536 * (97 * m + 125)) :: u16) = 0" by (simp only: word_of_nat_eq_0_iff) simp
  ultimately have "t = of_nat (1000 * Suc (6357 * m + 8191))" by simp
  then show ?thesis by blast
qed

lemma creg_silent:
  assumes "w_in s = []"
  shows "\<exists>s'. creg s = (0, s') \<and> w_in s' = []"
proof -
  have "sscanf ''+CREG: 0,%hu'' [] = []" by (simp add: sscanf_def c_isspace_def char_code_def)
  then obtain n u where "expect_scan 1 ''+CREG: 0,%hu'' 5000 (println_text ''AT+CREG?'' s) =
      (False, [], (println_text ''AT+CREG?'' s)\<lparr>w_now := n, urc_status := u\<rparr>)"
    using expect_scan_silent [OF println_silent [OF assms]] by (metis zero_less_one)
  then show ?thesis using println_silent [OF assms] by (simp add: creg_def num_at_def)
qed

lemma registerNetwork_diverges:
  assumes "unat timeout mod 8 \<noteq> 0" and "w_in s = []"
  shows "registerNetwork_loop timeout s = None"
proof (rule ccontr)
  assume "registerNetwork_loop timeout s \<noteq> None"
  then obtain r where r: "registerNetwork_loop timeout s = Some r" by blast
  have "unat timeout mod 8 = 0 \<or> w_in s \<noteq> []"
  proof (rule registerNetwork_loop.raw_induct [where P = "\<lambda>t s r. unat t mod 8 = 0 \<or> w_in s \<noteq> []", OF _ r])
    fix loop :: "u16 \<Rightarrow> 'a sim800_scheme \<Rightarrow> (bool \<times> 'a sim800_scheme) option" and t :: u16 and s :: "'a sim800_scheme" and r
    assume IH: "\<And>t s r. loop t s = Some r \<Longrightarrow> unat t mod 8 = 0 \<or> w_in s \<noteq> []"
      and "(if t - 1000 = 0 then Some (False, s)
          else
            (let (_, vs, s) = expect_scan 1 ''+CREG: 0,%hu'' 5000 (println_text ''AT+CREG?'' s);
                 n = num_at vs 0 0
             in if n = 1 \<or> n = 5 then Some (True, s) else loop (t - 1000) (task_delay 1000 s))) = Some r"
    then have body: "(if t - 1000 = 0 then Some (False, s)
        else (case creg s of (n, s) \<Rightarrow>
          if n = 1 \<or> n = 5 then Some (True, s) else loop (t - 1000) (task_delay 1000 s))) = Some r"
      by (auto simp: creg_def split: prod.splits)
    show "unat t mod 8 = 0 \<or> w_in s \<noteq> []"
    proof (rule ccontr)
      assume "\<not> ?thesis"
      then have t: "unat t mod 8 \<noteq> 0" and "w_in s = []" by auto
      then obtain s' where s': "creg s = (0, s')" "w_in s' = []" using creg_silent by blast
      have sub: "unat (t - 1000) mod 8 = unat t mod 8"
      proof -
        have "unat (t - 1000) = (if 1000 \<le> unat t then unat t - 1000 else unat t + 65536 - 1000)"
          using unat_sub_if' [of t 1000] by simp
        moreover have "(unat t - 1000) mod 8 = unat t mod 8" if "1000 \<le> unat t"
          using that mod_mult_self1 [of "unat t - 1000" 125 8] by simp
        moreover have "(unat t + 65536 - 1000) mod 8 = unat t mod 8"
          using mod_mult_self1 [of "unat t" 8067 8] by (simp add: add.commute)
        ultimately show ?thesis by simp
      qed
      then have "t - 1000 \<noteq> 0" using t by auto
      then have "loop (t - 1000) (task_delay 1000 s') = Some r" using body s' by simp
      then show False using IH sub t s'(2) task_delay_silent by fastforce
    qed
  qed
  then show False using assms by simp
qed

text \<open>C19: the wait for the registration takes its turns in steps of 1000 out of a 16-bit counter that it
  only compares with 0. It returns, whatever the modem does, when the timeout is a multiple of 8,
  as the default of 30000 is; for any other timeout it does not return while the modem is silent.\<close>

theorem registerNetwork_termination:
  "(unat timeout mod 8 = 0 \<longrightarrow> registerNetwork timeout s \<noteq> None) \<and>
   (unat timeout mod 8 \<noteq> 0 \<longrightarrow> w_in s = [] \<longrightarrow> registerNetwork timeout s = None)"
proof (intro conjI impI)
  assume "unat timeout mod 8 = 0"
  from multiple_of_8 [OF this] obtain k where "timeout = of_nat (1000 * Suc k)" ..
  then show "registerNetwork timeout s \<noteq> None"
    unfolding registerNetwork_def by (rule registerNetwork_countdown)
next
  assume t: "unat timeout mod 8 \<noteq> 0" and s: "w_in s = []"
  obtain ok s' where e: "expect_AT_OK [] 5000 s = (ok, s')" by fastforce
  then have "w_in s' = []" using sim_le_length [OF expect_AT_OK_le [OF e]] s by simp
  then show "registerNetwork timeout s = None"
    unfolding registerNetwork_def e snd_conv by (rule registerNetwork_diverges [OF t])
qed

theorem registerNetwork_termination_witness:
  "registerNetwork 30000 (sample_sim 0 []) \<noteq> None \<and> registerNetwork 30001 (sample_sim 0 []) = None"
  using registerNetwork_termination [of 30000 "sample_sim 0 []"] registerNetwork_termination [of 30001 "sample_sim 0 []"]
  by (simp add: sample_sim_def)

section \<open>Requests\<close>

lemma scan_action_silent:
  assumes "w_in s = []"
  obtains t where "expect_scan 2 ''+HTTPACTION: 1,%hu,%lu'' 5000 s = (False, [], t)" "w_in t = []"
proof -
  have "sscanf ''+HTTPACTION: 1,%hu,%lu'' [] = []" by (simp add: sscanf_def c_isspace_def char_code_def)
  then obtain n u where "expect_scan 2 ''+HTTPACTION: 1,%hu,%lu'' 5000 s = (False, [], s\<lparr>w_now := n, urc_status := u\<rparr>)"
    using expect_scan_silent [OF assms, of "''+HTTPACTION: 1,%hu,%lu''" 2] by (metis zero_less_numeral)
  then show ?thesis using that assms by simp
qed

lemma action_loop_silent:
  assumes "w_in s = []"
  shows "action_loop s = None"
proof (rule ccontr)
  assume "action_loop s \<noteq> None"
  then obtain r where r: "action_loop s = Some r" by blast
  then have "w_in s \<noteq> []"
  proof (rule action_loop_rule)
    fix s :: "'a sim800_scheme" and ok vs t
    assume e: "expect_scan 2 ''+HTTPACTION: 1,%hu,%lu'' 5000 s = (True, vs, t)"
    show "w_in s \<noteq> []" using scan_action_silent [of s] e by auto
  next
    fix s :: "'a sim800_scheme" and ok vs t
    assume "expect_scan 2 ''+HTTPACTION: 1,%hu,%lu'' 5000 s = (False, vs, t)" and "w_in t \<noteq> []"
    then show "w_in s \<noteq> []" using scan_action_silent [of s] by auto
  qed
  then show False using assms by simp
qed


section \<open>Documented answers\<close>

lemma scan_format_action: "scan_format ''+HTTPACTION: 1,%hu,%lu'' =
   map Literal ''+HTTPACTION:'' @ [Space, Literal CHR ''1'', Literal CHR '','', Conv False None (Scan_int False 16),
     Literal CHR '','', Conv False None (Scan_int False 32)]"
  by code_simp

lemma scan_format_battery: "scan_format ''+CBC: %d,%d,%d'' =
   map Literal ''+CBC:'' @ [Space, Conv False None (Scan_int True 32), Literal CHR '','',
     Conv False None (Scan_int True 32), Literal CHR '','', Conv False None (Scan_int True 32)]"
  by code_simp

definition action_text :: "nat \<Rightarrow> nat \<Rightarrow> string" where
  "action_text st len = ''+HTTPACTION: 1,'' @ print_number st 10 @ '','' @ print_number len 10"

definition battery_text :: "nat \<Rightarrow> nat \<Rightarrow> nat \<Rightarrow> string" where
  "battery_text a b c = ''+CBC: '' @ print_number a 10 @ '','' @ print_number b 10 @ '','' @ print_number c 10"

lemma spaces: "c_isspace CHR '' ''" "\<not> c_isspace CHR ''1''"
  by code_simp+

lemma scan_action:
  assumes "a < 2 ^ 16" and "b < 2 ^ 31"
  shows "sscanf ''+HTTPACTION: 1,%hu,%lu'' (action_text a b) = [Num (int a), Num (int b)]"
proof -
  have nul: "CHR 0x00 \<notin> set (action_text a b)" by (simp add: action_text_def)
  show ?thesis unfolding sscanf_def c_str_id [OF nul] scan_format_action action_text_def
    using assms by (simp add: scan_simps spaces)
qed

lemma scan_battery:
  assumes "a < 2 ^ 31" and "b < 2 ^ 31" and "c < 2 ^ 31"
  shows "sscanf ''+CBC: %d,%d,%d'' (battery_text a b c) = [Num (int a), Num (int b), Num (int c)]"
proof -
  have nul: "CHR 0x00 \<notin> set (battery_text a b c)" by (simp add: battery_text_def)
  show ?thesis unfolding sscanf_def c_str_id [OF nul] scan_format_battery battery_text_def
    using assms by (simp add: scan_simps spaces)
qed

lemma plain_number: "CHR 0x0D \<notin> set (print_number n 10)" "CHR 0x0A \<notin> set (print_number n 10)"
proof -
  have "\<not> c_isdigit CHR 0x0D" "\<not> c_isdigit CHR 0x0A" by code_simp+
  then show "CHR 0x0D \<notin> set (print_number n 10)" "CHR 0x0A \<notin> set (print_number n 10)" by simp_all
qed

lemma answer_texts:
  "plain_line (action_text a b)" "\<not> notice (action_text a b)"
  "plain_line (battery_text a b c)" "\<not> notice (battery_text a b c)"
  by (simp_all add: plain_line_def notice_def urc_messages_def action_text_def battery_text_def plain_number)

lemma number_short: "n < 2 ^ 31 \<Longrightarrow> length (print_number n 10) \<le> 10"
  using print_number_length [of n 9] by simp

lemma answer_text_lengths:
  assumes "a < 2 ^ 31" and "b < 2 ^ 31" and "c < 2 ^ 31"
  shows "length (action_text a b) \<le> SIM800_BUFSIZE" and "length (battery_text a b c) \<le> SIM800_BUFSIZE"
  using number_short [OF assms(1)] number_short [OF assms(2)] number_short [OF assms(3)]
  by (simp_all add: action_text_def battery_text_def SIM800_BUFSIZE_def)

text \<open>C18: once a request is under way, the wait ends with the announcement of its status when that comes
  in time, whatever notices come before it; while the modem is silent it goes on for ever.\<close>

theorem HTTP_action_wait:
  assumes "\<forall>u \<in> set us. plain_line u \<and> notice (take SIM800_BUFSIZE u)" and "length us \<le> 5"
    and "status < 2 ^ 16" and "len < 2 ^ 31"
    and "incoming T (concat (map answer_line us) @ answer_line (action_text status len) @ nxt) rest s"
    and "T \<le> w_now s + s_poll s * 4998"
  shows "(\<exists>s'. action_loop s = Some ([Num (int status), Num (int len)], s') \<and> incoming (max T (w_now s')) nxt rest s') \<and>
    action_loop (s\<lparr>w_in := []\<rparr>) = None"
proof
  show "action_loop (s\<lparr>w_in := []\<rparr>) = None" by (rule action_loop_silent) simp
  have st: "status < 2 ^ 31" using assms(3) by simp
  note l = answer_texts(1,2) [of status len] answer_text_lengths(1) [OF st assms(4) assms(4)]
  have i: "length us = 5 \<or> length us < 5 \<and> \<not> notice (action_text status len)" using assms(2) l(2) by linarith
  have t: "(5000 :: u16) \<noteq> 1" "T \<le> w_now s + s_poll s * (unat ((5000 :: u16) - 1) - 1)" using assms(6) by simp_all
  from expect_scan_notices [OF assms(1) l(1) i l(3) assms(5) t]
  obtain n mid u where r: "expect_scan 2 ''+HTTPACTION: 1,%hu,%lu'' 5000 s =
      (length (sscanf ''+HTTPACTION: 1,%hu,%lu'' (action_text status len)) = 2,
       sscanf ''+HTTPACTION: 1,%hu,%lu'' (action_text status len), s\<lparr>w_now := n, w_in := mid, urc_status := u\<rparr>)"
    "w_now s \<le> n" "incoming (max T n) nxt rest (s\<lparr>w_now := n, w_in := mid\<rparr>)" .
  then have "action_loop s = Some ([Num (int status), Num (int len)], s\<lparr>w_now := n, w_in := mid, urc_status := u\<rparr>)"
    using scan_action [OF assms(3,4)] by (subst action_loop.simps) simp
  moreover have "incoming (max T n) nxt rest (s\<lparr>w_now := n, w_in := mid, urc_status := u\<rparr>)"
    using r(3) by (simp add: incoming_def)
  ultimately show "\<exists>s'. action_loop s = Some ([Num (int status), Num (int len)], s') \<and> incoming (max T (w_now s')) nxt rest s'"
    by fastforce
qed

theorem HTTP_action_wait_witness:
  "(\<exists>s'. action_loop (sample_sim 20 (answer_line ''SMS Ready'' @ answer_line (action_text 200 12))) =
      Some ([Num 200, Num 12], s')) \<and> action_loop (sample_sim 20 []) = None"
proof -
  let ?t = "concat (map answer_line [''SMS Ready'']) @ answer_line (action_text 200 12) @ []"
  have us: "\<forall>u \<in> set [''SMS Ready'']. plain_line u \<and> notice (take SIM800_BUFSIZE u)" "length [''SMS Ready''] \<le> 5"
    by (simp_all add: plain_line_def notice_def SIM800_BUFSIZE_def urc_messages_def)
  have n: "(200 :: nat) < 2 ^ 16" "(12 :: nat) < 2 ^ 31" by simp_all
  have T: "20 \<le> w_now (sample_sim 20 ?t) + s_poll (sample_sim 20 ?t) * 4998" by (simp add: sample_sim_def)
  from HTTP_action_wait [OF us n incoming_sample_sim T]
  have "(\<exists>s'. action_loop (sample_sim 20 ?t) = Some ([Num (int 200), Num (int 12)], s')) \<and>
      action_loop ((sample_sim 20 ?t)\<lparr>w_in := []\<rparr>) = None" by blast
  moreover have "(sample_sim 20 ?t)\<lparr>w_in := []\<rparr> = sample_sim 20 []" by (simp add: sample_sim_def)
  ultimately show ?thesis by simp
qed

text \<open>The battery state is read back from the documented answer, up to 16 bits a number.\<close>

theorem battery_answer:
  assumes "available s = 0" and "a < 2 ^ 16" and "b < 2 ^ 16" and "c < 2 ^ 16"
    and "incoming T (answer_line (battery_text a b c) @ answer_line ''OK'' @ nxt) rest s"
    and "T \<le> w_now s + s_poll s * 4998"
  shows "\<exists>s'. battery old s = (True, (of_nat a, of_nat b, of_nat c), s') \<and>
    w_out s' = w_out s @ ''AT+CBC'' @ crlf \<and> incoming (max T (w_now s')) nxt rest s'"
proof -
  let ?s = "println_text ''AT+CBC'' s"
  have s: "?s = s\<lparr>w_out := w_out s @ ''AT+CBC'' @ crlf\<rparr>"
    using assms(1) by (simp add: println_idle stream_print_def)
  have b31: "a < 2 ^ 31" "b < 2 ^ 31" "c < 2 ^ 31" using assms(2-4) by simp_all
  note l = answer_texts(3,4) [of a b c] answer_text_lengths(2) [OF b31]
  have none: "\<forall>u \<in> set []. plain_line u \<and> notice (take SIM800_BUFSIZE u)" by simp
  have t: "(5000 :: u16) \<noteq> 1" "T \<le> w_now ?s + s_poll ?s * (unat ((5000 :: u16) - 1) - 1)"
    using assms(6) by (simp_all add: s)
  have i1: "length ([] :: string list) = 5 \<or> length ([] :: string list) < 5 \<and> \<not> notice (battery_text a b c)" using l(2) by simp
  have inc: "incoming T (concat (map answer_line []) @ answer_line (battery_text a b c) @ (answer_line ''OK'' @ nxt)) rest ?s"
    using assms(5) by (simp add: s incoming_def)
  from expect_scan_notices [OF none l(1) i1 l(3) inc t]
  obtain n mid u where r0: "expect_scan 3 ''+CBC: %d,%d,%d'' 5000 ?s =
      (length (sscanf ''+CBC: %d,%d,%d'' (battery_text a b c)) = 3, sscanf ''+CBC: %d,%d,%d'' (battery_text a b c),
       ?s\<lparr>w_now := n, w_in := mid, urc_status := u\<rparr>)"
    and r: "w_now ?s \<le> n" "incoming (max T n) (answer_line ''OK'' @ nxt) rest (?s\<lparr>w_now := n, w_in := mid\<rparr>)" .
  have r1: "expect_scan 3 ''+CBC: %d,%d,%d'' 5000 ?s =
      (True, [Num (int a), Num (int b), Num (int c)], ?s\<lparr>w_now := n, w_in := mid, urc_status := u\<rparr>)"
    using r0 scan_battery [OF b31] by simp
  let ?s2 = "?s\<lparr>w_now := n, w_in := mid, urc_status := u\<rparr>"
  have ok: "plain_line ''OK''" "length ([] :: string list) = 5 \<or> length ([] :: string list) < 5 \<and> \<not> notice ''OK''"
    "length ''OK'' \<le> SIM800_BUFSIZE" "CHR 0x00 \<notin> set ''OK''"
    by (simp_all add: plain_line_def notice_def urc_messages_def SIM800_BUFSIZE_def)
  have inc2: "incoming (max T n) (concat (map answer_line []) @ answer_line ''OK'' @ nxt) rest ?s2"
    using r(2) by (simp add: incoming_def)
  have t2: "max T n \<le> w_now ?s2 + s_poll ?s2 * (unat ((5000 :: u16) - 1) - 1)"
    using t(2) r(1) by (simp add: s)
  from expect_notices [OF none ok inc2 t(1) t2, of "''OK''"]
  obtain n' mid' u' where r3: "expect ''OK'' 5000 ?s2 =
      ((\<exists>a b. ''OK'' = a @ ''OK'' @ b), ?s2\<lparr>w_now := n', w_in := mid', urc_status := u'\<rparr>)"
    and r2: "w_now ?s2 \<le> n'" "incoming (max (max T n) n') nxt rest (?s2\<lparr>w_now := n', w_in := mid'\<rparr>)" .
  have "\<exists>a b. ''OK'' = a @ ''OK'' @ b" by auto
  note r3 = r3 [unfolded eqTrueI [OF this]]
  let ?s3 = "?s2\<lparr>w_now := n', w_in := mid', urc_status := u'\<rparr>"
  have "battery old s = (True, (of_nat a, of_nat b, of_nat c), ?s3)"
    using r1 r3 by (cases old) (simp add: battery_def expect_OK_def num_at_def)
  moreover have "w_out ?s3 = w_out s @ ''AT+CBC'' @ crlf" by simp
  moreover have "max (max T n) n' = max T n'" using r2(1) by simp
  then have "incoming (max T (w_now ?s3)) nxt rest ?s3" using r2(2) by (simp add: incoming_def)
  ultimately show ?thesis by blast
qed

theorem battery_answer_witness:
  "\<exists>s'. battery (0, 0, 0) (sample_sim 20 (answer_line (battery_text 0 95 4182) @ answer_line ''OK'')) =
     (True, (0, 95, 4182), s')"
proof -
  let ?s = "sample_sim 20 (answer_line (battery_text 0 95 4182) @ answer_line ''OK'' @ [])"
  have av: "available ?s = 0" by (simp add: available_def sample_sim_def answer_line_def crlf_def)
  have n: "(0 :: nat) < 2 ^ 16" "(95 :: nat) < 2 ^ 16" "(4182 :: nat) < 2 ^ 16" by simp_all
  have T: "20 \<le> w_now ?s + s_poll ?s * 4998" by (simp add: sample_sim_def)
  from battery_answer [OF av n incoming_sample_sim T, of "(0, 0, 0)"]
  show ?thesis by auto
qed

section \<open>Flashing\<close>

lemma read_ota_loop_chunks:
  assumes "incoming (w_now s) data rest s" and "length buffer < GSM_MAX_BUFFSIZE - 1"
    and "\<And>log. ota_write log = 0"
  shows "\<exists>chunks r. buffer @ data = concat chunks @ r \<and> (\<forall>c \<in> set chunks. length c = GSM_MAX_BUFFSIZE - 1) \<and>
    length r < GSM_MAX_BUFFSIZE - 1 \<and>
    read_ota_loop ota_write handle (length data) buffer log s =
      (length r, log @ map (\<lambda>c. (handle, c @ [CHR 0x00])) chunks, s\<lparr>w_in := rest\<rparr>)"
  using assms(1,2)
proof (induction data arbitrary: buffer log s)
  case Nil
  then have s: "s = s\<lparr>w_in := rest\<rparr>" by (auto simp: incoming_Nil)
  show ?case using Nil.prems(2) s
    by (intro exI [of _ "[]"] exI [of _ buffer]) simp
next
  case (Cons c data)
  obtain t mid where t: "w_in s = (t, c) # mid" "t \<le> w_now s" "incoming (w_now s) data rest (s\<lparr>w_in := mid\<rparr>)"
    using Cons.prems(1) by (auto simp: incoming_Cons max_def)
  let ?s = "s\<lparr>w_in := mid\<rparr>"
  have rd: "stream_read s = (Some c, ?s)" using t by (simp add: stream_read_def)
  have inc: "incoming (w_now ?s) data rest ?s" using t(3) by simp
  show ?case
  proof (cases "length (buffer @ [c]) = GSM_MAX_BUFFSIZE - 1")
    case True
    have "length ([] :: string) < GSM_MAX_BUFFSIZE - 1" by (simp add: GSM_MAX_BUFFSIZE_def)
    from Cons.IH [OF inc this, of "log @ [(handle, buffer @ [c, CHR 0x00])]"]
    obtain chunks r where *: "data = concat chunks @ r" "\<forall>c \<in> set chunks. length c = GSM_MAX_BUFFSIZE - 1"
      "length r < GSM_MAX_BUFFSIZE - 1"
      "read_ota_loop ota_write handle (length data) [] (log @ [(handle, buffer @ [c, CHR 0x00])]) ?s =
        (length r, (log @ [(handle, buffer @ [c, CHR 0x00])]) @ map (\<lambda>c. (handle, c @ [CHR 0x00])) chunks, ?s\<lparr>w_in := rest\<rparr>)"
      by auto
    show ?thesis using * True rd assms(3) [of "log @ [(handle, buffer @ [c, CHR 0x00])]"]
      by (intro exI [of _ "(buffer @ [c]) # chunks"] exI [of _ r]) simp
  next
    case False
    then have "length (buffer @ [c]) < GSM_MAX_BUFFSIZE - 1" using Cons.prems(2) by simp
    from Cons.IH [OF inc this, of log]
    obtain chunks r where *: "(buffer @ [c]) @ data = concat chunks @ r"
      "\<forall>c \<in> set chunks. length c = GSM_MAX_BUFFSIZE - 1" "length r < GSM_MAX_BUFFSIZE - 1"
      "read_ota_loop ota_write handle (length data) (buffer @ [c]) log ?s =
        (length r, log @ map (\<lambda>c. (handle, c @ [CHR 0x00])) chunks, ?s\<lparr>w_in := rest\<rparr>)"
      by blast
    show ?thesis using * False rd
      by (intro exI [of _ chunks] exI [of _ r]) simp
  qed
qed



section \<open>Initialisation\<close>

text \<open>The signal strength is only set by the initialisation itself, and what extends the state of the
  driver is never touched.\<close>

definition kept :: "'a sim800_scheme \<Rightarrow> int \<times> 'a" where
  "kept s = (gsm_rssi s, sim800.more s)"

named_theorems kept_simps \<open>operations that keep the signal strength\<close>

lemma sim_reads_kept: "sim_reads s s' \<Longrightarrow> kept s' = kept s"
  using converses_frame(1,2) [OF sim_reads_converses, of s s'] by (simp add: kept_def)

lemma elementary_kept [kept_simps]:
  "kept (println_text t s) = kept s" "kept (print_text t s) = kept s"
  "kept (task_delay ms s) = kept s" "kept (pin p s) = kept s"
  by (simp_all add: kept_def println_text_def print_text_def stream_print_def eat_echo_eq task_delay_def delay_def pin_def)

lemma expect_kept [kept_simps]:
  "kept (snd (expect e tmo s)) = kept s"
  "kept (snd (expect_OK tmo s)) = kept s"
  "kept (snd (expect_AT_OK cmd tmo s)) = kept s"
  "kept (snd (snd (expect_scan k fmt tmo s))) = kept s"
proof -
  show e: "kept (snd (expect e tmo s)) = kept s" for e tmo and s :: "'a sim800_scheme"
    using expect_reads [of e tmo s] sim_reads_kept by (metis surjective_pairing)
  show "kept (snd (expect_OK tmo s)) = kept s" by (simp add: expect_OK_def e)
  show "kept (snd (expect_AT_OK cmd tmo s)) = kept s"
    by (simp add: expect_AT_OK_def expect_AT_def expect_AT_delay_def e kept_simps)
  show "kept (snd (snd (expect_scan k fmt tmo s))) = kept s"
    using expect_scan_reads [of k fmt tmo s] sim_reads_kept by (metis surjective_pairing)
qed

lemma get_signal_kept [kept_simps]: "kept (snd (get_signal s)) = kept s"
  by (simp add: get_signal_def split_beta kept_simps del: One_nat_def)

lemma signal_loop_range:
  "signal_loop s = Some s' \<Longrightarrow> 1 \<le> gsm_rssi s' \<and> gsm_rssi s' \<le> 98 \<and> sim800.more s' = sim800.more s"
proof -
  assume r: "signal_loop s = Some s'"
  let ?P = "\<lambda>(s :: 'a sim800_scheme) (s' :: 'a sim800_scheme). 1 \<le> gsm_rssi s' \<and> gsm_rssi s' \<le> 98 \<and> sim800.more s' = sim800.more s"
  show ?thesis
  proof (rule signal_loop.raw_induct [where P = ?P, OF _ r])
    fix loop :: "'a sim800_scheme \<Rightarrow> 'a sim800_scheme option" and s s' :: "'a sim800_scheme"
    assume IH: "\<And>s s'. loop s = Some s' \<Longrightarrow> ?P s s'"
      and b: "(if gsm_rssi s < 1 \<or> gsm_rssi s > 98 then
          (let (rssi, s) = get_signal (task_delay 10000 s) in loop (s\<lparr>gsm_rssi := rssi\<rparr>))
        else Some s) = Some s'"
    obtain rssi s1 where g: "get_signal (task_delay 10000 s) = (rssi, s1)" by fastforce
    then have "sim800.more s1 = sim800.more s"
      using get_signal_kept [of "task_delay 10000 s"] elementary_kept(3) [of 10000 s] by (simp add: kept_def)
    then show "?P s s'" using b g IH [of "s1\<lparr>gsm_rssi := rssi\<rparr>" s'] by (auto split: if_splits)
  qed
qed

lemma power_on_loop_kept [kept_simps]: "kept (power_on_loop n s) = kept s"
proof (induction n s rule: power_on_loop.induct)
  case (1 n s)
  then show ?case by (subst power_on_loop.simps) (auto simp: kept_simps Let_def)
qed

lemma power_cycle_loop_kept: "power_cycle_loop s = Some s' \<Longrightarrow> kept s' = kept s"
proof -
  assume r: "power_cycle_loop s = Some s'"
  let ?P = "\<lambda>(s :: 'a sim800_scheme) (s' :: 'a sim800_scheme). kept s' = kept s"
  show ?thesis
  proof (rule power_cycle_loop.raw_induct [where P = ?P, OF _ r])
    fix loop :: "'a sim800_scheme \<Rightarrow> 'a sim800_scheme option" and s s' :: "'a sim800_scheme"
    assume IH: "\<And>s s'. loop s = Some s' \<Longrightarrow> ?P s s'"
      and b: "(let s = task_delay 1100 (pin (Pin_write 21 False) s);
             s = task_delay 1100 (pin (Pin_write 21 True) s);
             s = task_delay 100 (pin (Pin_write 21 True) s)
         in if ps_high s then loop s else Some s) = Some s'"
    show "?P s s'" using b IH by (fastforce simp: Let_def kept_simps split: if_splits)
  qed
qed

lemma sim_reset_kept [kept_simps]: "kept (snd (sim_reset f s)) = kept s"
  by (simp add: sim_reset_def Let_def split_beta kept_simps)

lemma shutdown_kept [kept_simps]: "kept (snd (shutdown h s)) = kept s"
  by (simp add: shutdown_def Let_def split_beta kept_simps)

lemma wakeup_kept: "wakeup s = Some (ok, s') \<Longrightarrow> kept s' = kept s"
proof -
  assume r: "wakeup s = Some (ok, s')"
  obtain o1 s1 where 1: "expect_AT_OK [] 100 s = (o1, s1)" by fastforce
  obtain o2 s2 where 2: "expect_AT_OK [] 100 s1 = (o2, s2)" by fastforce
  have e: "kept s1 = kept s" "kept s2 = kept s"
    using expect_kept(3) [of "[]" 100 s] expect_kept(3) [of "[]" 100 s1] 1 2 by simp_all
  show ?thesis
  proof (cases "o1 \<or> o2")
    case True
    then have "s' = s1 \<or> sim_reset False s2 = (ok, s')" using r 1 2 by (auto simp: wakeup_def split: if_splits)
    then show ?thesis using e sim_reset_kept [of False s2] by auto
  next
    case False
    then obtain s3 where s3: "(if \<not> ps_high s2 then Some (power_on_loop 0
          (pin (Pin_write SIM800_POWER False) (pin (Pin_mode SIM800_POWER ''OUTPUT'') s2)))
        else power_cycle_loop s2) = Some s3"
      and s': "(ok, s') = sim_reset False (pin (Pin_mode SIM800_KEY ''INPUT_PULLUP'') s3)"
      using r 1 2 by (auto simp: wakeup_def bind_eq_Some_conv)
    have "kept s3 = kept s2"
      using s3 power_cycle_loop_kept by (auto simp: kept_simps split: if_splits)
    then show ?thesis using e s' sim_reset_kept [of False "pin (Pin_mode SIM800_KEY ''INPUT_PULLUP'') s3"]
      by (metis elementary_kept(4) snd_conv)
  qed
qed

lemma sim_begin_kept [kept_simps]: "kept (sim_begin s) = kept s"
  using elementary_kept(4) by (simp add: sim_begin_def kept_def pin_def)

lemma init_commands_kept [kept_simps]: "kept (init_commands s) = kept s"
  by (simp add: init_commands_def Let_def kept_simps)

lemma check_sim_card_kept [kept_simps]: "kept (snd (check_sim_card s)) = kept s"
  by (simp add: check_sim_card_def kept_simps)

lemma wakeup_loop_kept: "wakeup_loop s = Some s' \<Longrightarrow> kept s' = kept s"
proof -
  assume r: "wakeup_loop s = Some s'"
  let ?P = "\<lambda>(s :: 'a sim800_scheme) (s' :: 'a sim800_scheme). kept s' = kept s"
  show ?thesis
  proof (rule wakeup_loop.raw_induct [where P = ?P, OF _ r])
    fix loop :: "'a sim800_scheme \<Rightarrow> 'a sim800_scheme option" and s s' :: "'a sim800_scheme"
    assume IH: "\<And>s s'. loop s = Some s' \<Longrightarrow> ?P s s'"
      and "do { (ok, s) \<leftarrow> wakeup s; if ok then Some s else loop (task_delay 3000 s) } = Some s'"
    then obtain ok s1 where w: "wakeup s = Some (ok, s1)"
      and "(if ok then Some s1 else loop (task_delay 3000 s1)) = Some s'"
      by (auto simp: bind_eq_Some_conv)
    then show "?P s s'" using IH [of "task_delay 3000 s1" s'] wakeup_kept [OF w]
      by (auto simp: kept_simps split: if_splits)
  qed
qed

lemma sim_card_loop_kept: "sim_card_loop s = Some s' \<Longrightarrow> kept s' = kept s"
proof -
  assume r: "sim_card_loop s = Some s'"
  let ?P = "\<lambda>(s :: 'a sim800_scheme) (s' :: 'a sim800_scheme). kept s' = kept s"
  show ?thesis
  proof (rule sim_card_loop.raw_induct [where P = ?P, OF _ r])
    fix loop :: "'a sim800_scheme \<Rightarrow> 'a sim800_scheme option" and s s' :: "'a sim800_scheme"
    assume IH: "\<And>s s'. loop s = Some s' \<Longrightarrow> ?P s s'"
      and b: "(let (ok, s) = check_sim_card s in if ok then Some s else loop (task_delay 60000 s)) = Some s'"
    obtain ok s1 where c: "check_sim_card s = (ok, s1)" by fastforce
    then have "kept s1 = kept s" using check_sim_card_kept [of s] by simp
    then show "?P s s'" using b c IH [of "task_delay 60000 s1" s']
      by (auto simp: kept_simps split: if_splits)
  qed
qed

lemma registerNetwork_kept: "registerNetwork tmo s = Some (ok, s') \<Longrightarrow> kept s' = kept s"
proof -
  have loop: "registerNetwork_loop t s = Some r \<Longrightarrow> kept (snd r) = kept s" for t and s :: "'a sim800_scheme" and r
  proof -
    assume r: "registerNetwork_loop t s = Some r"
    let ?P = "\<lambda>t (s :: 'a sim800_scheme) (r :: bool \<times> 'a sim800_scheme). kept (snd r) = kept s"
    show ?thesis
    proof (rule registerNetwork_loop.raw_induct [where P = ?P, OF _ r])
      fix loop :: "u16 \<Rightarrow> 'a sim800_scheme \<Rightarrow> (bool \<times> 'a sim800_scheme) option" and t s r
      assume IH: "\<And>t s r. loop t s = Some r \<Longrightarrow> ?P t s r"
        and b: "(if t - 1000 = 0 then Some (False, s)
            else
              (let (_, vs, s) = expect_scan 1 ''+CREG: 0,%hu'' 5000 (println_text ''AT+CREG?'' s);
                   n = num_at vs 0 0
               in if n = 1 \<or> n = 5 then Some (True, s) else loop (t - 1000) (task_delay 1000 s))) = Some r"
      obtain o1 vs s1 where e: "expect_scan 1 ''+CREG: 0,%hu'' 5000 (println_text ''AT+CREG?'' s) = (o1, vs, s1)"
        by (metis prod_cases3)
      have "kept s1 = kept s"
        using sim_reads_kept [OF expect_scan_reads [OF e]] by (simp add: kept_simps)
      then show "?P t s r" using b e IH [of "t - 1000" "task_delay 1000 s1" r]
        by (auto simp: Let_def kept_simps split: if_splits)
    qed
  qed
  assume "registerNetwork tmo s = Some (ok, s')"
  then show ?thesis using loop [of tmo "snd (expect_AT_OK [] 5000 s)" "(ok, s')"]
    by (simp add: registerNetwork_def kept_simps)
qed

lemma register_loop_kept: "register_loop s = Some s' \<Longrightarrow> kept s' = kept s"
proof -
  assume r: "register_loop s = Some s'"
  let ?P = "\<lambda>(s :: 'a sim800_scheme) (s' :: 'a sim800_scheme). kept s' = kept s"
  show ?thesis
  proof (rule register_loop.raw_induct [where P = ?P, OF _ r])
    fix loop :: "'a sim800_scheme \<Rightarrow> 'a sim800_scheme option" and s s' :: "'a sim800_scheme"
    assume IH: "\<And>s s'. loop s = Some s' \<Longrightarrow> ?P s s'"
      and b: "do {
           (ok, s) \<leftarrow> registerNetwork 30000 s;
           if ok then Some s
           else do { (_, s) \<leftarrow> wakeup (snd (shutdown False (task_delay 20000 s))); loop s }
         } = Some s'"
    then obtain ok s1 where 1: "registerNetwork 30000 s = Some (ok, s1)"
      and 2: "(if ok then Some s1
        else do { (_, s) \<leftarrow> wakeup (snd (shutdown False (task_delay 20000 s1))); loop s }) = Some s'"
      by (auto simp: bind_eq_Some_conv)
    show "?P s s'"
    proof (cases ok)
      case True
      then show ?thesis using 2 registerNetwork_kept [OF 1] by simp
    next
      case False
      then obtain o2 s2 where w: "wakeup (snd (shutdown False (task_delay 20000 s1))) = Some (o2, s2)" "loop s2 = Some s'"
        using 2 by (auto simp: bind_eq_Some_conv)
      show ?thesis using IH [OF w(2)] wakeup_kept [OF w(1)] registerNetwork_kept [OF 1] by (simp add: kept_simps)
    qed
  qed
qed

lemma init_bearer_kept [kept_simps]: "kept (snd (init_bearer s)) = kept s"
proof -
  have "kept (set_operator s) = kept s" for s :: "'a sim800_scheme"
    using expect_kept(4) [of 1 "''%s''" 3000 "println_text ''AT+COPS?'' s"]
    by (auto simp: set_operator_def setAPN_def Let_def split_beta kept_def elementary_kept [unfolded kept_def] split: option.splits)
  then show ?thesis by (simp add: init_bearer_def Let_def split_beta kept_simps)
qed

lemma gsm_init_more:
  assumes "gsm_init s = Some (ok, s')"
  shows "sim800.more s' = sim800.more s"
proof -
  obtain s0 s2 s3 s4 where w: "wakeup_loop (sim_begin s) = Some s0"
    and c: "(case check_sim_card (init_commands s0) of
        (ok, s) \<Rightarrow> if ok then Some s else sim_card_loop (task_delay 3000 s)) = Some s2"
    and sig: "(case get_signal s2 of (rssi, s) \<Rightarrow> signal_loop (s\<lparr>gsm_rssi := rssi\<rparr>)) = Some s3"
    and reg: "register_loop s3 = Some s4" and fin: "init_bearer s4 = (ok, s')"
    using assms by (auto simp: gsm_init_def bind_eq_Some_conv)
  have "kept s0 = kept s" using wakeup_loop_kept [OF w] by (simp add: kept_simps)
  moreover obtain ok0 s1 where s1: "check_sim_card (init_commands s0) = (ok0, s1)" by fastforce
  then have "kept s1 = kept s0" by (metis check_sim_card_kept init_commands_kept snd_conv)
  then have "kept s2 = kept s0"
    using c s1 sim_card_loop_kept [of "task_delay 3000 s1" s2] by (auto simp: kept_simps split: if_splits)
  moreover have "sim800.more s3 = sim800.more s2"
    using sig signal_loop_range get_signal_kept [of s2] by (fastforce simp: kept_def split: prod.splits)
  moreover have "kept s4 = kept s3" "kept s' = kept s4"
    using register_loop_kept [OF reg] init_bearer_kept [of s4] fin by simp_all
  ultimately show ?thesis by (simp add: kept_def)
qed

text \<open>The initialisation returns only with a signal strength in the valid range, whatever the modem
  answers and however often it has to be asked.\<close>

theorem gsm_init_signal:
  "case gsm_init s of None \<Rightarrow> True | Some (ok, s') \<Rightarrow> 1 \<le> gsm_rssi s' \<and> gsm_rssi s' \<le> 98"
proof (cases "gsm_init s")
  case (Some r)
  obtain ok s' where r: "r = (ok, s')" by fastforce
  from Some r obtain s2 s3 s4 where
    sig: "(case get_signal s2 of (rssi, s) \<Rightarrow> signal_loop (s\<lparr>gsm_rssi := rssi\<rparr>)) = Some s3"
    and reg: "register_loop s3 = Some s4" and fin: "init_bearer s4 = (ok, s')"
    by (auto simp: gsm_init_def bind_eq_Some_conv)
  have "1 \<le> gsm_rssi s3 \<and> gsm_rssi s3 \<le> 98"
    using sig signal_loop_range by (auto split: prod.splits)
  then show ?thesis
    using Some r register_loop_kept [OF reg] init_bearer_kept [of s4] fin by (simp add: kept_def)
qed simp


section \<open>Connecting only converses\<close>

lemma address_loop_converses: "address_loop junk timeout s = (c, t, s') \<Longrightarrow> converses s s'"
proof (induction junk timeout s rule: address_loop.induct)
  case (1 junk timeout s)
  obtain ok vs s1 where e: "expect_scan 1 ''%s'' 5000 (println_text ''AT+CIFSR'' s) = (ok, vs, s1)"
    by (metis prod_cases3)
  then have "converses s s1"
    using expect_converses(4) [of "println_text ''AT+CIFSR'' s" 1 "''%s''" 5000] elementary_converses(1) converses_trans
    by (metis snd_conv)
  then show ?case using 1 e
    by (subst (asm) address_loop.simps) (auto simp: Let_def split: if_splits intro: converses_trans)
qed

lemma cstt_converses: "converses s (cstt s)"
  by (simp add: cstt_def print_opt_def split: option.split)
    (meson elementary_converses converses_trans)

lemma sim_connect_converses: "converses s (snd (sim_connect address port timeout connection junk s))"
proof -
  have a: "converses s t \<Longrightarrow> converses s (snd (snd (address_loop junk tmo t)))" for t tmo
    using address_loop_converses converses_trans by (metis surjective_pairing)
  have c: "converses s t \<Longrightarrow> converses s (cstt t)" for t using cstt_converses converses_trans by blast
  show ?thesis unfolding sim_connect_def Let_def expect_AT_def expect_AT_delay_def
    by (rule converses_refl | assumption | rule converses_bind converses_bind3 converses_if converses_end |
        rule a c | rule converses_chain)+
qed

end
