(* ===== verification/OtaNet.thy ===== *)
theory OtaNet
  imports Sim800Net
begin

text \<open>
  The update over a socket that was begun in \<open>src/main/ota_net.h\<close>: finding the end of the header of an answer in
  a received packet, writing what follows into the flash, and the task around it. Receiving is commented out in
  the sources and replaced by its error value.

  Buffers are the two static arrays, with one byte more than \<open>BUFFSIZE\<close>; an access outside of them is \<open>None\<close>, as is
  a task that does not end. The flashing interface is an argument, as in \<open>Sim800Net\<close>.
\<close>

section \<open>State and operations\<close>

definition BUFFSIZE :: nat where
  "BUFFSIZE = 1024"

record ota_net =
  on_write_data :: string
  on_text :: string
  on_file_length :: int
  on_log :: ota_log

definition ota_net_init :: ota_net where
  "ota_net_init = \<lparr>on_write_data = replicate (BUFFSIZE + 1) CHR 0x00, on_text = replicate (BUFFSIZE + 1) CHR 0x00,
     on_file_length = 0, on_log = []\<rparr>"

text \<open>\<open>read_until\<close> on the memory from \<open>buffer\<close> to the end of its array.\<close>

function (sequential) read_until_from :: "string \<Rightarrow> char \<Rightarrow> int \<Rightarrow> nat \<Rightarrow> nat option" where
  "read_until_from buffer delim len i =
     (if i \<ge> length buffer then None
      else if buffer ! i \<noteq> delim \<and> int i < len then read_until_from buffer delim len (i + 1)
      else Some (i + 1))"
  by pat_completeness auto
termination by (relation "measure (\<lambda>(b, d, l, i). length b - i)") auto

declare read_until_from.simps [simp del]

definition read_until :: "string \<Rightarrow> char \<Rightarrow> int \<Rightarrow> nat option" where
  "read_until buffer delim len = read_until_from buffer delim len 0"

lemma read_until_from_pos: "read_until_from buffer delim len i = Some k \<Longrightarrow> i < k"
  by (induction buffer delim len i rule: read_until_from.induct)
    (subst (asm) read_until_from.simps, auto split: if_splits)

text \<open>\<open>memset\<close> and \<open>memcpy\<close> into \<open>ota_write_data\<close>, and the write of its front.\<close>

definition clear_write_data :: "ota_net \<Rightarrow> ota_net" where
  "clear_write_data s = s\<lparr>on_write_data := blit (on_write_data s) 0 (replicate BUFFSIZE CHR 0x00)\<rparr>"

definition copy_text :: "nat \<Rightarrow> int \<Rightarrow> ota_net \<Rightarrow> ota_net option" where
  "copy_text pos len s =
     (if 0 \<le> len \<and> pos + nat len \<le> length (on_text s) \<and> nat len \<le> length (on_write_data s)
      then Some (s\<lparr>on_write_data := blit (on_write_data s) 0 (take (nat len) (drop pos (on_text s)))\<rparr>)
      else None)"

definition write_data :: "u32 \<Rightarrow> int \<Rightarrow> ota_net \<Rightarrow> ota_net" where
  "write_data handle len s = s\<lparr>on_log := on_log s @ [(handle, take (nat len) (on_write_data s))]\<rparr>"

text \<open>The loop of \<open>read_past_http_header\<close> at the position \<open>i\<close>.\<close>

function (sequential) header_loop ::
    "(ota_log \<Rightarrow> int) \<Rightarrow> u32 \<Rightarrow> int \<Rightarrow> nat \<Rightarrow> ota_net \<Rightarrow> (bool \<times> ota_net) option" where
  "header_loop ota_write handle total_len i s =
     (if i \<ge> length (on_text s) then None
      else if on_text s ! i \<noteq> CHR 0x00 \<and> int i < total_len then
        (case read_until (drop i (on_text s)) CHR 0x0A total_len of
           None \<Rightarrow> None
         | Some i_read_len \<Rightarrow>
             if i_read_len = 2 then
               (let i_write_len = total_len - int (i + 2)
                in case copy_text (i + 2) i_write_len (clear_write_data s) of
                     None \<Rightarrow> None
                   | Some s \<Rightarrow>
                       (let s = write_data handle i_write_len s
                        in if ota_write (on_log s) \<noteq> 0 then Some (False, s)
                           else Some (True, s\<lparr>on_file_length := on_file_length s + i_write_len\<rparr>)))
             else header_loop ota_write handle total_len (i + i_read_len) s)
      else Some (False, s))"
  by pat_completeness auto
termination
  by (relation "measure (\<lambda>(w, h, t, i, s). length (on_text s) - i)")
    (auto simp: read_until_def dest: read_until_from_pos)

declare header_loop.simps [simp del]

definition read_past_http_header ::
    "(ota_log \<Rightarrow> int) \<Rightarrow> u32 \<Rightarrow> int \<Rightarrow> ota_net \<Rightarrow> (bool \<times> ota_net) option" where
  "read_past_http_header ota_write handle total_len s = header_loop ota_write handle total_len 0 s"

text \<open>
  One turn of the task's loop for a received packet of \<open>buff_len\<close> bytes: whether to go on, whether the body has
  begun, and the state. \<open>recv\<close> is what the socket has put into \<open>text\<close>.
\<close>

definition ota_packet ::
    "(ota_log \<Rightarrow> int) \<Rightarrow> u32 \<Rightarrow> int \<Rightarrow> (string \<Rightarrow> string) \<Rightarrow> bool \<Rightarrow> ota_net \<Rightarrow> (bool \<times> bool \<times> ota_net) option" where
  "ota_packet ota_write handle buff_len recv resp_body_start s =
     (let s = clear_write_data (s\<lparr>on_text := blit (on_text s) 0 (replicate BUFFSIZE CHR 0x00)\<rparr>);
          s = s\<lparr>on_text := recv (on_text s)\<rparr>
      in if buff_len < 0 then Some (True, resp_body_start, s)
         else if buff_len > 0 \<and> \<not> resp_body_start then
           (case copy_text 0 buff_len s of
              None \<Rightarrow> None
            | Some s \<Rightarrow> map_option (\<lambda>(b, s). (True, b, s)) (read_past_http_header ota_write handle buff_len s))
         else if buff_len > 0 \<and> resp_body_start then
           (case copy_text 0 buff_len s of
              None \<Rightarrow> None
            | Some s \<Rightarrow>
                (let s = write_data handle buff_len s
                 in Some (True, resp_body_start, s\<lparr>on_file_length := on_file_length s + buff_len\<rparr>)))
         else Some (False, resp_body_start, s))"

text \<open>The loop: \<open>buff_len\<close> is the constant \<open>-1\<close>, and nothing is received.\<close>

partial_function (option) ota_task_loop ::
    "(ota_log \<Rightarrow> int) \<Rightarrow> u32 \<Rightarrow> bool \<Rightarrow> bool \<Rightarrow> ota_net \<Rightarrow> ota_net option" where
  "ota_task_loop ota_write handle flag resp_body_start s =
     (if flag then
        (case ota_packet ota_write handle (- 1) (\<lambda>t. t) resp_body_start s of
           None \<Rightarrow> None
         | Some (flag, resp_body_start, s) \<Rightarrow> ota_task_loop ota_write handle flag resp_body_start s)
      else Some s)"

text \<open>
  The task: \<open>part\<close> is the partition to write, whose absence stops the program (\<open>assert\<close>); a failed \<open>esp_ota_begin\<close>
  goes on with the handle 0. At the end it asks for a restart, whatever \<open>esp_ota_end\<close> and \<open>set_boot\<close> said.
\<close>

definition ota_task ::
    "'p option \<Rightarrow> ('p \<Rightarrow> u32 option) \<Rightarrow> (ota_log \<Rightarrow> int) \<Rightarrow> ota_net \<Rightarrow> ota_net option" where
  "ota_task part ota_begin ota_write s =
     (case part of
        None \<Rightarrow> None
      | Some p \<Rightarrow>
          (let update_handle = (case ota_begin p of None \<Rightarrow> 0 | Some h \<Rightarrow> h)
           in ota_task_loop ota_write update_handle True False s))"

section \<open>The end of the header\<close>

lemma read_until_hit:
  assumes "d \<notin> set l" "int (length l) < len"
  shows "read_until (l @ d # r) d len = Some (length l + 1)"
proof -
  have "read_until_from (p @ l @ d # r) d len (length p) = Some (length p + length l + 1)"
    if "d \<notin> set l" "int (length p + length l) < len" for p l
    using that
  proof (induction l arbitrary: p)
    case Nil
    then show ?case by (subst read_until_from.simps) (simp add: nth_append)
  next
    case (Cons x l)
    then show ?case using Cons.IH [of "p @ [x]"] by (subst read_until_from.simps) (auto simp: nth_append)
  qed
  from this [of l "[]"] show ?thesis using assms by (simp add: read_until_def)
qed

lemma read_until_overrun:
  assumes "d \<notin> set m" "int (length m) \<le> len"
  shows "read_until m d len = None"
proof -
  have "read_until_from m d len i = None" if "i \<le> length m" for i
    using that
  proof (induction "length m - i" arbitrary: i)
    case (Suc k)
    then have "m ! i \<noteq> d" using assms(1) nth_mem [of i m] by auto
    then show ?case using Suc assms(2) by (subst read_until_from.simps) simp
  qed (subst read_until_from.simps, simp)
  then show ?thesis by (simp add: read_until_def)
qed

text \<open>A header: lines with something in them, and the empty line.\<close>

definition header_text :: "string list \<Rightarrow> string" where
  "header_text ls = concat (map (\<lambda>l. l @ [CHR 0x0D, CHR 0x0A]) ls) @ [CHR 0x0D, CHR 0x0A]"

lemma header_loop_lines:
  assumes "on_text s = p @ header_text ls @ body @ z" "i = length p"
    and "int (length (p @ header_text ls @ body)) = total_len"
    and "\<forall>l \<in> set ls. l \<noteq> [] \<and> CHR 0x0A \<notin> set l \<and> CHR 0x00 \<notin> set l"
  shows "header_loop ota_write handle total_len i s =
    (let k = length (p @ header_text ls) in
     case copy_text k (int (length body)) (clear_write_data s) of
       None \<Rightarrow> None
     | Some s \<Rightarrow>
         (let s = write_data handle (int (length body)) s
          in if ota_write (on_log s) \<noteq> 0 then Some (False, s)
             else Some (True, s\<lparr>on_file_length := on_file_length s + int (length body)\<rparr>)))"
  using assms
proof (induction ls arbitrary: p i)
  case Nil
  have "drop i (on_text s) = [CHR 0x0D] @ CHR 0x0A # body @ z" using Nil.prems(1,2) by (simp add: header_text_def)
  then have "read_until (drop i (on_text s)) CHR 0x0A total_len = Some 2"
    using read_until_hit [of "CHR 0x0A" "[CHR 0x0D]" total_len "body @ z"] Nil.prems(3) by (simp add: header_text_def)
  moreover have "total_len - int (i + 2) = int (length body)" using Nil.prems(2,3) by (simp add: header_text_def)
  moreover have "i < length (on_text s)" "on_text s ! i = CHR 0x0D" "int i < total_len"
    using Nil.prems by (simp_all add: header_text_def)
  ultimately show ?case using Nil.prems(2)
    by (subst header_loop.simps) (simp add: header_text_def Let_def)
next
  case (Cons l ls)
  let ?h = "header_text (l # ls)"
  have h: "?h = l @ CHR 0x0D # CHR 0x0A # header_text ls" by (simp add: header_text_def)
  have l: "l \<noteq> []" "CHR 0x0A \<notin> set l" "CHR 0x00 \<notin> set l" using Cons.prems(4) by simp_all
  have "drop i (on_text s) = (l @ [CHR 0x0D]) @ CHR 0x0A # header_text ls @ body @ z" using Cons.prems(1,2) h by simp
  then have ru: "read_until (drop i (on_text s)) CHR 0x0A total_len = Some (length l + 2)"
    using read_until_hit [of "CHR 0x0A" "l @ [CHR 0x0D]" total_len "header_text ls @ body @ z"] l(2) Cons.prems(3) h by simp
  have at: "i < length (on_text s)" "on_text s ! i \<noteq> CHR 0x00" "int i < total_len"
    using Cons.prems(1-3) l h by (cases l; auto)+
  have "header_loop ota_write handle total_len i s = header_loop ota_write handle total_len (i + (length l + 2)) s"
    using ru at l(1) by (subst header_loop.simps) simp
  then show ?case
    using Cons.IH [of "p @ l @ [CHR 0x0D, CHR 0x0A]" "i + (length l + 2)"] Cons.prems h by simp
qed

text \<open>Of a packet that holds a whole header, exactly what follows the empty line is written to the flash and counted,
  and the call succeeds if the write does.\<close>

theorem read_past_header:
  assumes "on_text s = header_text ls @ body @ z" "length (on_text s) = 1025" "length (on_write_data s) = 1025"
    and "\<forall>l \<in> set ls. l \<noteq> [] \<and> CHR 0x0A \<notin> set l \<and> CHR 0x00 \<notin> set l"
    and "ok = (ota_write (on_log s @ [(handle, body)]) = 0)"
  shows "\<exists>s'. read_past_http_header ota_write handle (int (length (header_text ls @ body))) s = Some (ok, s') \<and>
    on_log s' = on_log s @ [(handle, body)] \<and> on_file_length s' = on_file_length s + (if ok then int (length body) else 0)"
proof -
  let ?n = "length (header_text ls)"
  have room: "?n + length body \<le> 1025" using arg_cong [OF assms(1), of length] assms(2) by simp
  let ?c = "clear_write_data s"
  have c: "length (on_write_data ?c) = 1025" "on_text ?c = on_text s" "on_log ?c = on_log s" "on_file_length ?c = on_file_length s"
    using assms(3) by (simp_all add: clear_write_data_def blit_def BUFFSIZE_def)
  then have "copy_text ?n (int (length body)) ?c = Some (?c\<lparr>on_write_data := blit (on_write_data ?c) 0 body\<rparr>)"
    using room assms(1) by (simp add: copy_text_def)
  moreover have "take (length body) (blit (on_write_data ?c) 0 body) = body" by (simp add: blit_def)
  ultimately show ?thesis
    using header_loop_lines [of s "[]" ls body z 0 _ ota_write handle] assms(1,4,5) c
    by (simp add: read_past_http_header_def write_data_def Let_def)
qed

theorem read_past_header_witness:
  "\<exists>s'. read_past_http_header (\<lambda>log. 0) 7 25
      \<lparr>on_write_data = replicate 1025 CHR 0x00,
       on_text = header_text [''HTTP/1.1 200 OK''] @ ''image.'' @ replicate 1000 CHR 0x00, on_file_length = 0, on_log = []\<rparr> = Some (True, s') \<and>
     on_log s' = [(7, ''image.'')]"
proof -
  let ?s = "\<lparr>on_write_data = replicate 1025 CHR 0x00,
    on_text = header_text [''HTTP/1.1 200 OK''] @ ''image.'' @ replicate 1000 CHR 0x00, on_file_length = 0, on_log = []\<rparr>"
  have l: "length (header_text [''HTTP/1.1 200 OK'']) = 19" by (simp add: header_text_def)
  show ?thesis
    using read_past_header [of ?s "[''HTTP/1.1 200 OK'']" "''image.''" "replicate 1000 CHR 0x00" True "\<lambda>log. 0" 7] l
    by auto
qed

text \<open>Of a full packet whose header is not finished, and whose last line has no end yet, the scan runs behind the
  buffer, because it is given the length of the packet and not of what is left of it.\<close>

lemma header_overrun:
  assumes "on_text u = l @ CHR 0x0A # r" "length (on_text u) = 1025" "2 \<le> length l"
    "CHR 0x0A \<notin> set (l @ r)" "CHR 0x00 \<notin> set l" "r \<noteq> []" "hd r \<noteq> CHR 0x00" "length r \<noteq> 1"
  shows "read_past_http_header ota_write handle 1024 u = None"
proof -
  have "length l + 1 + length r = 1025" "length r \<noteq> 0" using arg_cong [OF assms(1), of length] assms(2,6) by simp_all
  then have len: "length l + 1 < 1024" "length r \<le> 1024" using assms(8) by linarith+
  have "read_until (on_text u) CHR 0x0A 1024 = Some (length l + 1)"
    using read_until_hit [of "CHR 0x0A" l 1024 r] assms(1,4) len by simp
  moreover have "on_text u ! 0 \<noteq> CHR 0x00" using assms(1,3,5) by (cases l) auto
  ultimately have "header_loop ota_write handle 1024 0 u = header_loop ota_write handle 1024 (length l + 1) u"
    using assms(2,3) by (subst header_loop.simps) simp
  also have "\<dots> = None"
  proof -
    have "on_text u ! (length l + 1) \<noteq> CHR 0x00" using assms(1,6,7) by (cases r) (auto simp: nth_append)
    moreover have "drop (length l + 1) (on_text u) = r" using assms(1) by simp
    moreover have "read_until r CHR 0x0A 1024 = None" using read_until_overrun [of "CHR 0x0A" r 1024] assms(4) len by simp
    ultimately show ?thesis using assms(2) len by (subst header_loop.simps) simp
  qed
  finally show ?thesis by (simp add: read_past_http_header_def)
qed

text \<open>The task never comes to its end: nothing is received, and no error ends the loop.\<close>

lemma ota_packet_error: "\<exists>s'. ota_packet ota_write handle (- 1) recv b s = Some (True, b, s')"
  by (simp add: ota_packet_def Let_def)

theorem ota_task_never_returns: "ota_task part ota_begin ota_write s = None"
proof -
  have "\<not> flag" if "ota_task_loop ota_write handle flag b s = Some r" for ota_write handle flag b s r
  proof (rule ota_task_loop.raw_induct [where P = "\<lambda>w h flag b s r. \<not> flag", OF _ that])
    fix f ota_write handle flag b s r
    assume IH: "\<And>w h flag b s r. f w h flag b s = Some r \<Longrightarrow> \<not> flag"
      and eq: "(if flag then (case ota_packet ota_write handle (- 1) (\<lambda>t. t) b s of None \<Rightarrow> None
        | Some (flag, b, s) \<Rightarrow> f ota_write handle flag b s) else Some s) = Some r"
    obtain s' where "ota_packet ota_write handle (- 1) (\<lambda>t. t) b s = Some (True, b, s')" using ota_packet_error by blast
    then show "\<not> flag" using eq IH [of ota_write handle True b s' r] by auto
  qed
  then have "ota_task_loop ota_write handle True False s = None" for handle :: u32
    by (cases "ota_task_loop ota_write handle True False s") blast+
  then show ?thesis by (simp add: ota_task_def Let_def split: option.split)
qed

end
