(* ===== verification/DateTime.thy ===== *)
theory DateTime
  imports Noniso Serial
begin

text \<open>
  Dates and time stamps (\<open>src/main/date_time.h\<close>), with what they use of the C library: \<open>mktime\<close>,
  \<open>localtime\<close> and \<open>strftime\<close> in the time zone UTC, which is the one of the firmware since it sets
  none. A \<open>time_t\<close> is a \<open>long\<close> of 32 bits: \<open>mktime\<close> wraps around.
\<close>

unbundle bit_operations_syntax

section \<open>Calendar\<close>

record tm =
  tm_sec :: int
  tm_min :: int
  tm_hour :: int
  tm_mday :: int
  tm_mon :: int
  tm_year :: int

definition leap :: "int \<Rightarrow> bool" where
  "leap y \<longleftrightarrow> y mod 4 = 0 \<and> (y mod 100 \<noteq> 0 \<or> y mod 400 = 0)"

definition year_days :: "int \<Rightarrow> int" where
  "year_days y = (if leap y then 366 else 365)"

definition month_days :: "int \<Rightarrow> int list" where
  "month_days y = [31, if leap y then 29 else 28, 31, 30, 31, 30, 31, 31, 30, 31, 30, 31]"

text \<open>The leap days before a year, and the days from 1970 to its first of January.\<close>

definition leap_days :: "int \<Rightarrow> int" where
  "leap_days y = (y - 1) div 4 - (y - 1) div 100 + (y - 1) div 400"

definition days_to_year :: "int \<Rightarrow> int" where
  "days_to_year y = 365 * (y - 1970) + leap_days y - leap_days 1970"

text \<open>Wrapping to 32 bits.\<close>

definition long32 :: "int \<Rightarrow> int" where
  "long32 i = (i + 2 ^ 31) mod 2 ^ 32 - 2 ^ 31"

text \<open>\<open>mktime\<close> also takes fields outside their ranges.\<close>

definition tm_seconds :: "tm \<Rightarrow> int" where
  "tm_seconds t =
     (let y = tm_year t + 1900 + tm_mon t div 12;
          m = nat (tm_mon t mod 12);
          days = days_to_year y + sum_list (take m (month_days y)) + tm_mday t - 1
      in ((days * 24 + tm_hour t) * 60 + tm_min t) * 60 + tm_sec t)"

definition mktime :: "tm \<Rightarrow> int" where
  "mktime t = long32 (tm_seconds t)"

text \<open>\<open>localtime\<close> of a time from 1970 on: the year and the month are found by counting.\<close>

function (sequential) year_of :: "int \<Rightarrow> int \<Rightarrow> int \<times> int" where
  "year_of y days = (if days < year_days y then (y, days) else year_of (y + 1) (days - year_days y))"
  by pat_completeness auto
termination
  by (relation "measure (\<lambda>(y, d). nat d)") (auto simp: year_days_def split: if_splits)

declare year_of.simps [simp del]

fun month_of :: "int list \<Rightarrow> nat \<Rightarrow> int \<Rightarrow> nat \<times> int" where
  "month_of [] m days = (m, days)"
| "month_of (l # ls) m days = (if days < l then (m, days) else month_of ls (m + 1) (days - l))"

definition localtime :: "int \<Rightarrow> tm" where
  "localtime t =
     (let (y, yd) = year_of 1970 (t div 86400);
          (m, d) = month_of (month_days y) 0 yd;
          s = t mod 86400
      in \<lparr>tm_sec = s mod 60, tm_min = s div 60 mod 60, tm_hour = s div 3600, tm_mday = d + 1,
          tm_mon = int m, tm_year = y - 1900\<rparr>)"

text \<open>The conversions of \<open>strftime\<close> that the code uses; \<open>bufsize\<close> counts the terminator, and a text
  that does not fit leaves nothing usable (the empty text here).\<close>

definition two_digits :: "int \<Rightarrow> string" where
  "two_digits n = (if n < 10 then ''0'' else []) @ print_number (nat n) 10"

definition four_digits :: "int \<Rightarrow> string" where
  "four_digits n = replicate (4 - length (print_number (nat n) 10)) CHR ''0'' @ print_number (nat n) 10"

definition strftime_fit :: "nat \<Rightarrow> string \<Rightarrow> string" where
  "strftime_fit bufsize s = (if length s < bufsize then s else [])"

definition format_date :: "tm \<Rightarrow> string" where
  "format_date t = four_digits (tm_year t + 1900) @ two_digits (tm_mon t + 1) @ two_digits (tm_mday t)"

definition format_time :: "tm \<Rightarrow> string" where
  "format_time t =
     four_digits (tm_year t + 1900) @ ''-'' @ two_digits (tm_mon t + 1) @ ''-'' @ two_digits (tm_mday t) @ ''_'' @
     two_digits (tm_hour t) @ '':'' @ two_digits (tm_min t) @ '':'' @ two_digits (tm_sec t)"

section \<open>The functions of the header\<close>

text \<open>\<open>sizeof(arr)\<close> is the size of the pointer: the loop starts behind its end.\<close>

fun max_loop :: "int \<Rightarrow> int list \<Rightarrow> int" where
  "max_loop m [] = m"
| "max_loop m (x # xs) = max_loop (if x > m then x else m) xs"

definition get_max_time_stamp :: "int list \<Rightarrow> int" where
  "get_max_time_stamp arr =
     (let arr_size = 4 div 4;
          m = (if arr ! 0 > arr ! 1 then arr ! 0 else arr ! 1)
      in max_loop m (drop 2 (take arr_size arr)))"

definition tm_of_stamp :: "int \<Rightarrow> tm" where
  "tm_of_stamp tstamp =
     \<lparr>tm_sec = tstamp AND 0x2F, tm_min = drop_bit 6 tstamp AND 0x2F, tm_hour = drop_bit 12 tstamp AND 0x1F,
      tm_mday = drop_bit 17 tstamp AND 0x1F, tm_mon = (drop_bit 22 tstamp AND 0xF) - 1,
      tm_year = drop_bit 26 tstamp + 100\<rparr>"

definition str_to_timestamp :: "string \<Rightarrow> int" where
  "str_to_timestamp value = long32 (mktime (tm_of_stamp (c_strtol 16 value)) - 10800)"

text \<open>The fields of the texts are at fixed places.\<close>

definition field :: "string \<Rightarrow> nat \<Rightarrow> nat \<Rightarrow> int" where
  "field s i n = c_atol (take n (drop i s))"

definition str_date_time_to_timestamp :: "string \<Rightarrow> string \<Rightarrow> int" where
  "str_date_time_to_timestamp sdate stime =
     long32 (mktime \<lparr>tm_sec = field stime 6 2, tm_min = field stime 3 2, tm_hour = field stime 0 2,
        tm_mday = field sdate 8 2, tm_mon = field sdate 5 2, tm_year = field sdate 0 4\<rparr> + 168719744)"

text \<open>The wall clock is an argument of the functions that read it.\<close>

definition get_day_of_month :: "int \<Rightarrow> int" where
  "get_day_of_month now = tm_mday (localtime now)"

definition date_to_string :: "int \<Rightarrow> int \<Rightarrow> nat \<Rightarrow> string" where
  "date_to_string now t bufsize =
     (let t = (if t = 0 then now else t) in strftime_fit bufsize (format_date (localtime t)))"

definition DateNowAsString :: "int \<Rightarrow> string" where
  "DateNowAsString now = date_to_string now 0 9"

text \<open>\<open>mktime\<close> brings the decremented day back into the calendar.\<close>

definition yesterday_to_string :: "int \<Rightarrow> nat \<Rightarrow> string" where
  "yesterday_to_string now bufsize =
     (let tmp = localtime now;
          tmp = tmp\<lparr>tm_mday := tm_mday tmp - 1\<rparr>;
          tmp = localtime (mktime tmp)
      in strftime_fit bufsize (format_date tmp))"

definition YesterdayAsString :: "int \<Rightarrow> string" where
  "YesterdayAsString now = yesterday_to_string now 9"

definition time_to_string :: "int \<Rightarrow> int \<Rightarrow> nat \<Rightarrow> string" where
  "time_to_string now t bufsize =
     (let t = (if t = 0 then now else t) in strftime_fit bufsize (format_time (localtime t)))"

definition local_time_to_string :: "int \<Rightarrow> nat \<Rightarrow> string" where
  "local_time_to_string now bufsize = strftime_fit bufsize (format_time (localtime now))"

definition coffee_time_to_string :: "int \<Rightarrow> string \<Rightarrow> string" where
  "coffee_time_to_string now data =
     ''DT'' @ data @ ''('' @ time_to_string now (long32 (str_to_timestamp data + 10800)) 20 @ '')''"

section \<open>Lemmas\<close>

lemma div_step: "y div k - (y - 1) div k = (if y mod k = 0 then 1 else 0)" if "0 < k" for y k :: int
proof -
  define q r where "q = y div k" and "r = y mod k"
  have y: "y = k * q + r" unfolding q_def r_def by (rule mult_div_mod_eq [symmetric])
  have b: "0 \<le> r" "r < k" unfolding r_def using that by (rule pos_mod_sign, rule pos_mod_bound)
  show ?thesis
  proof (cases "r = 0")
    case True
    have "y - 1 = k * (q - 1) + (k - 1)" using y True by (simp add: right_diff_distrib)
    then have "(y - 1) div k = q - 1" by (rule int_div_pos_eq) (use that in simp_all)
    then show ?thesis using True unfolding q_def [symmetric] r_def [symmetric] by simp
  next
    case False
    have "y - 1 = k * q + (r - 1)" using y by simp
    then have "(y - 1) div k = q" by (rule int_div_pos_eq) (use b False in simp_all)
    then show ?thesis using False unfolding q_def [symmetric] r_def [symmetric] by simp
  qed
qed

lemma leap_days_Suc: "leap_days (y + 1) - leap_days y = (if leap y then 1 else 0)"
proof -
  have regroup: "a - b + c - (a' - b' + c') = (a - a') - (b - b') + (c - c')" for a b c a' b' c' :: int by simp
  have "leap_days (y + 1) - leap_days y =
      (if y mod 4 = 0 then 1 else 0) - (if y mod 100 = 0 then 1 else 0) + (if y mod 400 = 0 then 1 else 0)"
    unfolding leap_days_def add_diff_cancel_right' regroup div_step [OF zero_less_numeral] ..
  moreover have "y mod 100 = 0" if "y mod 400 = 0"
    using mod_mod_cancel [of 100 400 y] that by simp
  moreover have "y mod 4 = 0" if "y mod 100 = 0"
    using mod_mod_cancel [of 4 100 y] that by simp
  ultimately show ?thesis unfolding leap_def
    by (cases "y mod 400 = 0"; cases "y mod 100 = 0"; cases "y mod 4 = 0") simp_all
qed

lemma days_to_year_Suc: "days_to_year (y + 1) = days_to_year y + year_days y"
  using leap_days_Suc [of y] by (simp add: days_to_year_def year_days_def split: if_splits)

lemma year_days_pos: "0 < year_days y"
  by (simp add: year_days_def)

lemma year_of_days:
  "year_of y d = (y', r) \<Longrightarrow> 0 \<le> d \<Longrightarrow> days_to_year y' + r = days_to_year y + d \<and> 0 \<le> r \<and> r < year_days y'"
proof (induction y d rule: year_of.induct)
  case (1 y d)
  show ?case
  proof (cases "d < year_days y")
    case True
    then show ?thesis using "1.prems" by (subst (asm) year_of.simps) simp
  next
    case False
    then have "year_of (y + 1) (d - year_days y) = (y', r)" using "1.prems" by (subst (asm) year_of.simps) simp
    then show ?thesis using "1.IH" [OF False] False by (simp add: days_to_year_Suc)
  qed
qed

lemma sum_month_days: "sum_list (month_days y) = year_days y"
  by (simp add: month_days_def year_days_def)

lemma month_of_days:
  "month_of ls m d = (m', r) \<Longrightarrow> 0 \<le> d \<Longrightarrow> d < sum_list ls \<Longrightarrow>
   \<exists>k < length ls. m' = m + k \<and> sum_list (take k ls) + r = d \<and> 0 \<le> r \<and> r < ls ! k"
proof (induction ls m d rule: month_of.induct)
  case (2 l ls m d)
  show ?case
  proof (cases "d < l")
    case True
    then show ?thesis using "2.prems" by (intro exI [of _ 0]) auto
  next
    case False
    then obtain k where "k < length ls" "m' = m + 1 + k" "sum_list (take k ls) + r = d - l" "0 \<le> r" "r < ls ! k"
      using "2.IH" "2.prems" by auto
    then show ?thesis by (intro exI [of _ "Suc k"]) auto
  qed
qed simp

lemma clock_parts:
  "(((t div 86400) * 24 + t mod 86400 div 3600) * 60 + t mod 86400 div 60 mod 60) * 60 + t mod 86400 mod 60 = t"
  for t :: int
proof -
  define s q where "s = t mod 86400" and "q = t div 86400"
  define m where "m = s div 60"
  define h a b where "h = m div 60" and "a = m mod 60" and "b = s mod 60"
  have h: "s div 3600 = h" using zdiv_zmult2_eq [of 60 s 60] by (simp add: m_def h_def)
  have "m = 60 * h + a" by (simp add: h_def a_def)
  moreover have "s = 60 * m + b" by (simp add: m_def b_def)
  moreover have "t = 86400 * q + s" by (simp add: s_def q_def)
  ultimately have "((q * 24 + h) * 60 + a) * 60 + b = t" by (simp add: algebra_simps)
  then show ?thesis
    unfolding s_def [symmetric] q_def [symmetric] h m_def [symmetric] a_def [symmetric] b_def [symmetric] .
qed

text \<open>\<open>mktime\<close> inverts \<open>localtime\<close>.\<close>

lemma tm_seconds_localtime:
  assumes "0 \<le> t"
  shows "tm_seconds (localtime t) = t"
proof -
  obtain y yd where y: "year_of 1970 (t div 86400) = (y, yd)" by fastforce
  obtain m d where m: "month_of (month_days y) 0 yd = (m, d)" by fastforce
  have yd: "days_to_year y + yd = t div 86400" "0 \<le> yd" "yd < year_days y"
    using year_of_days [OF y] assms by (auto simp: days_to_year_def)
  then obtain k where k: "k < 12" "m = k" "sum_list (take k (month_days y)) + d = yd"
    using month_of_days [OF m] by (auto simp: sum_month_days) (auto simp: month_days_def)
  have div: "int k div 12 = 0" "int k mod 12 = int k" using k(1) by simp_all
  have days: "days_to_year y + sum_list (take k (month_days y)) + (d + 1) - 1 = t div 86400" using k yd by simp
  have "tm_seconds (localtime t) =
      (((days_to_year y + sum_list (take k (month_days y)) + (d + 1) - 1) * 24 + t mod 86400 div 3600) * 60 +
        t mod 86400 div 60 mod 60) * 60 + t mod 86400 mod 60"
    by (simp only: localtime_def y m tm_seconds_def Let_def prod.case tm.simps k(2) div nat_int diff_add_cancel add_0_right)
  then show ?thesis unfolding days clock_parts .
qed

lemma long32_id: "- (2 ^ 31) \<le> i \<Longrightarrow> i < 2 ^ 31 \<Longrightarrow> long32 i = i"
  by (simp add: long32_def)

lemma mktime_day_before:
  assumes "86400 \<le> t" and "t < 2 ^ 31"
  shows "mktime ((localtime t)\<lparr>tm_mday := tm_mday (localtime t) - 1\<rparr>) = t - 86400"
proof -
  have "tm_seconds ((localtime t)\<lparr>tm_mday := tm_mday (localtime t) - 1\<rparr>) = tm_seconds (localtime t) - 86400"
    by (simp add: tm_seconds_def Let_def)
  then show ?thesis using assms tm_seconds_localtime [of t] by (simp add: mktime_def long32_id)
qed

section \<open>Properties\<close>

text \<open>The name of yesterday's file is the name that the current file had a day before, across the
  ends of months and years; and the normalisation behind it is exact: \<open>mktime\<close> inverts \<open>localtime\<close>.\<close>

theorem yesterday_is_day_before:
  assumes "86400 \<le> t" and "t < 2 ^ 31"
  shows "YesterdayAsString t = DateNowAsString (t - 86400) \<and> mktime (localtime t) = t"
  using mktime_day_before [OF assms] tm_seconds_localtime [of t] assms
  by (simp add: YesterdayAsString_def yesterday_to_string_def DateNowAsString_def date_to_string_def mktime_def long32_id Let_def)

theorem yesterday_is_day_before_witness:
  "YesterdayAsString 1551398400 = DateNowAsString 1551312000 \<and> mktime (localtime 1551398400) = 1551398400"
  using yesterday_is_day_before [of 1551398400] by simp

text \<open>Of the array of time stamps only the first two count, since the size of the pointer is taken for
  the size of the array: the result is their maximum, and a later stamp never matters.\<close>

theorem max_time_stamp_two: "get_max_time_stamp (a # b # stamps) = max a b"
  by (simp add: get_max_time_stamp_def)

end
