(* ===== verification/Water.thy ===== *)
theory Water
  imports Prelude
begin

text \<open>
  The water sensor (\<open>src/main/water_sensor.h\<close> and its use in the loop of \<open>src/main/main.cpp\<close>): a
  ring of samples filled by a timer and by the main task, and their average. The value of the
  analogue input is an argument. An access outside the array and a division by zero are \<open>None\<close>.
\<close>

section \<open>Operations\<close>

definition PPM_TIMEOUT_READ :: nat where "PPM_TIMEOUT_READ = 600000"
definition PPM_TIMEOUT_SEND :: nat where "PPM_TIMEOUT_SEND = 24000000"
definition PPM_COUNT :: nat where "PPM_COUNT = PPM_TIMEOUT_SEND div PPM_TIMEOUT_READ + 1"
definition MAX_VOLTAGE :: int where "MAX_VOLTAGE = 4095"

record water =
  has_water_sensor :: bool
  water_current_item :: nat
  current_middle_water_value :: int
  ppms :: "int list"
  send_ppm :: bool

fun middle_loop :: "int \<Rightarrow> int \<Rightarrow> int list \<Rightarrow> int \<times> int" where
  "middle_loop acc items [] = (acc, items)"
| "middle_loop acc items (p # ps) =
     (if p \<noteq> 0 then middle_loop (acc + p) (items + 1) ps else middle_loop acc items ps)"

definition middle_sum_array :: "'a water_scheme \<Rightarrow> int option" where
  "middle_sum_array w =
     (let (acc, items) = middle_loop 0 0 (take PPM_COUNT (ppms w));
          acc = (if acc < 0 then acc * (- 1) else acc)
      in if items = 0 then None else Some (acc div items))"

definition read_ppm :: "int \<Rightarrow> 'a water_scheme \<Rightarrow> 'a water_scheme option" where
  "read_ppm analog w =
     (let w = w\<lparr>has_water_sensor := True\<rparr>
      in if water_current_item w < length (ppms w)
         then Some (w\<lparr>ppms := (ppms w)[water_current_item w := MAX_VOLTAGE - analog],
                      water_current_item := water_current_item w + 1\<rparr>)
         else None)"

definition get_water_quality_value :: "'a water_scheme \<Rightarrow> int option" where
  "get_water_quality_value w = middle_sum_array w"

text \<open>What the timer does when the array is full, and the main task as well.\<close>

definition finish_round :: "'a water_scheme \<Rightarrow> 'a water_scheme option" where
  "finish_round w =
     map_option (\<lambda>v. w\<lparr>current_middle_water_value := v, water_current_item := 0, send_ppm := True\<rparr>)
       (get_water_quality_value w)"

definition vTimerPPMCallback :: "int \<Rightarrow> 'a water_scheme \<Rightarrow> 'a water_scheme option" where
  "vTimerPPMCallback analog w =
     (if water_current_item w < PPM_COUNT then read_ppm analog w else finish_round w)"

text \<open>The level of pin 34 and the value of pin 32 are arguments; the result says whether the timer is
  to be created.\<close>

definition setup_water_quality_pins :: "bool \<Rightarrow> int \<Rightarrow> 'a water_scheme \<Rightarrow> bool \<times> 'a water_scheme" where
  "setup_water_quality_pins level34 analog w =
     (let w = w\<lparr>has_water_sensor := \<not> level34\<rparr>
      in if has_water_sensor w then (True, w\<lparr>current_middle_water_value := MAX_VOLTAGE - analog\<rparr>)
         else (False, w))"

section \<open>One task\<close>

definition water_ok :: "'a water_scheme \<Rightarrow> bool" where
  "water_ok w \<longleftrightarrow> length (ppms w) = PPM_COUNT \<and> water_current_item w \<le> PPM_COUNT"

lemma read_ppm_ok:
  "water_ok w \<Longrightarrow> water_current_item w < PPM_COUNT \<Longrightarrow> \<exists>w'. read_ppm v w = Some w' \<and> water_ok w'"
  by (simp add: read_ppm_def water_ok_def Let_def)

lemma finish_round_ok: "water_ok w \<Longrightarrow> finish_round w = Some w' \<Longrightarrow> water_ok w'"
  by (auto simp: finish_round_def water_ok_def)

lemma middle_loop_bounds:
  assumes "list_all (\<lambda>p. 0 \<le> p \<and> p \<le> m) ps" and "0 \<le> acc" and "acc \<le> m * items" and "0 \<le> items"
    and "middle_loop acc items ps = (s, n)"
  shows "0 \<le> s \<and> s \<le> m * n \<and> items \<le> n \<and> (n = items \<longleftrightarrow> list_all (\<lambda>p. p = 0) ps)"
  using assms
proof (induction acc items ps rule: middle_loop.induct)
  case (2 acc items p ps)
  show ?case
  proof (cases "p = 0")
    case False
    have m: "acc + p \<le> m * (items + 1)" using "2.prems" by (simp add: distrib_left)
    have "0 \<le> s \<and> s \<le> m * n \<and> items + 1 \<le> n \<and> (n = items + 1 \<longleftrightarrow> list_all (\<lambda>p. p = 0) ps)"
      using "2.IH"(1) [OF False] "2.prems" False m by simp
    then show ?thesis using False by auto
  qed (use 2 in simp)
qed auto

definition sample_water :: water where
  "sample_water = \<lparr>has_water_sensor = True, water_current_item = 0, current_middle_water_value = 0,
    ppms = replicate PPM_COUNT 0, send_ppm = False\<rparr>"

section \<open>Several tasks\<close>

text \<open>
  The timer and the main task test the index and store the sample without a lock, and \<open>read_ppm\<close>
  sleeps for three seconds in between. A task is idle or has passed the test.
\<close>

datatype sampler = Idle | Sampling

inductive water_run :: "nat \<Rightarrow> sampler list \<Rightarrow> water \<Rightarrow> bool" for n where
  boot: "length (ppms w) = PPM_COUNT \<Longrightarrow> water_current_item w = 0 \<Longrightarrow> water_run n (replicate n Idle) w"
| pass: "water_run n pcs w \<Longrightarrow> i < n \<Longrightarrow> pcs ! i = Idle \<Longrightarrow> water_current_item w < PPM_COUNT \<Longrightarrow>
    water_run n (pcs[i := Sampling]) w"
| store: "water_run n pcs w \<Longrightarrow> i < n \<Longrightarrow> pcs ! i = Sampling \<Longrightarrow> read_ppm v w = Some w' \<Longrightarrow>
    water_run n (pcs[i := Idle]) w'"
| full: "water_run n pcs w \<Longrightarrow> i < n \<Longrightarrow> pcs ! i = Idle \<Longrightarrow> \<not> water_current_item w < PPM_COUNT \<Longrightarrow>
    finish_round w = Some w' \<Longrightarrow> water_run n pcs w'"

inductive_cases water_runE: "water_run n pcs w"

lemma water_run_one:
  "water_run 1 pcs w \<Longrightarrow>
    length pcs = 1 \<and> water_ok w \<and> (pcs ! 0 = Sampling \<longrightarrow> water_current_item w < PPM_COUNT)"
proof (induction pcs w rule: water_run.induct)
  case (store pcs w i v w')
  then have "i = 0" "water_ok w" "water_current_item w < PPM_COUNT" by auto
  from read_ppm_ok [OF this(2,3)] obtain w'' where "read_ppm v w = Some w''" "water_ok w''" by blast
  then show ?case using store by auto
next
  case (full pcs w i w')
  then have "i = 0" and "water_ok w'" using finish_round_ok by blast+
  then show ?case using full by simp
qed (auto simp: water_ok_def)

text \<open>The index of the state after \<open>k\<close> samples of the first task.\<close>

lemma water_run_samples:
  assumes "k \<le> PPM_COUNT"
  shows "\<exists>w. water_run 2 [Idle, Idle] w \<and> water_ok w \<and> water_current_item w = k"
  using assms
proof (induction k)
  case 0
  have "water_run 2 (replicate 2 Idle) sample_water" by (rule water_run.boot) (simp_all add: sample_water_def)
  then show ?case by (auto simp: numeral_2_eq_2 water_ok_def sample_water_def intro!: exI [of _ sample_water])
next
  case (Suc k)
  then obtain w where w: "water_run 2 [Idle, Idle] w" "water_ok w" "water_current_item w = k" by auto
  then have "water_run 2 ([Idle, Idle][0 := Sampling]) w" using Suc.prems by (intro water_run.pass) auto
  moreover obtain w' where w': "read_ppm 0 w = Some w'" "water_ok w'"
    using read_ppm_ok [OF w(2)] w(3) Suc.prems by force
  ultimately have "water_run 2 ([Idle, Idle][0 := Sampling, 0 := Idle]) w'" by (intro water_run.store) auto
  moreover have "water_current_item w' = Suc k" using w'(1) w(3) by (auto simp: read_ppm_def Let_def split: if_splits)
  ultimately show ?case using w'(2) by auto
qed

section \<open>Properties\<close>

text \<open>The average of samples between 0 and the maximal voltage lies in the same range; there is none,
  and the division fails, exactly when every sample is 0.\<close>

theorem water_average_range:
  assumes "length (ppms w) = PPM_COUNT" and "list_all (\<lambda>p. 0 \<le> p \<and> p \<le> MAX_VOLTAGE) (ppms w)"
  shows "case middle_sum_array w of
      None \<Rightarrow> list_all (\<lambda>p. p = 0) (ppms w)
    | Some v \<Rightarrow> 0 \<le> v \<and> v \<le> MAX_VOLTAGE \<and> \<not> list_all (\<lambda>p. p = 0) (ppms w)"
proof -
  obtain s n where l: "middle_loop 0 0 (ppms w) = (s, n)" by fastforce
  have b: "0 \<le> s" "s \<le> MAX_VOLTAGE * n" "0 \<le> n" "n = 0 \<longleftrightarrow> list_all (\<lambda>p. p = 0) (ppms w)"
    using middle_loop_bounds [OF assms(2) _ _ _ l] by auto
  show ?thesis
  proof (cases "n = 0")
    case True
    then show ?thesis using b l assms(1) by (simp add: middle_sum_array_def)
  next
    case False
    then have n: "0 < n" using b by simp
    have "s div n \<le> MAX_VOLTAGE * n div n" using b(2) n by (rule zdiv_mono1)
    then have "s div n \<le> MAX_VOLTAGE" using n by simp
    then show ?thesis using b l False assms(1) by (simp add: middle_sum_array_def pos_imp_zdiv_nonneg_iff)
  qed
qed

theorem water_average_range_witness:
  "case middle_sum_array sample_water of
      None \<Rightarrow> list_all (\<lambda>p. p = 0) (ppms sample_water)
    | Some v \<Rightarrow> 0 \<le> v \<and> v \<le> MAX_VOLTAGE \<and> \<not> list_all (\<lambda>p. p = 0) (ppms sample_water)"
  by (rule water_average_range) (simp_all add: sample_water_def list_all_iff MAX_VOLTAGE_def)



end
