(* ===== verification/Disk.thy ===== *)
theory Disk
  imports Noniso "HOL-Library.Monad_Syntax"
begin

text \<open>
  The memory card (\<open>src/main/sd_tools.h\<close>) and the file functions of the C library that the
  firmware uses on it. A file is a text under its path; which files can be opened for writing, and
  what mounting gives, are the environment's. The \<open>run\<close> type is the result of the functions that may
  restart the processor.
\<close>

section \<open>Functions that may restart the processor\<close>

text \<open>\<open>Reboot\<close> is \<open>esp_restart\<close>, or \<open>abort\<close>, which ends in a restart too; \<open>Stuck\<close> is a call that
  never returns or an access outside a buffer.\<close>

datatype ('a, 's) run = Ret 'a 's | Reboot 's | Stuck

fun then_run :: "('a, 's) run \<Rightarrow> ('a \<Rightarrow> 's \<Rightarrow> ('b, 's) run) \<Rightarrow> ('b, 's) run" where
  "then_run (Ret x s) f = f x s"
| "then_run (Reboot s) f = Reboot s"
| "then_run Stuck f = Stuck"

definition run_option :: "('a \<times> 's) option \<Rightarrow> ('a, 's) run" where
  "run_option r = (case r of None \<Rightarrow> Stuck | Some (x, s) \<Rightarrow> Ret x s)"

lemma then_run_Ret: "then_run r f = Ret y s' \<longleftrightarrow> (\<exists>x s. r = Ret x s \<and> f x s = Ret y s')"
  by (cases r) auto

lemma then_run_assoc: "then_run (then_run r f) g = then_run r (\<lambda>x s. then_run (f x s) g)"
  by (cases r) simp_all

lemma then_run_Reboot:
  "then_run r f = Reboot s' \<longleftrightarrow> r = Reboot s' \<or> (\<exists>x s. r = Ret x s \<and> f x s = Reboot s')"
  by (cases r) auto

text \<open>What holds when a run returns, and what holds when it restarts.\<close>

fun run_wp :: "('a \<Rightarrow> 's \<Rightarrow> bool) \<Rightarrow> ('s \<Rightarrow> bool) \<Rightarrow> ('a, 's) run \<Rightarrow> bool" where
  "run_wp Q R (Ret x s) = Q x s"
| "run_wp Q R (Reboot s) = R s"
| "run_wp Q R Stuck = True"

lemma run_wp_then [simp]: "run_wp Q R (then_run r f) = run_wp (\<lambda>x s. run_wp Q R (f x s)) R r"
  by (cases r) simp_all

lemma run_wp_mono:
  "run_wp Q R r \<Longrightarrow> (\<And>x s. Q x s \<Longrightarrow> Q' x s) \<Longrightarrow> (\<And>s. R s \<Longrightarrow> R' s) \<Longrightarrow> run_wp Q' R' r"
  by (cases r) auto

lemma run_wp_option: "run_wp Q R (run_option r) \<longleftrightarrow> (\<forall>x s. r = Some (x, s) \<longrightarrow> Q x s)"
  by (cases r) (auto simp: run_option_def split: prod.splits)

lemma run_option_Ret [simp]: "run_option r = Ret x s \<longleftrightarrow> r = Some (x, s)"
  by (cases r) (auto simp: run_option_def split: prod.splits)

lemma run_option_Reboot [simp]: "run_option r \<noteq> Reboot s"
  by (cases r) (auto simp: run_option_def split: prod.splits)

section \<open>Files\<close>

record disk =
  d_files :: "string \<Rightarrow> string option"
  d_dirs :: "string list"
  d_open :: "string \<Rightarrow> bool"
  has_sd_card :: bool

definition newline :: char where "newline = CHR 0x0A"

text \<open>The directory of a path.\<close>

definition dir_of :: "string \<Rightarrow> string" where
  "dir_of fn = rev (drop 1 (dropWhile (\<lambda>c. c \<noteq> CHR ''/'') (rev fn)))"

definition can_write :: "string \<Rightarrow> 'a disk_scheme \<Rightarrow> bool" where
  "can_write fn d \<longleftrightarrow> d_open d fn \<and> dir_of fn \<in> set (d_dirs d)"

text \<open>Opening for appending, writing and closing; opening anew, writing and closing. The flag says
  whether the file could be opened.\<close>

definition append_file :: "string \<Rightarrow> string \<Rightarrow> 'a disk_scheme \<Rightarrow> bool \<times> 'a disk_scheme" where
  "append_file fn t d =
     (if can_write fn d
      then (True, d\<lparr>d_files := (d_files d)(fn := Some ((case d_files d fn of None \<Rightarrow> [] | Some c \<Rightarrow> c) @ t))\<rparr>)
      else (False, d))"

definition create_file :: "string \<Rightarrow> string \<Rightarrow> 'a disk_scheme \<Rightarrow> bool \<times> 'a disk_scheme" where
  "create_file fn t d =
     (if can_write fn d then (True, d\<lparr>d_files := (d_files d)(fn := Some t)\<rparr>) else (False, d))"

text \<open>\<open>rename\<close> fails when the new name exists, as it does on a FAT file system.\<close>

definition rename_file :: "string \<Rightarrow> string \<Rightarrow> 'a disk_scheme \<Rightarrow> 'a disk_scheme" where
  "rename_file old nw d =
     (case (d_files d old, d_files d nw) of
        (Some c, None) \<Rightarrow> d\<lparr>d_files := (d_files d)(old := None, nw := Some c)\<rparr>
      | _ \<Rightarrow> d)"

definition remove_file :: "string \<Rightarrow> 'a disk_scheme \<Rightarrow> bool \<times> 'a disk_scheme" where
  "remove_file fn d =
     (if d_files d fn \<noteq> None then (True, d\<lparr>d_files := (d_files d)(fn := None)\<rparr>) else (False, d))"

definition stat_ok :: "string \<Rightarrow> 'a disk_scheme \<Rightarrow> bool" where
  "stat_ok path d \<longleftrightarrow> d_files d path \<noteq> None \<or> path \<in> set (d_dirs d)"

definition make_dir :: "string \<Rightarrow> 'a disk_scheme \<Rightarrow> 'a disk_scheme" where
  "make_dir path d =
     (if d_open d path \<and> dir_of path \<in> set (d_dirs d) then d\<lparr>d_dirs := path # d_dirs d\<rparr> else d)"

text \<open>\<open>fgets(line, Suc n, f)\<close>: at most \<open>n\<close> characters, and no further than the end of the line.\<close>

fun fgets_take :: "nat \<Rightarrow> string \<Rightarrow> string \<times> string" where
  "fgets_take 0 s = ([], s)"
| "fgets_take (Suc n) [] = ([], [])"
| "fgets_take (Suc n) (c # s) =
     (if c = newline then ([c], s) else (let (a, b) = fgets_take n s in (c # a, b)))"

lemma fgets_take_append: "fgets_take n s = (a, b) \<Longrightarrow> s = a @ b"
  by (induction n s arbitrary: a b rule: fgets_take.induct) (auto split: if_splits prod.splits)

lemma fgets_take_Nil: "fgets_take (Suc n) s = (a, b) \<Longrightarrow> a = [] \<longleftrightarrow> s = []"
  by (cases s) (auto split: if_splits prod.splits)

text \<open>The lines that a loop over \<open>fgets(line, 256, f)\<close> sees.\<close>

function (sequential) fgets_lines :: "string \<Rightarrow> string list" where
  "fgets_lines [] = []"
| "fgets_lines (c # s) = (case fgets_take 255 (c # s) of (a, b) \<Rightarrow> a # fgets_lines b)"
  by pat_completeness auto
termination
proof (relation "measure length", simp)
  fix c s a b
  assume "(a, b) = fgets_take 255 (c # s)"
  then have ab: "fgets_take (Suc 254) (c # s) = (a, b)" by simp
  then have "c # s = a @ b" "a \<noteq> []"
    using fgets_take_append fgets_take_Nil by (fastforce, blast)
  then have "length (c # s) = length a + length b" "0 < length a" by simp_all
  then show "(b, c # s) \<in> measure length" by simp
qed

lemma fgets_take_line:
  "newline \<notin> set l \<Longrightarrow> length l < n \<Longrightarrow> fgets_take n (l @ newline # s) = (l @ [newline], s)"
proof (induction l arbitrary: n)
  case Nil
  then show ?case by (cases n) auto
next
  case (Cons c l)
  then show ?case by (cases n) auto
qed

lemma fgets_lines_line:
  assumes "newline \<notin> set l" and "length l < 255"
  shows "fgets_lines (l @ newline # s) = (l @ [newline]) # fgets_lines s"
  using fgets_take_line [OF assms, of s] by (cases l) simp_all

section \<open>sd_tools.h\<close>

definition ESP_OK :: int where "ESP_OK = 0"

definition error_description :: "int \<Rightarrow> string" where
  "error_description err_code =
     (if err_code = 0x101 then ''NO MEMORY''
      else if err_code = 0x102 then ''INVALID ARGUMENT''
      else if err_code = 0x103 then ''INVALID STATE''
      else if err_code = 0x104 then ''INVALID SIZE''
      else if err_code = 0x105 then ''NOT FOUND''
      else if err_code = 0x106 then ''NOT SUPPORTED''
      else if err_code = 0x107 then ''TIMEOUT''
      else if err_code = 0x108 then ''INVALID RESPONSE''
      else if err_code = 0x109 then ''INVALID CRC''
      else if err_code = 0x10A then ''INVALID VERSION''
      else if err_code = 0x10B then ''INVALID MAC''
      else ''UNKNOWN ERROR'')"

text \<open>The settings for the card.\<close>

record sd_config =
  max_freq_khz :: nat
  gpio_miso :: nat
  gpio_mosi :: nat
  gpio_sck :: nat
  gpio_cs :: nat
  format_if_mount_failed :: bool
  max_files :: nat
  allocation_unit_size :: nat

definition init_spi :: "'a sd_config_scheme \<Rightarrow> 'a sd_config_scheme" where
  "init_spi c = c\<lparr>max_freq_khz := 400, gpio_miso := 19, gpio_mosi := 23, gpio_sck := 18, gpio_cs := 5,
     format_if_mount_failed := True, max_files := 33, allocation_unit_size := 128\<rparr>"

definition file_size :: "string \<Rightarrow> int" where
  "file_size content = int (length content)"

definition sd_create_binary_file :: "string \<Rightarrow> string \<Rightarrow> 'a disk_scheme \<Rightarrow> 'a disk_scheme" where
  "sd_create_binary_file fn data d = snd (create_file fn (c_str data @ [newline]) d)"

definition system_file_name :: string where "system_file_name = ''/sdcard/system.inf''"

definition sd_create_system_info :: "string \<Rightarrow> 'a disk_scheme \<Rightarrow> 'a disk_scheme" where
  "sd_create_system_info data d = snd (create_file system_file_name (c_str data @ [newline]) d)"

text \<open>The result of mounting is an argument.\<close>

definition check_sd_card :: "int \<Rightarrow> 'a disk_scheme \<Rightarrow> bool \<times> 'a disk_scheme" where
  "check_sd_card ret d =
     (let d = d\<lparr>has_sd_card := (ret = ESP_OK)\<rparr> in (has_sd_card d, d))"

end
