(* ===== verification/NvsFat.thy ===== *)
theory NvsFat
  imports Disk DateTime
begin

text \<open>
  The files on the FAT partition of the flash (\<open>src/main/nvsfat.h\<close>), with the file functions of \<open>Disk\<close>. What mounting
  answers, whether unmounting succeeds, the version of the SDK and the time are arguments; the debug output is left out, except for the
  line that \<open>nvsfat_test\<close> reads back, which is its result.
\<close>

section \<open>State and operations\<close>

record nvsfat = disk +
  nf_mounted :: bool
  ptr_nvs_file :: "string option"

definition nvs_base_path :: string where
  "nvs_base_path = ''/db''"

definition nvs_file_path :: string where
  "nvs_file_path = ''/db/nvs.txt''"

definition nvs_mount :: "bool \<Rightarrow> nvsfat \<Rightarrow> nvsfat" where
  "nvs_mount mount_ok s = (if mount_ok then s\<lparr>nf_mounted := True\<rparr> else s)"

text \<open>Opening: without a mounted partition no file is found and none can be made.\<close>

definition open_write :: "string \<Rightarrow> nvsfat \<Rightarrow> bool" where
  "open_write fn s \<longleftrightarrow> nf_mounted s \<and> can_write fn s"

definition strip_newline :: "string \<Rightarrow> string" where
  "strip_newline l = takeWhile (\<lambda>c. c \<noteq> newline) l"

text \<open>
  \<open>nvsfat_test\<close>; its own file pointer hides the global one. \<open>ESP_ERROR_CHECK\<close> stops the program when unmounting fails.
\<close>

definition nvsfat_test :: "bool \<Rightarrow> bool \<Rightarrow> string \<Rightarrow> int \<Rightarrow> nvsfat \<Rightarrow> (string option, nvsfat) run" where
  "nvsfat_test mount_ok unmount_ok version now s =
     (if \<not> mount_ok then Ret None s
      else
        (let s = nvs_mount True s;
             fn = ''/db/'' @ DateNowAsString now @ ''.txt''
         in if \<not> open_write fn s then Ret None s
            else
              (let s = snd (create_file fn (''written using ESP-IDF '' @ version @ [newline]) s)
               in case d_files s fn of
                    None \<Rightarrow> Ret None s
                  | Some t \<Rightarrow>
                      (let line = fst (fgets_take 127 t);
                           line = strip_newline line;
                           s = s\<lparr>nf_mounted := False\<rparr>
                       in if unmount_ok then Ret (Some line) s else Reboot s))))"

text \<open>\<open>nvsfat_begin\<close> opens the file for reading and writing, or makes it; the mode is not kept in the model.\<close>

definition nvsfat_begin :: "bool \<Rightarrow> nvsfat \<Rightarrow> nvsfat" where
  "nvsfat_begin mount_ok s =
     (let s = nvs_mount mount_ok s
      in if nf_mounted s \<and> d_files s nvs_file_path \<noteq> None \<and> can_write nvs_file_path s
         then s\<lparr>ptr_nvs_file := Some nvs_file_path\<rparr>
         else if open_write nvs_file_path s
         then (snd (create_file nvs_file_path [] s))\<lparr>ptr_nvs_file := Some nvs_file_path\<rparr>
         else s\<lparr>ptr_nvs_file := None\<rparr>)"

section \<open>Properties\<close>

lemma fgets_first_line:
  "newline \<notin> set l \<Longrightarrow> fst (fgets_take n (l @ [newline])) = take n (l @ [newline])"
  by (induction l arbitrary: n; case_tac n) (auto split: prod.split simp: prod_eq_iff)

lemma strip_take_line: "newline \<notin> set l \<Longrightarrow> strip_newline (take n (l @ [newline])) = take n l"
  by (induction l arbitrary: n; case_tac n) (auto simp: strip_newline_def)

text \<open>The test reads back what it wrote, cut after 127 characters, and unmounts; if the file cannot be opened,
  the partition stays mounted.\<close>

theorem nvsfat_test_reads_back:
  assumes "newline \<notin> set version" and "fn = ''/db/'' @ DateNowAsString now @ ''.txt''"
  shows "nvsfat_test True True version now s =
    (if can_write fn s
     then Ret (Some (take 127 (''written using ESP-IDF '' @ version)))
            (s\<lparr>nf_mounted := False, d_files := (d_files s)(fn \<mapsto> ''written using ESP-IDF '' @ version @ [newline])\<rparr>)
     else Ret None (s\<lparr>nf_mounted := True\<rparr>))"
proof -
  let ?l = "''written using ESP-IDF '' @ version"
  have nl: "newline \<notin> set ?l" using assms(1) by (simp add: newline_def)
  show ?thesis using fgets_first_line [OF nl, of 127] strip_take_line [OF nl, of 127] assms(2)
    by (simp add: nvsfat_test_def nvs_mount_def open_write_def can_write_def create_file_def Let_def)
qed

end
