(* ===== verification/Firmware.thy ===== *)
theory Firmware
  imports Sim800Net DateTime Disk Water
begin

text \<open>
  The state of the firmware and the functions of \<open>src/main/gsm_tools.h\<close>: what is sent to the server
  over the modem driver, and the restart after a network error.

  The state extends that of the driver by the global variables of \<open>src/main/main.h\<close> and the headers
  it includes. The key-value store of the SDK, which is not part of the sources, is an argument
  (\<open>nvs_api\<close>). Environment fields: \<open>s_sem\<close> is what the other task has done to the semaphore when
  this task looks at a time, \<open>s_cleared\<close> whether the other task has finished the pending download by
  a time, \<open>s_mem\<close> what an uninitialised variable holds at a time and \<open>s_heap\<close> the memory behind a
  buffer.
\<close>

section \<open>State\<close>

record 'n nvs_api =
  nvs_set_str :: "string \<Rightarrow> string \<Rightarrow> 'n \<Rightarrow> int \<times> 'n"
  nvs_get_str :: "string \<Rightarrow> nat \<Rightarrow> 'n \<Rightarrow> int \<times> nat \<times> string"
  nvs_set_i32 :: "string \<Rightarrow> int \<Rightarrow> 'n \<Rightarrow> int \<times> 'n"
  nvs_get_i32 :: "string \<Rightarrow> 'n \<Rightarrow> int \<times> int"
  nvs_erase_key :: "string \<Rightarrow> 'n \<Rightarrow> int \<times> 'n"
  nvs_erase_all :: "'n \<Rightarrow> int \<times> 'n"
  nvs_commit :: "'n \<Rightarrow> int \<times> 'n"
  nvs_flash_init :: "'n \<Rightarrow> int \<times> 'n"
  nvs_flash_erase :: "'n \<Rightarrow> int \<times> 'n"
  nvs_open :: "'n \<Rightarrow> int \<times> 'n"

record 'n app = sim800 +
  a_nvs :: 'n
  hnvs :: bool
  a_disk :: disk
  a_water :: water
  a_clock :: int
  sem_free :: bool
  s_sem :: "nat \<Rightarrow> bool option"
  s_cleared :: "nat \<Rightarrow> bool"
  s_mem :: "nat \<Rightarrow> nat"
  s_heap :: string
  s_analog :: "nat \<Rightarrow> int"
  id_controller :: string
  current_data_file_name :: string
  gsm_no_problem :: bool
  download_firmware :: bool
  nvs_data_counter :: int
  global_current_day :: int
  last_time_stamp :: int
  last_time_stamp_sended :: int
  start_point_time_stamp_dbm_signal :: int
  start_point_time_stamp_check_db_sync :: int
  time_stamp_reboot_gsm :: int

definition http_critical_status :: u16 where "http_critical_status = 599"
definition default_current_time_stamp :: int where "default_current_time_stamp = 1530729865"
definition FIRMWARE_VERSION :: string where "FIRMWARE_VERSION = ''000003''"
definition REMOTE_HOST :: string where "REMOTE_HOST = ''ya.ru''"
definition WEB_URL_API :: string where "WEB_URL_API = ''http://'' @ REMOTE_HOST @ ''/api''"

text \<open>The wall clock: \<open>a_clock\<close> is its value in milliseconds at the start.\<close>

definition get_time_stamp :: "('n, 'a) app_scheme \<Rightarrow> int" where
  "get_time_stamp s = long32 ((a_clock s + int (w_now s)) div 1000)"

definition set_time_stamp :: "int \<Rightarrow> ('n, 'a) app_scheme \<Rightarrow> ('n, 'a) app_scheme" where
  "set_time_stamp t s = s\<lparr>a_clock := t * 1000 - int (w_now s)\<rparr>"

definition uninit :: "('n, 'a) app_scheme \<Rightarrow> nat" where
  "uninit s = s_mem s (w_now s)"

text \<open>The semaphore shared with the other task: taking it without waiting, and giving it.\<close>

definition sem_level :: "('n, 'a) app_scheme \<Rightarrow> bool" where
  "sem_level s = (case s_sem s (w_now s) of None \<Rightarrow> sem_free s | Some b \<Rightarrow> b)"

definition sem_take :: "('n, 'a) app_scheme \<Rightarrow> bool \<times> ('n, 'a) app_scheme" where
  "sem_take s = (sem_level s, s\<lparr>sem_free := False\<rparr>)"

definition sem_give :: "('n, 'a) app_scheme \<Rightarrow> ('n, 'a) app_scheme" where
  "sem_give s = s\<lparr>sem_free := True\<rparr>"

partial_function (option) sem_wait :: "nat \<Rightarrow> ('n, 'a) app_scheme \<Rightarrow> ('n, 'a) app_scheme option" where
  "sem_wait ms s = (let (ok, s) = sem_take s in if ok then Some s else sem_wait ms (task_delay ms s))"

declare sem_wait.simps [code]

section \<open>gsm_tools.h\<close>

definition gsm_restart :: "'n nvs_api \<Rightarrow> ('n, 'a) app_scheme \<Rightarrow> (unit, ('n, 'a) app_scheme) run" where
  "gsm_restart api s =
     (let s = (if last_time_stamp_sended s < default_current_time_stamp + 1
               then s\<lparr>last_time_stamp_sended := default_current_time_stamp + 2\<rparr> else s)
      in case sem_wait 1000 s of
           None \<Rightarrow> Stuck
         | Some s \<Rightarrow>
             (let (err, n) = nvs_set_i32 api ''timestamp'' (get_time_stamp s) (a_nvs s);
                  n = (if err = ESP_OK then snd (nvs_commit api n) else n)
              in Reboot (sem_give (s\<lparr>a_nvs := n\<rparr>))))"

definition data_type :: "string \<Rightarrow> string" where
  "data_type data =
     (case data of
        [] \<Rightarrow> ''data''
      | c # _ \<Rightarrow>
          if c = CHR ''B'' then ''beverage''
          else if c = CHR ''I'' then ''beverage''
          else if c = CHR ''D'' then (if c_strstr (c_str data) ''D30'' \<noteq> None then ''counter'' else ''data'')
          else ''data'')"

definition gsm_send_water_quality_via_http :: "int \<Rightarrow> ('n, 'a) app_scheme \<Rightarrow> ('n, 'a) app_scheme" where
  "gsm_send_water_quality_via_http v s =
     snd (HTTP_get (WEB_URL_API @ ''/water_control/'' @ id_controller s @ ''|'' @ String_int v) (of_nat (uninit s)) s)"

text \<open>The answer of the server in the buffer of 16 bytes.\<close>

definition answer_accepted :: "string \<Rightarrow> bool" where
  "answer_accepted data =
     (let buffer = c_str ((data @ replicate (16 - length data) CHR 0x00)[15 := CHR 0x00])
      in buffer = ''1'' \<or> c_strstr buffer ''Record exist'' \<noteq> None)"

definition gsm_post :: "string \<Rightarrow> string \<Rightarrow> ('n, 'a) app_scheme \<Rightarrow> (u16, ('n, 'a) app_scheme) run" where
  "gsm_post url data s = run_option (HTTP_post url data (of_nat (length data)) s)"

text \<open>What follows a request with the status 200: reading the answer.\<close>

definition gsm_read_answer :: "'n nvs_api \<Rightarrow> ('n, 'a) app_scheme \<Rightarrow> (bool, ('n, 'a) app_scheme) run" where
  "gsm_read_answer api s =
     (let (result_read, buffer, s) = HTTP_read 16 (of_nat (uninit s)) s
      in then_run (if result_read = - 1 then gsm_restart api s else Ret () s)
           (\<lambda>_. Ret (answer_accepted buffer)))"

definition gsm_send_http ::
    "'n nvs_api \<Rightarrow> string \<Rightarrow> string \<Rightarrow> ('n, 'a) app_scheme \<Rightarrow> (bool, ('n, 'a) app_scheme) run" where
  "gsm_send_http api data ty s =
     (let url = WEB_URL_API @ ''/'' @ (if ty \<noteq> [] then ty else data_type data)
      in then_run (gsm_post url data s) (\<lambda>status s.
        if status > http_critical_status then
          then_run (gsm_post url data s) (\<lambda>status s.
            if status > http_critical_status then then_run (gsm_restart api s) (\<lambda>_. Ret False)
            else Ret False s)
        else if status = 200 then gsm_read_answer api s
        else Ret False s))"

definition gsm_read_time_from_http :: "'n nvs_api \<Rightarrow> ('n, 'a) app_scheme \<Rightarrow> (int, ('n, 'a) app_scheme) run" where
  "gsm_read_time_from_http api s =
     (let (result_read, data, s) = HTTP_read 16 (of_nat (uninit s)) s
      in then_run (if result_read = - 1 then gsm_restart api s else Ret () s) (\<lambda>_ s.
           Ret (if result_read > 9
                then c_atol (data @ replicate (16 - length data) CHR 0x00 @ s_heap s) else 0) s))"

definition gsm_get_time_from_http :: "'n nvs_api \<Rightarrow> ('n, 'a) app_scheme \<Rightarrow> (int, ('n, 'a) app_scheme) run" where
  "gsm_get_time_from_http api s =
     (let url = WEB_URL_API @ ''/timestamp'';
          (status, s) = HTTP_get url (of_nat (uninit s)) s;
          s = task_delay 3000 s
      in if status > http_critical_status then
           (let (status, s) = HTTP_get url (of_nat (uninit s)) s
            in if status > http_critical_status then then_run (gsm_restart api s) (\<lambda>_. Ret 0)
               else gsm_read_time_from_http api s)
         else if status = 37 \<or> status = 200 then gsm_read_time_from_http api s
         else Ret 0 s)"

definition gsm_has_firmware_from_http :: "('n, 'a) app_scheme \<Rightarrow> bool \<times> ('n, 'a) app_scheme" where
  "gsm_has_firmware_from_http s =
     (let (status, s) = HTTP_get (WEB_URL_API @ ''/firmware/'' @ FIRMWARE_VERSION @ ''/'' @ id_controller s @ ''.bin'')
            (of_nat (uninit s)) s
      in (status = 200 \<or> status = 602, s))"

text \<open>\<open>fread\<close> in pieces of the size of the buffer, each sent over the connection.\<close>

function (sequential) send_file_loop :: "string \<Rightarrow> int \<Rightarrow> ('n, 'a) app_scheme \<Rightarrow> int \<times> ('n, 'a) app_scheme" where
  "send_file_loop file accepted s =
     (if file = [] then (accepted, s)
      else
        (let buf = take GSM_MAX_BUFFSIZE file;
             (ok, accepted, s) = sim_send buf (length buf) accepted 0 s
         in if \<not> ok then (accepted, s) else send_file_loop (drop GSM_MAX_BUFFSIZE file) accepted s))"
  by pat_completeness auto
termination
  by (relation "measure (\<lambda>(f, a, s). length f)") (auto simp: GSM_MAX_BUFFSIZE_def)

declare send_file_loop.simps [simp del]

definition db_file_name :: "string \<Rightarrow> string" where
  "db_file_name date = ''/sdcard/db/'' @ date @ ''.txt''"

text \<open>The clock of \<open>date_time.h\<close> in seconds.\<close>

definition clock_now :: "('n, 'a) app_scheme \<Rightarrow> int" where
  "clock_now s = get_time_stamp s"

definition gsm_tcp_send_file :: "(u16 \<Rightarrow> string) \<Rightarrow> ('n, 'a) app_scheme \<Rightarrow> ('n, 'a) app_scheme" where
  "gsm_tcp_send_file junk s =
     (let s = s\<lparr>current_data_file_name := db_file_name (DateNowAsString (clock_now s))\<rparr>
      in case d_files (a_disk s) (current_data_file_name s) of
           None \<Rightarrow> s
         | Some file \<Rightarrow>
             (let (ok, s) = sim_connect ''node2.service-pb.ru'' 11111 5000 0 junk s
              in if \<not> ok then s
                 else
                   (let (ok, s) = sim_status ''CONNECTED'' 0 s;
                        s = (if ok then snd (send_file_loop file 0 s) else s)
                    in snd (sim_disconnect 0 s))))"

end
