(* ===== verification/Db.thy ===== *)
theory Db
  imports Firmware StrTools
begin

text \<open>
  The files of records on the memory card (\<open>src/main/db.h\<close>): a record is a line of the file of the
  day; the file of the day before is sent to the server and renamed.
\<close>

section \<open>Operations\<close>

definition db_dir :: "('n, 'a) app_scheme \<Rightarrow> ('n, 'a) app_scheme" where
  "db_dir s = (if stat_ok ''/db'' (a_disk s) then s else s\<lparr>a_disk := make_dir ''/sdcard/db'' (a_disk s)\<rparr>)"

definition today_name :: "('n, 'a) app_scheme \<Rightarrow> ('n, 'a) app_scheme" where
  "today_name s = s\<lparr>current_data_file_name := db_file_name (DateNowAsString (clock_now s))\<rparr>"

definition db_size :: "('n, 'a) app_scheme \<Rightarrow> nat \<times> ('n, 'a) app_scheme" where
  "db_size s =
     (let s = today_name s
      in case d_files (a_disk s) (current_data_file_name s) of
           None \<Rightarrow> (0, s)
         | Some file \<Rightarrow> (length (filter (\<lambda>line. c_str line \<noteq> []) (fgets_lines file)), s))"

text \<open>Opening for appending creates an empty file.\<close>

definition db_file_open :: "('n, 'a) app_scheme \<Rightarrow> bool \<times> ('n, 'a) app_scheme" where
  "db_file_open s =
     (if has_sd_card (a_disk s) then
        (let s = today_name (db_dir s);
             (ok, d) = append_file (current_data_file_name s) [] (a_disk s)
         in (ok, s\<lparr>a_disk := d\<rparr>))
      else (False, s))"

definition db_write_record :: "string \<Rightarrow> ('n, 'a) app_scheme \<Rightarrow> ('n, 'a) app_scheme" where
  "db_write_record data s =
     (let s = today_name (db_dir s)
      in s\<lparr>a_disk := snd (append_file (current_data_file_name s) (c_str data @ [newline]) (a_disk s))\<rparr>)"

text \<open>A line is sent again, after a second, as long as it is not accepted; \<open>n\<close> more times.\<close>

fun send_tries :: "'n nvs_api \<Rightarrow> string \<Rightarrow> nat \<Rightarrow> ('n, 'a) app_scheme \<Rightarrow> (bool, ('n, 'a) app_scheme) run" where
  "send_tries api line n s =
     then_run (gsm_send_http api (line @ ''|'' @ id_controller s) [] s) (\<lambda>ok s.
       case n of
         0 \<Rightarrow> Ret ok s
       | Suc m \<Rightarrow> if ok then Ret ok s else send_tries api line m (task_delay 1000 s))"

declare send_tries.simps [simp del]

fun sync_lines :: "'n nvs_api \<Rightarrow> string list \<Rightarrow> ('n, 'a) app_scheme \<Rightarrow> (unit, ('n, 'a) app_scheme) run" where
  "sync_lines api [] s = Ret () s"
| "sync_lines api (l # ls) s =
     (case clear_string (c_str l @ [CHR 0x00]) of
        None \<Rightarrow> Stuck
      | Some b \<Rightarrow>
          if c_str b = [] then sync_lines api ls s
          else then_run (send_tries api (c_str b) 3 s) (\<lambda>_ s. sync_lines api ls s))"

definition syn_file_name :: "string \<Rightarrow> string" where
  "syn_file_name date = ''/sdcard/db/'' @ date @ ''.syn''"

definition db_sync :: "'n nvs_api \<Rightarrow> ('n, 'a) app_scheme \<Rightarrow> (unit, ('n, 'a) app_scheme) run" where
  "db_sync api s =
     (let current_day = get_day_of_month (clock_now s)
      in if global_current_day s \<noteq> current_day then
           (let fn = db_file_name (YesterdayAsString (clock_now s))
            in then_run
                 (case d_files (a_disk s) fn of
                    None \<Rightarrow> Ret () s
                  | Some file \<Rightarrow> then_run (sync_lines api (fgets_lines file) s) (\<lambda>_ s.
                      Ret () (s\<lparr>a_disk := rename_file fn (syn_file_name (YesterdayAsString (clock_now s))) (a_disk s)\<rparr>)))
                 (\<lambda>_ s. Ret () (s\<lparr>global_current_day := current_day\<rparr>)))
         else Ret () s)"

end
