(* ===== verification/Firmware_Main.thy ===== *)
theory Firmware_Main
  imports Db
begin

text \<open>
  The tasks of the firmware (\<open>src/main/main.cpp\<close>, \<open>src/main/main.h\<close>): boot, the key-value store, the
  loop that sends the stored records and the messages about the device, and the update from the memory
  card. The body of an endless loop is a function of its own.
\<close>

section \<open>The key-value store\<close>

definition NVS_MAX_DATA_COUNTER :: nat where "NVS_MAX_DATA_COUNTER = 100"
definition CCI_BUF_SIZE :: nat where "CCI_BUF_SIZE = 128"
definition ESP_ERR_NVS_NOT_ENOUGH_SPACE :: int where "ESP_ERR_NVS_NOT_ENOUGH_SPACE = 0x1105"
definition ESP_ERR_NVS_PAGE_FULL :: int where "ESP_ERR_NVS_PAGE_FULL = 0x110A"
definition ESP_ERR_NVS_NO_FREE_PAGES :: int where "ESP_ERR_NVS_NO_FREE_PAGES = 0x110D"

definition nvs_data_save :: "'n nvs_api \<Rightarrow> string \<Rightarrow> ('n, 'a) app_scheme \<Rightarrow> ('n, 'a) app_scheme" where
  "nvs_data_save api data s =
     (if \<not> hnvs s then s
      else
        (let (err, n) = nvs_set_str api (String_int (nvs_data_counter s)) data (a_nvs s);
             (err, n, c) =
               (if err = ESP_ERR_NVS_NOT_ENOUGH_SPACE \<or> err = ESP_ERR_NVS_PAGE_FULL
                then (case nvs_set_str api ''0'' data n of (err, n) \<Rightarrow> (err, n, 0))
                else (err, n, nvs_data_counter s))
         in if err = ESP_OK then
              (let c = (if c = int NVS_MAX_DATA_COUNTER then 0 else c + 1);
                   (err, n) = nvs_set_i32 api ''data_counter'' c n;
                   n = (if err = ESP_OK then snd (nvs_commit api n) else n)
               in s\<lparr>a_nvs := n, nvs_data_counter := c\<rparr>)
            else s\<lparr>a_nvs := n, nvs_data_counter := c\<rparr>))"

definition nvs_check_timestamp :: "'n nvs_api \<Rightarrow> int \<Rightarrow> bool \<Rightarrow> ('n, 'a) app_scheme \<Rightarrow> ('n, 'a) app_scheme" where
  "nvs_check_timestamp api checked save s =
     (if \<not> hnvs s then s
      else
        (let (err, v) = nvs_get_i32 api ''timestamp'' (a_nvs s);
             current = (if err \<noteq> ESP_OK then default_current_time_stamp else v);
             current = (if current < checked \<or> checked > default_current_time_stamp then checked else current);
             s = set_time_stamp current s;
             (err, n) = nvs_set_i32 api ''timestamp'' current (a_nvs s);
             n = (if save \<and> err = ESP_OK then snd (nvs_commit api n) else n)
         in s\<lparr>a_nvs := n\<rparr>))"

text \<open>\<open>ESP_ERROR_CHECK\<close> aborts on an error.\<close>

definition esp_check :: "int \<Rightarrow> 's \<Rightarrow> (unit, 's) run" where
  "esp_check err s = (if err = ESP_OK then Ret () s else Reboot s)"

definition nvs_first_init :: "'n nvs_api \<Rightarrow> int \<Rightarrow> ('n, 'a) app_scheme \<Rightarrow> (unit, ('n, 'a) app_scheme) run" where
  "nvs_first_init api checked s =
     (let (err, n) = nvs_flash_init api (a_nvs s);
          s = s\<lparr>a_nvs := n\<rparr>
      in then_run
           (if err = ESP_ERR_NVS_NO_FREE_PAGES then
              (let (e, n) = nvs_flash_erase api (a_nvs s)
               in then_run (esp_check e (s\<lparr>a_nvs := n\<rparr>)) (\<lambda>_ s.
                    let (err, n) = nvs_flash_init api (a_nvs s) in Ret err (s\<lparr>a_nvs := n\<rparr>)))
            else Ret err s)
           (\<lambda>err s. then_run (esp_check err s) (\<lambda>_ s.
              let (err, n) = nvs_open api (a_nvs s);
                  s = s\<lparr>a_nvs := n, hnvs := (err = ESP_OK \<or> hnvs s)\<rparr>
              in if err = ESP_OK then
                   (let (err, n) = nvs_erase_all api (a_nvs s);
                        n = (if err = ESP_OK then snd (nvs_commit api n) else n);
                        s = nvs_check_timestamp api checked True (s\<lparr>a_nvs := n\<rparr>);
                        (err, v) = nvs_get_i32 api ''data_counter'' (a_nvs s);
                        s = (if err \<noteq> ESP_OK
                             then s\<lparr>a_nvs := snd (nvs_set_i32 api ''data_counter'' (nvs_data_counter s) (a_nvs s))\<rparr>
                             else s\<lparr>nvs_data_counter := v\<rparr>)
                    in Ret () (s\<lparr>a_nvs := snd (nvs_commit api (a_nvs s))\<rparr>))
                 else Ret () s)))"

text \<open>A turn of the task that saves the time.\<close>

definition save_time_turn :: "'n nvs_api \<Rightarrow> ('n, 'a) app_scheme \<Rightarrow> ('n, 'a) app_scheme" where
  "save_time_turn api s =
     (let s = task_delay 600000 s
      in if hnvs s then
           (let (err, n) = nvs_set_i32 api ''timestamp'' (get_time_stamp s) (a_nvs s)
            in s\<lparr>a_nvs := (if err \<noteq> ESP_OK then n else snd (nvs_commit api n))\<rparr>)
         else s)"

section \<open>The name of the device\<close>

text \<open>\<open>sprintf("%02X")\<close> of a byte.\<close>

definition hex_digit_upper :: "nat \<Rightarrow> char" where
  "hex_digit_upper n = ''0123456789ABCDEF'' ! n"

definition hex_02X :: "u8 \<Rightarrow> string" where
  "hex_02X b = [hex_digit_upper (unat b div 16), hex_digit_upper (unat b mod 16)]"

text \<open>The address, if it can be read, is an argument.\<close>

definition generate_id :: "u8 list option \<Rightarrow> ('n, 'a) app_scheme \<Rightarrow> ('n, 'a) app_scheme" where
  "generate_id mac s =
     s\<lparr>id_controller := id_controller s @
        (case mac of Some m \<Rightarrow> concat (map hex_02X (take 6 m)) | None \<Rightarrow> ''NONAME'')\<rparr>"

section \<open>Messages about the device\<close>

definition check_timestamp_from_http :: "'n nvs_api \<Rightarrow> ('n, 'a) app_scheme \<Rightarrow> (int, ('n, 'a) app_scheme) run" where
  "check_timestamp_from_http api s =
     then_run (gsm_get_time_from_http api s) (\<lambda>t s.
       let time_array = [t, get_time_stamp s, default_current_time_stamp, last_time_stamp_sended s, last_time_stamp s];
           s = s\<lparr>last_time_stamp_sended := get_max_time_stamp time_array\<rparr>;
           s = nvs_check_timestamp api (last_time_stamp_sended s) True s
       in Ret (last_time_stamp_sended s) s)"

definition gsm_reboot :: "('n, 'a) app_scheme \<Rightarrow> (unit, ('n, 'a) app_scheme) run" where
  "gsm_reboot s =
     then_run (run_option (gsm_init (snd (shutdown True (snd (sim_disconnect 0 s))))))
       (\<lambda>ok s. Ret () (s\<lparr>gsm_no_problem := ok\<rparr>))"

text \<open>The other task clears the flag when it has tried the download.\<close>

definition download_pending :: "('n, 'a) app_scheme \<Rightarrow> bool" where
  "download_pending s \<longleftrightarrow> download_firmware s \<and> \<not> s_cleared s (w_now s)"

fun wait_download :: "nat \<Rightarrow> ('n, 'a) app_scheme \<Rightarrow> ('n, 'a) app_scheme" where
  "wait_download 0 s = s"
| "wait_download (Suc n) s = (if download_pending s then wait_download n (task_delay 60000 s) else s)"

definition gsm_send_signal :: "'n nvs_api \<Rightarrow> bool \<Rightarrow> ('n, 'a) app_scheme \<Rightarrow> (unit, ('n, 'a) app_scheme) run" where
  "gsm_send_signal api get_local s =
     (let s = (if get_local then s\<lparr>last_time_stamp := get_time_stamp s\<rparr> else s)
      in if long32 (last_time_stamp s - start_point_time_stamp_dbm_signal s) > 30 then
           then_run
             (if \<not> gsm_no_problem s
              then Ret () (s\<lparr>start_point_time_stamp_dbm_signal := last_time_stamp s\<rparr>)
              else then_run (check_timestamp_from_http api s) (\<lambda>t s.
                let s = s\<lparr>start_point_time_stamp_dbm_signal := t\<rparr>
                in then_run (gsm_send_http api
                     (''GSM_'' @ String_int (gsm_rssi s * 10 + gsm_ber s) @ ''_dBm|'' @ String_int t @ ''|'' @ id_controller s)
                     ''sys'' s) (\<lambda>_ s.
                   Ret () (if start_point_time_stamp_dbm_signal s > last_time_stamp_sended s
                     then s\<lparr>last_time_stamp_sended := start_point_time_stamp_dbm_signal s\<rparr> else s))))
             (\<lambda>_ s.
                let (firmware, s) = gsm_has_firmware_from_http s;
                    s = wait_download 15 (s\<lparr>download_firmware := firmware\<rparr>)
                in if download_pending s then Reboot s else Ret () s)
         else Ret () s)"

definition stamp_and_id :: "('n, 'a) app_scheme \<Rightarrow> string" where
  "stamp_and_id s = ''|'' @ String_int (get_time_stamp s) @ ''|'' @ id_controller s"

definition gsm_send_firmware_version :: "'n nvs_api \<Rightarrow> ('n, 'a) app_scheme \<Rightarrow> (unit, ('n, 'a) app_scheme) run" where
  "gsm_send_firmware_version api s =
     then_run (gsm_send_http api (''FIRMWARE_'' @ FIRMWARE_VERSION @ stamp_and_id s) ''sys'' s) (\<lambda>_. Ret ())"

text \<open>The answer of the modem goes into a buffer of 20 bytes.\<close>

definition gsm_send_imei :: "'n nvs_api \<Rightarrow> ('n, 'a) app_scheme \<Rightarrow> (unit, ('n, 'a) app_scheme) run" where
  "gsm_send_imei api s =
     (let (ok, imei, s) = IMEI [] s
      in if length imei \<ge> 20 then Stuck
         else if ok then then_run (gsm_send_http api (''IMEI_'' @ imei @ stamp_and_id s) ''sys'' s) (\<lambda>_. Ret ())
         else Ret () s)"

definition gsm_send_id_sim_card :: "'n nvs_api \<Rightarrow> ('n, 'a) app_scheme \<Rightarrow> (unit, ('n, 'a) app_scheme) run" where
  "gsm_send_id_sim_card api s =
     (let (ok, cimi, s) = CIMI [] s
      in if length cimi \<ge> 20 then Stuck
         else if ok then then_run (gsm_send_http api (''SIM_'' @ cimi @ stamp_and_id s) ''sys'' s) (\<lambda>_. Ret ())
         else Ret () s)"

definition gsm_send_location :: "'n nvs_api \<Rightarrow> ('n, 'a) app_scheme \<Rightarrow> (unit, ('n, 'a) app_scheme) run" where
  "gsm_send_location api s =
     then_run (run_option (map_option (\<lambda>(ok, f, s). ((ok, f), s)) (location (int (uninit s)) ([], [], [], []) s)))
       (\<lambda>(ok, lat, lon, dt, tm) s.
          if \<not> ok then Ret () s
          else then_run (gsm_send_http api
                 (''LOCATION_'' @ lat @ '','' @ lon @ '','' @ dt @ '','' @ tm @ stamp_and_id s) ''sys'' s)
            (\<lambda>_ s.
               let s = s\<lparr>last_time_stamp_sended :=
                     str_date_time_to_timestamp (dt @ CHR 0x00 # s_heap s) (tm @ CHR 0x00 # s_heap s)\<rparr>;
                   s = s\<lparr>last_time_stamp := get_time_stamp s\<rparr>
               in Ret ()
                 (if last_time_stamp_sended s > last_time_stamp s
                  then nvs_check_timestamp api (last_time_stamp_sended s) True s
                  else if last_time_stamp_sended s < last_time_stamp s
                  then s\<lparr>last_time_stamp_sended := last_time_stamp s\<rparr> else s)))"

end
