(* ===== verification/NvsStore.thy ===== *)
theory NvsStore
  imports Firmware_Main
begin

text \<open>
  What the firmware may assume of the key-value store of the SDK, as its header \<open>nvs.h\<close> documents it,
  and a store that behaves so, on which the properties are instantiated.
\<close>

section \<open>The documented behaviour\<close>

text \<open>
  \<open>str n\<close> gives the texts of a store. A write that reports success has taken place and one that reports
  an error has changed nothing; reading gives the text, and its length with the terminator, when it fits
  and an error otherwise; numbers under other keys and a commit do not touch the texts.
\<close>

definition nvs_texts :: "'n nvs_api \<Rightarrow> ('n \<Rightarrow> string \<Rightarrow> string option) \<Rightarrow> bool" where
  "nvs_texts api str \<longleftrightarrow>
     (\<forall>k t n. str (snd (nvs_set_str api k t n)) =
        (if fst (nvs_set_str api k t n) = ESP_OK then (str n)(k := Some (c_str t)) else str n)) \<and>
     (\<forall>k len n. case str n k of
        None \<Rightarrow> fst (nvs_get_str api k len n) \<noteq> ESP_OK
      | Some t \<Rightarrow> if length t < len then nvs_get_str api k len n = (ESP_OK, length t + 1, t)
          else fst (nvs_get_str api k len n) \<noteq> ESP_OK) \<and>
     (\<forall>k v n j. j \<noteq> k \<longrightarrow> str (snd (nvs_set_i32 api k v n)) j = str n j) \<and>
     (\<forall>k n. str (snd (nvs_erase_key api k n)) =
        (if fst (nvs_erase_key api k n) = ESP_OK then (str n)(k := None) else str n)) \<and>
     (\<forall>n. str (snd (nvs_commit api n)) = str n)"

lemma nvs_set_strD:
  assumes "nvs_texts api str"
  shows "str (snd (nvs_set_str api k t n)) =
    (if fst (nvs_set_str api k t n) = ESP_OK then (str n)(k := Some (c_str t)) else str n)"
  using assms unfolding nvs_texts_def by blast

lemma nvs_get_strD:
  assumes "nvs_texts api str"
  shows "str n k = None \<Longrightarrow> fst (nvs_get_str api k len n) \<noteq> ESP_OK"
    and "str n k = Some t \<Longrightarrow> length t < len \<Longrightarrow> nvs_get_str api k len n = (ESP_OK, length t + 1, t)"
    and "str n k = Some t \<Longrightarrow> \<not> length t < len \<Longrightarrow> fst (nvs_get_str api k len n) \<noteq> ESP_OK"
proof -
  have g: "case str n k of
        None \<Rightarrow> fst (nvs_get_str api k len n) \<noteq> ESP_OK
      | Some t \<Rightarrow> if length t < len then nvs_get_str api k len n = (ESP_OK, length t + 1, t)
          else fst (nvs_get_str api k len n) \<noteq> ESP_OK"
    using assms unfolding nvs_texts_def by blast
  show "str n k = None \<Longrightarrow> fst (nvs_get_str api k len n) \<noteq> ESP_OK"
    "str n k = Some t \<Longrightarrow> length t < len \<Longrightarrow> nvs_get_str api k len n = (ESP_OK, length t + 1, t)"
    "str n k = Some t \<Longrightarrow> \<not> length t < len \<Longrightarrow> fst (nvs_get_str api k len n) \<noteq> ESP_OK"
    using g by simp_all
qed

lemma nvs_set_i32D: "nvs_texts api str \<Longrightarrow> j \<noteq> k \<Longrightarrow> str (snd (nvs_set_i32 api k v n)) j = str n j"
  unfolding nvs_texts_def by blast

lemma nvs_erase_keyD:
  assumes "nvs_texts api str"
  shows "str (snd (nvs_erase_key api k n)) =
    (if fst (nvs_erase_key api k n) = ESP_OK then (str n)(k := None) else str n)"
  using assms unfolding nvs_texts_def by blast

lemma nvs_commitD: "nvs_texts api str \<Longrightarrow> str (snd (nvs_commit api n)) = str n"
  unfolding nvs_texts_def by blast

section \<open>A store\<close>

record store =
  st_str :: "string \<Rightarrow> string option"
  st_num :: "string \<Rightarrow> int option"

definition map_nvs :: "store nvs_api" where
  "map_nvs =
     \<lparr>nvs_set_str = (\<lambda>k t n. (ESP_OK, n\<lparr>st_str := (st_str n)(k := Some (c_str t))\<rparr>)),
      nvs_get_str = (\<lambda>k len n. case st_str n k of
          None \<Rightarrow> (0x1102, len, [])
        | Some t \<Rightarrow> if length t < len then (ESP_OK, length t + 1, t) else (0x110C, length t + 1, [])),
      nvs_set_i32 = (\<lambda>k v n. (ESP_OK, n\<lparr>st_num := (st_num n)(k := Some v), st_str := (st_str n)(k := None)\<rparr>)),
      nvs_get_i32 = (\<lambda>k n. case st_num n k of None \<Rightarrow> (0x1102, 0) | Some v \<Rightarrow> (ESP_OK, v)),
      nvs_erase_key = (\<lambda>k n. (if st_str n k = None \<and> st_num n k = None then 0x1102 else ESP_OK,
          n\<lparr>st_str := (st_str n)(k := None), st_num := (st_num n)(k := None)\<rparr>)),
      nvs_erase_all = (\<lambda>n. (ESP_OK, n\<lparr>st_str := \<lambda>_. None, st_num := \<lambda>_. None\<rparr>)),
      nvs_commit = (\<lambda>n. (ESP_OK, n)),
      nvs_flash_init = (\<lambda>n. (ESP_OK, n)),
      nvs_flash_erase = (\<lambda>n. (ESP_OK, n\<lparr>st_str := \<lambda>_. None, st_num := \<lambda>_. None\<rparr>)),
      nvs_open = (\<lambda>n. (ESP_OK, n))\<rparr>"

lemma map_nvs_texts: "nvs_texts map_nvs st_str"
  by (auto simp: nvs_texts_def map_nvs_def ESP_OK_def fun_eq_iff split: option.split)

definition sample_store :: "(string \<Rightarrow> string option) \<Rightarrow> store" where
  "sample_store t = \<lparr>st_str = t, st_num = (\<lambda>_. None)\<rparr>"

text \<open>A state of the firmware with a given store and files, and a silent modem.\<close>

definition sample_app :: "store \<Rightarrow> disk \<Rightarrow> store app" where
  "sample_app n d =
     \<lparr>w_now = 0, w_in = [], w_out = [], s_poll = 1, s_ps = (\<lambda>_. False), s_pins = [], serial_worked = True,
      gsm_rssi = 20, gsm_ber = 0, urc_status = 0, s_apn = None, s_user = None, s_pass = None, current_operator = 0,
      a_nvs = n, hnvs = True, a_disk = d,
      a_water = \<lparr>has_water_sensor = False, water_current_item = 0, current_middle_water_value = 0,
        ppms = replicate PPM_COUNT 0, send_ppm = True\<rparr>,
      a_clock = 1551398400000, sem_free = True, s_sem = (\<lambda>_. None), s_cleared = (\<lambda>_. False), s_mem = (\<lambda>_. 0),
      s_heap = [], s_analog = (\<lambda>_. 0), id_controller = ''GSM'', current_data_file_name = [], gsm_no_problem = True,
      download_firmware = False, nvs_data_counter = 0, global_current_day = 0, last_time_stamp = 0,
      last_time_stamp_sended = 0, start_point_time_stamp_dbm_signal = 0, start_point_time_stamp_check_db_sync = 0,
      time_stamp_reboot_gsm = 0\<rparr>"

definition sample_disk :: disk where
  "sample_disk = \<lparr>d_files = (\<lambda>_. None), d_dirs = [''/sdcard/db''], d_open = (\<lambda>_. True), has_sd_card = True\<rparr>"

end
