(* ===== verification/Firmware_Loop.thy ===== *)
theory Firmware_Loop
  imports Firmware_Main
begin

text \<open>
  The loops of the two tasks and the boot (\<open>src/main/main.cpp\<close>), and the update from the memory card
  (\<open>src/main/main.h\<close>). The flashing interface is an argument, as in \<open>Sim800Net\<close>.
\<close>

section \<open>The loop that empties the store\<close>

record sync_locals =
  time_counter :: int
  water_counter :: int
  required_size :: nat

text \<open>The part for the water sensor. Reading a sample takes three seconds.\<close>

definition water_turn ::
    "sync_locals \<Rightarrow> ('n, 'a) app_scheme \<Rightarrow> (sync_locals, ('n, 'a) app_scheme) run" where
  "water_turn l s =
     (if \<not> gsm_no_problem s \<or> \<not> has_water_sensor (a_water s) then Ret l s
      else
        (let s = (if send_ppm (a_water s)
                  then gsm_send_water_quality_via_http (current_middle_water_value (a_water s))
                         (s\<lparr>a_water := (a_water s)\<lparr>send_ppm := False\<rparr>\<rparr>)
                  else s)
         in if water_counter l > 1000 then
              (if water_current_item (a_water s) < PPM_COUNT then
                 (let s = task_delay 1000 (task_delay 2000 s)
                  in case read_ppm (s_analog s (w_now s)) (a_water s) of
                       None \<Rightarrow> Stuck
                     | Some w \<Rightarrow> Ret (l\<lparr>water_counter := 1\<rparr>) (s\<lparr>a_water := w\<rparr>))
               else
                 (case finish_round (a_water s) of
                    None \<Rightarrow> Stuck
                  | Some w \<Rightarrow> Ret (l\<lparr>water_counter := 1\<rparr>) (s\<lparr>a_water := w\<rparr>)))
            else Ret (l\<lparr>water_counter := water_counter l + 1\<rparr>) s))"

definition full_record :: "string \<Rightarrow> ('n, 'a) app_scheme \<Rightarrow> string" where
  "full_record data s = data @ ''|'' @ id_controller s"

text \<open>Up to three more attempts, five seconds after the one before.\<close>

definition resend :: "'n nvs_api \<Rightarrow> string \<Rightarrow> ('n, 'a) app_scheme \<Rightarrow> (unit, ('n, 'a) app_scheme) run" where
  "resend api full s =
     then_run (gsm_send_http api full [] (task_delay 5000 s)) (\<lambda>ok s.
       let s = task_delay 5000 s
       in if ok then Ret () s
          else then_run (gsm_send_http api full [] s) (\<lambda>ok s.
            let s = task_delay 5000 s
            in if ok then Ret () s
               else then_run (gsm_send_http api full [] s) (\<lambda>_. Ret ())))"

text \<open>What happens to a record that has been read; the buffers have 128 bytes.\<close>

definition send_record :: "'n nvs_api \<Rightarrow> string \<Rightarrow> ('n, 'a) app_scheme \<Rightarrow> (unit, ('n, 'a) app_scheme) run" where
  "send_record api data s =
     (if length data \<le> 1 then Ret () s
      else
        (let s = db_write_record data s
         in if \<not> gsm_no_problem s then Ret () s
            else if length (full_record data s) \<ge> CCI_BUF_SIZE then Stuck
            else
              (let full = full_record data s
               in then_run (gsm_send_http api full [] s) (\<lambda>exist s.
                    let s = task_delay 500 s
                    in if exist then Ret () s else resend api full s))))"

text \<open>A record that has been read is erased in any case.\<close>

definition item_end ::
    "'n nvs_api \<Rightarrow> string \<Rightarrow> sync_locals \<Rightarrow> ('n, 'a) app_scheme \<Rightarrow> (sync_locals, ('n, 'a) app_scheme) run" where
  "item_end api key l s =
     (let s = s\<lparr>a_nvs := snd (nvs_erase_key api key (a_nvs s))\<rparr>;
          (t, n) = (if time_counter l > 100
                    then (0, snd (nvs_set_i32 api ''timestamp'' (get_time_stamp s) (a_nvs s)))
                    else (time_counter l, a_nvs s))
      in Ret (l\<lparr>time_counter := t + 1\<rparr>) (sem_give (s\<lparr>a_nvs := n\<rparr>)))"

text \<open>The part of a turn between taking and giving the semaphore.\<close>

definition item_locked ::
    "'n nvs_api \<Rightarrow> string \<Rightarrow> sync_locals \<Rightarrow> ('n, 'a) app_scheme \<Rightarrow> (sync_locals, ('n, 'a) app_scheme) run" where
  "item_locked api key l s =
     (let (err, rs, data) = nvs_get_str api key (required_size l) (a_nvs s);
          l = l\<lparr>required_size := rs\<rparr>
      in if err = ESP_OK \<and> rs > 0 then
           (if length data \<ge> CCI_BUF_SIZE then Stuck
            else then_run (send_record api (c_str data) s) (\<lambda>_. item_end api key l))
         else Ret l (sem_give s))"

definition sync_item ::
    "'n nvs_api \<Rightarrow> nat \<Rightarrow> sync_locals \<Rightarrow> ('n, 'a) app_scheme \<Rightarrow> (sync_locals, ('n, 'a) app_scheme) run" where
  "sync_item api i l s =
     then_run (water_turn l s) (\<lambda>l s.
       case sem_wait 2000 s of
         None \<Rightarrow> Stuck
       | Some s \<Rightarrow> item_locked api (String_int (int i)) l (task_delay 100 s))"

fun sync_items ::
    "'n nvs_api \<Rightarrow> nat list \<Rightarrow> sync_locals \<Rightarrow> ('n, 'a) app_scheme \<Rightarrow> (sync_locals, ('n, 'a) app_scheme) run" where
  "sync_items api [] l s = Ret l s"
| "sync_items api (i # is) l s = then_run (sync_item api i l s) (\<lambda>l s. sync_items api is l s)"

text \<open>After the records: the signal, the reboot of the modem, the files of the day before.\<close>

definition sync_rest :: "'n nvs_api \<Rightarrow> ('n, 'a) app_scheme \<Rightarrow> (unit, ('n, 'a) app_scheme) run" where
  "sync_rest api s =
     then_run (gsm_send_signal api True (task_delay 3000 s)) (\<lambda>_ s.
       then_run
         (if long32 (last_time_stamp_sended s - time_stamp_reboot_gsm s) > 600
          then gsm_reboot (s\<lparr>time_stamp_reboot_gsm := last_time_stamp_sended s\<rparr>)
          else Ret () s)
         (\<lambda>_ s.
            if gsm_no_problem s \<and> long32 (last_time_stamp s - start_point_time_stamp_check_db_sync s) > 300
            then db_sync api (s\<lparr>start_point_time_stamp_check_db_sync := get_time_stamp s\<rparr>)
            else Ret () s))"

definition sync_round ::
    "'n nvs_api \<Rightarrow> sync_locals \<Rightarrow> ('n, 'a) app_scheme \<Rightarrow> (sync_locals, ('n, 'a) app_scheme) run" where
  "sync_round api l s =
     then_run
       (if \<not> gsm_no_problem s
        then then_run (run_option (gsm_init (task_delay 3000 s))) (\<lambda>ok s. Ret () (s\<lparr>gsm_no_problem := ok\<rparr>))
        else Ret () s)
       (\<lambda>_ s. then_run (sync_items api [0..<NVS_MAX_DATA_COUNTER] l s) (\<lambda>l s.
          then_run (sync_rest api s) (\<lambda>_. Ret l)))"

text \<open>The state of the loop after \<open>n\<close> turns.\<close>

fun sync_rounds ::
    "'n nvs_api \<Rightarrow> nat \<Rightarrow> sync_locals \<Rightarrow> ('n, 'a) app_scheme \<Rightarrow> (sync_locals, ('n, 'a) app_scheme) run" where
  "sync_rounds api 0 l s = Ret l s"
| "sync_rounds api (Suc n) l s = then_run (sync_round api l s) (\<lambda>l s. sync_rounds api n l s)"

text \<open>What precedes the loop. Without an open store the task ends. \<open>level34\<close> is the level of pin 34.\<close>

definition sync_start :: "'n nvs_api \<Rightarrow> bool \<Rightarrow> ('n, 'a) app_scheme \<Rightarrow> (bool, ('n, 'a) app_scheme) run" where
  "sync_start api level34 s =
     then_run (run_option (gsm_init s)) (\<lambda>ok s.
       let s = s\<lparr>gsm_no_problem := ok\<rparr>
       in then_run
         (if ok then
            then_run (check_timestamp_from_http api s) (\<lambda>t s.
            then_run (gsm_send_firmware_version api (s\<lparr>last_time_stamp := t\<rparr>)) (\<lambda>_ s.
            then_run (gsm_send_imei api s) (\<lambda>_ s.
            then_run (gsm_send_id_sim_card api s) (\<lambda>_ s. gsm_send_location api s))))
          else
            (let s = (if last_time_stamp_sended s < default_current_time_stamp
                      then s\<lparr>last_time_stamp_sended := default_current_time_stamp\<rparr> else s)
             in Ret () (set_time_stamp (last_time_stamp_sended s) s)))
         (\<lambda>_ s.
            let s = s\<lparr>global_current_day := get_day_of_month (clock_now s)\<rparr>
            in if \<not> hnvs s then Ret False s
               else
                 (let (_, w) = setup_water_quality_pins level34 (s_analog s (w_now s)) (a_water s)
                  in Ret True (s\<lparr>a_water := w, time_stamp_reboot_gsm := last_time_stamp_sended s\<rparr>))))"

definition sync_task ::
    "'n nvs_api \<Rightarrow> bool \<Rightarrow> nat \<Rightarrow> ('n, 'a) app_scheme \<Rightarrow> (unit, ('n, 'a) app_scheme) run" where
  "sync_task api level34 n s =
     then_run (sync_start api level34 s) (\<lambda>ok s.
       if ok
       then then_run (sync_rounds api n \<lparr>time_counter = 0, water_counter = 0, required_size = 0\<rparr> s) (\<lambda>_. Ret ())
       else Ret () s)"

section \<open>The other task\<close>

text \<open>A turn of its loop. Whether a byte has arrived at the serial port of the PC and the download are
  arguments. The result of taking the semaphore is not looked at.\<close>

definition cci_turn ::
    "bool \<Rightarrow> (('n, 'a) app_scheme \<Rightarrow> (unit, ('n, 'a) app_scheme) run) \<Rightarrow> ('n, 'a) app_scheme \<Rightarrow>
     (unit, ('n, 'a) app_scheme) run" where
  "cci_turn byte_arrived update_over_gsm_http s =
     (let s = (if byte_arrived then sem_give (task_delay 600000 (snd (sem_take s))) else s)
      in if gsm_no_problem s \<and> download_firmware s then update_over_gsm_http s else Ret () s)"

section \<open>The update from the memory card\<close>

definition OTA_SD_BUFFER_SIZE :: nat where "OTA_SD_BUFFER_SIZE = 4096"
definition OTA_SD_FILE_NAME :: string where "OTA_SD_FILE_NAME = ''/sdcard/update.bin''"

text \<open>\<open>buf\<close> is the content of the buffer before the read; it is cleared after each write. A failed
  write aborts.\<close>

function (sequential) ota_sd_loop ::
    "(ota_log \<Rightarrow> int) \<Rightarrow> u32 \<Rightarrow> string \<Rightarrow> string \<Rightarrow> ota_log \<Rightarrow> (ota_log, ota_log) run" where
  "ota_sd_loop ota_write handle buf file log =
     (if file = [] then Ret log log
      else
        (let chunk = take OTA_SD_BUFFER_SIZE file;
             log = log @ [(handle, chunk @ drop (length chunk) buf)]
         in if ota_write log \<noteq> ESP_OK then Reboot log
            else ota_sd_loop ota_write handle (replicate OTA_SD_BUFFER_SIZE CHR 0x00) (drop OTA_SD_BUFFER_SIZE file) log))"
  by pat_completeness auto
termination
  by (relation "measure (\<lambda>(w, h, b, f, l). length f)") (auto simp: OTA_SD_BUFFER_SIZE_def)

declare ota_sd_loop.simps [simp del]

text \<open>The result is what has been written to the flash; \<open>mem\<close> is what the new buffer holds.\<close>

definition ota_from_sd_card ::
    "u32 option \<Rightarrow> (ota_log \<Rightarrow> int) \<Rightarrow> (ota_log \<Rightarrow> bool) \<Rightarrow> (ota_log \<Rightarrow> bool) \<Rightarrow> string \<Rightarrow>
     'a disk_scheme \<Rightarrow> (ota_log, ota_log \<times> 'a disk_scheme) run" where
  "ota_from_sd_card ota_begin ota_write ota_end set_boot mem d =
     (if \<not> has_sd_card d then Ret [] ([], d)
      else (case d_files d OTA_SD_FILE_NAME of
        None \<Rightarrow> Ret [] ([], d)
      | Some file \<Rightarrow>
          (case ota_begin of
             None \<Rightarrow> Ret [] ([], d)
           | Some handle \<Rightarrow>
               (case ota_sd_loop ota_write handle (take OTA_SD_BUFFER_SIZE mem) file [] of
                  Ret log _ \<Rightarrow>
                    if ota_end log \<and> set_boot log then
                      (let (removed, d) = (if d_open d OTA_SD_FILE_NAME then remove_file OTA_SD_FILE_NAME d else (False, d));
                           d = (if removed then d else rename_file OTA_SD_FILE_NAME ''/sdcard/update.bak'' d)
                       in Reboot (log, d))
                    else Ret log (log, d)
                | Reboot log \<Rightarrow> Reboot (log, d)
                | Stuck \<Rightarrow> Stuck))))"

section \<open>Boot\<close>

definition led_on :: "bool \<Rightarrow> 'a sim800_scheme \<Rightarrow> 'a sim800_scheme" where
  "led_on on s =
     (let s = pin (Pin_mode 21 ''OUTPUT'') s
      in if on then pin (Pin_mode 21 ''INPUT_PULLUP'') (pin (Pin_write 21 True) s)
         else
           (let s = task_delay 1100 (pin (Pin_write 21 False) s);
                s = task_delay 1100 (pin (Pin_write 21 True) s)
            in pin (Pin_mode 21 ''INPUT_PULLUP'') (pin (Pin_write 21 True) s)))"

text \<open>\<open>app_main\<close> up to the start of the tasks; the results of the hardware are arguments.\<close>

definition app_main ::
    "'n nvs_api \<Rightarrow> u8 list option \<Rightarrow> int \<Rightarrow>
     (disk \<Rightarrow> (ota_log, ota_log \<times> disk) run) \<Rightarrow> ('n, 'a) app_scheme \<Rightarrow> (unit, ('n, 'a) app_scheme) run" where
  "app_main api mac mount_result ota s =
     (let s = (generate_id mac s)\<lparr>sem_free := True\<rparr>
      in then_run (nvs_first_init api 0 s) (\<lambda>_ s.
        let (ok, d) = check_sd_card mount_result (a_disk s);
            s = s\<lparr>a_disk := d\<rparr>
        in if \<not> ok then Ret () s
           else (case ota d of
                   Ret _ (_, d) \<Rightarrow>
                     Ret () (s\<lparr>a_disk := sd_create_system_info
                       (id_controller s @ newline # ''FIRMWARE_'' @ FIRMWARE_VERSION) d\<rparr>)
                 | Reboot (_, d) \<Rightarrow> Reboot (s\<lparr>a_disk := d\<rparr>)
                 | Stuck \<Rightarrow> Stuck)))"

end
