(* ===== verification/Firmware_Props.thy ===== *)
theory Firmware_Props
  imports Firmware_Loop Sim800Props NvsStore
begin

text \<open>
  Properties of the firmware: what the loop does with stored records, the files of records from one
  day to the next, the restart after network errors, the update from the memory card and the name of
  the device.
\<close>

section \<open>Frames\<close>

text \<open>What extends the state of the driver: the variables of the firmware.\<close>

definition globals :: "('n, 'a) app_scheme \<Rightarrow> ('n, 'a) app_ext" where
  "globals s = sim800.more s"

lemma globals_eq:
  assumes "globals s' = globals s"
  shows "sem_free s' = sem_free s" "s_sem s' = s_sem s" "a_nvs s' = a_nvs s" "a_disk s' = a_disk s"
    "id_controller s' = id_controller s" "gsm_no_problem s' = gsm_no_problem s" "hnvs s' = hnvs s"
    "a_clock s' = a_clock s"
  using assms by (cases s; cases s'; simp add: globals_def)+

lemma globals_delay [simp]: "globals (task_delay ms s) = globals s"
  by (simp add: globals_def task_delay_def delay_def)

lemma HTTP_post_converses: "HTTP_post url buffer sz s = Some (st, s') \<Longrightarrow> converses s s'"
  by (rule HTTP_post_cases [of url buffer sz s])
    (auto simp: post_end_def split: option.splits dest: action_loop_converses intro: converses_trans)

lemma gsm_post_converses: "gsm_post url data s = Ret st s' \<Longrightarrow> converses s s'"
  by (simp add: gsm_post_def HTTP_post_converses)

lemma gsm_post_no_reboot: "gsm_post url data s \<noteq> Reboot s'"
  by (simp add: gsm_post_def)

lemma gsm_restart_no_return: "gsm_restart api s \<noteq> Ret x s'"
  by (auto simp: gsm_restart_def Let_def split: option.splits prod.splits)

text \<open>Sending returns after a conversation, or restarts from a state that it has reached by one.\<close>

lemma gsm_read_answer_run:
  shows "gsm_read_answer api s = Ret ok s' \<Longrightarrow> converses s s'"
    and "gsm_read_answer api s = Reboot s' \<Longrightarrow> \<exists>t. converses s t \<and> gsm_restart api t = Reboot s'"
proof -
  obtain r b s1 where rd: "HTTP_read 16 (of_nat (uninit s)) s = (r, b, s1)" by (metis prod_cases3)
  then have t: "converses s s1" using HTTP_read_converses [of s 16 "of_nat (uninit s)"] by simp
  show "gsm_read_answer api s = Ret ok s' \<Longrightarrow> converses s s'"
    using t rd gsm_restart_no_return by (auto simp: gsm_read_answer_def then_run_Ret split: if_splits)
  show "gsm_read_answer api s = Reboot s' \<Longrightarrow> \<exists>t. converses s t \<and> gsm_restart api t = Reboot s'"
    using t rd by (cases "gsm_restart api s1") (auto simp: gsm_read_answer_def split: if_splits)
qed

lemma gsm_send_http_Ret:
  assumes "gsm_send_http api data ty s = Ret ok s'"
  shows "converses s s'"
  using assms
  by (auto simp: gsm_send_http_def Let_def then_run_Ret gsm_restart_no_return split: if_splits
      dest!: gsm_post_converses gsm_read_answer_run(1) intro: converses_trans)

lemma gsm_send_http_Reboot:
  assumes "gsm_send_http api data ty s = Reboot s'"
  shows "\<exists>t. converses s t \<and> gsm_restart api t = Reboot s'"
  using assms
  by (auto simp: gsm_send_http_def Let_def then_run_Reboot gsm_post_no_reboot split: if_splits
      dest!: gsm_post_converses gsm_read_answer_run(2) intro: converses_trans)

section \<open>The semaphore and the restart\<close>

lemma converses_globals: "converses s s' \<Longrightarrow> globals s' = globals s"
  unfolding globals_def by (rule converses_frame)

text \<open>The semaphore is taken, and the other task never gives it.\<close>

definition held :: "('n, 'a) app_scheme \<Rightarrow> bool" where
  "held s \<longleftrightarrow> \<not> sem_free s \<and> (\<forall>t. s_sem s t \<noteq> Some True)"

lemma held_globals: "globals s' = globals s \<Longrightarrow> held s' = held s"
  using globals_eq(1,2) [of s' s] by (simp add: held_def)

lemma sem_wait_held:
  assumes "held s"
  shows "sem_wait ms s = None"
proof (rule ccontr)
  assume "sem_wait ms s \<noteq> None"
  then obtain r where r: "sem_wait ms s = Some r" by blast
  have "\<not> held s"
  proof (rule sem_wait.raw_induct [where P = "\<lambda>ms s r. \<not> held s", OF _ r])
    fix loop :: "nat \<Rightarrow> ('a, 'b) app_scheme \<Rightarrow> ('a, 'b) app_scheme option" and ms s r
    assume IH: "\<And>ms s r. loop ms s = Some r \<Longrightarrow> \<not> held s"
      and b: "(let (ok, s) = sem_take s in if ok then Some s else loop ms (task_delay ms s)) = Some r"
    show "\<not> held s"
    proof
      assume h: "held s"
      then have "sem_take s = (False, s\<lparr>sem_free := False\<rparr>)"
        by (auto simp: sem_take_def sem_level_def held_def split: option.split)
      then have "loop ms (task_delay ms (s\<lparr>sem_free := False\<rparr>)) = Some r" using b by simp
      from IH [OF this] have "\<not> held (s\<lparr>sem_free := False\<rparr>)" using held_globals globals_delay by blast
      then show False using h by (simp add: held_def)
    qed
  qed
  then show False using assms by simp
qed

lemma sem_wait_takes:
  assumes "sem_wait ms s = Some s'"
  shows "globals s' = globals (s\<lparr>sem_free := False\<rparr>)"
proof -
  have "globals s' = globals (s\<lparr>sem_free := False\<rparr>)"
  proof (rule sem_wait.raw_induct [where P = "\<lambda>ms s s'. globals s' = globals (s\<lparr>sem_free := False\<rparr>)", OF _ assms])
    fix loop :: "nat \<Rightarrow> ('a, 'b) app_scheme \<Rightarrow> ('a, 'b) app_scheme option" and ms s r
    assume IH: "\<And>ms s r. loop ms s = Some r \<Longrightarrow> globals r = globals (s\<lparr>sem_free := False\<rparr>)"
      and b: "(let (ok, s) = sem_take s in if ok then Some s else loop ms (task_delay ms s)) = Some r"
    have "globals (task_delay ms (s\<lparr>sem_free := False\<rparr>)\<lparr>sem_free := False\<rparr>) = globals (s\<lparr>sem_free := False\<rparr>)"
      by (cases s) (simp add: globals_def task_delay_def delay_def)
    then show "globals r = globals (s\<lparr>sem_free := False\<rparr>)"
      using b IH by (fastforce simp: sem_take_def split: if_splits)
  qed
  then show ?thesis .
qed

lemma gsm_restart_held: "held s \<Longrightarrow> gsm_restart api s = Stuck"
proof -
  have h: "held (s\<lparr>last_time_stamp_sended := v\<rparr>)" if "held s" for v and s :: "('a, 'b) app_scheme"
    using that by (simp add: held_def)
  show "held s \<Longrightarrow> gsm_restart api s = Stuck"
    using sem_wait_held [of s] sem_wait_held [OF h, of s] by (simp add: gsm_restart_def)
qed

lemma held_delay [simp]: "held (task_delay ms s) = held s"
  by (rule held_globals) simp

lemma gsm_send_http_wp:
  "run_wp (\<lambda>_ s'. globals s' = globals s) (\<lambda>s'. \<exists>t. globals t = globals s \<and> gsm_restart api t = Reboot s')
     (gsm_send_http api data ty s)"
proof (cases "gsm_send_http api data ty s")
  case (Ret ok s')
  then show ?thesis using converses_globals [OF gsm_send_http_Ret [OF Ret]] by simp
next
  case (Reboot s')
  then obtain t where "converses s t" "gsm_restart api t = Reboot s'" using gsm_send_http_Reboot by blast
  then show ?thesis using Reboot converses_globals by auto
qed simp

lemma gsm_send_http_held:
  assumes "held s" and "\<And>x s. held s \<Longrightarrow> Q x s"
  shows "run_wp Q (\<lambda>_. False) (gsm_send_http api data ty s)"
proof (rule run_wp_mono [OF gsm_send_http_wp])
  show "Q x s'" if "globals s' = globals s" for x s'
    using that assms held_globals by blast
  show False if "\<exists>t. globals t = globals s \<and> gsm_restart api t = Reboot s'" for s'
    using that assms(1) held_globals gsm_restart_held by fastforce
qed

lemma resend_held: "held s \<Longrightarrow> run_wp (\<lambda>_. held) (\<lambda>_. False) (resend api full s)"
  by (auto simp: resend_def Let_def intro!: gsm_send_http_held)

lemma held_db_write [simp]: "held (db_write_record data s) = held s"
  by (simp add: held_def db_write_record_def today_name_def db_dir_def Let_def)

lemma send_record_held: "held s \<Longrightarrow> run_wp (\<lambda>_. held) (\<lambda>_. False) (send_record api data s)"
  by (auto simp: send_record_def Let_def intro!: gsm_send_http_held resend_held)

lemma water_turn_run:
  shows "water_turn l s \<noteq> Reboot s'"
    and "water_turn l s = Ret l' s' \<Longrightarrow> s_sem s' = s_sem s \<and> a_nvs s' = a_nvs s \<and> hnvs s' = hnvs s"
proof -
  have g: "globals (gsm_send_water_quality_via_http v t) = globals t" for v and t :: "('a, 'b) app_scheme"
    unfolding gsm_send_water_quality_via_http_def by (intro converses_globals HTTP_get_converses)
  show "water_turn l s \<noteq> Reboot s'"
    by (auto simp: water_turn_def Let_def split: if_splits option.splits)
  show "water_turn l s = Ret l' s' \<Longrightarrow> s_sem s' = s_sem s \<and> a_nvs s' = a_nvs s \<and> hnvs s' = hnvs s"
    by (auto simp: water_turn_def Let_def globals_eq [OF g] globals_eq [OF globals_delay] split: if_splits option.splits)
qed

lemma item_locked_held: "held s \<Longrightarrow> run_wp (\<lambda>_ _. True) (\<lambda>_. False) (item_locked api key l s)"
  by (auto simp: item_locked_def item_end_def Let_def split: prod.split intro!: run_wp_mono [OF send_record_held])

lemma sync_item_no_reboot:
  assumes "\<And>t. s_sem s t \<noteq> Some True"
  shows "run_wp (\<lambda>_ _. True) (\<lambda>_. False) (sync_item api i l s)"
proof -
  have "run_wp (\<lambda>_ t. s_sem t = s_sem s) (\<lambda>_. False) (water_turn l s)"
    using water_turn_run [of l s] by (cases "water_turn l s") auto
  then show ?thesis unfolding sync_item_def run_wp_then
  proof (rule run_wp_mono)
    fix l and t :: "('a, 'b) app_scheme"
    assume t: "s_sem t = s_sem s"
    have "held (task_delay 100 t1)" if "sem_wait 2000 t = Some t1" for t1
      using globals_eq(1,2) [OF sem_wait_takes [OF that]] t assms by (simp add: held_def [of t1])
    then show "run_wp (\<lambda>_ _. True) (\<lambda>_. False)
      (case sem_wait 2000 t of None \<Rightarrow> Stuck | Some s \<Rightarrow> item_locked api (String_int (int i)) l (task_delay 100 s))"
      by (auto split: option.split intro: item_locked_held)
  qed simp
qed



end
