(* ===== verification/Firmware_Store.thy ===== *)
theory Firmware_Store
  imports Firmware_Props NvsStore
begin

text \<open>
  What the loop over the stored records does with the store: a record that has been read is erased,
  whatever became of it, and the last slot of the writer is one that the loop never visits.
\<close>

section \<open>Texts that stay\<close>

lemma digits_not_word:
  assumes "w = ''timestamp'' \<or> w = ''data_counter''"
  shows "String_int (int i) \<noteq> w"
proof -
  have "list_all c_isdigit (String_int (int i))" "String_int (int i) \<noteq> []"
    using print_number_digits [of i] print_number_nonempty [of i] by (simp_all add: String_int_def)
  then show ?thesis using assms by (auto simp: c_isdigit_def char_code_def)
qed

lemma send_record_nvs: "run_wp (\<lambda>_ s'. a_nvs s' = a_nvs s) (\<lambda>_. True) (send_record api data s)"
proof -
  have h: "run_wp (\<lambda>_ s'. a_nvs s' = v) (\<lambda>_. True) (gsm_send_http api d ty t)" if "a_nvs t = v" for d ty v and t :: "('a, 'b) app_scheme"
    by (rule run_wp_mono [OF gsm_send_http_wp]) (use that globals_eq(3) in auto)
  have del: "a_nvs (task_delay ms t) = a_nvs t" for ms and t :: "('a, 'b) app_scheme"
    by (rule globals_eq) simp
  have w: "a_nvs (db_write_record d t) = a_nvs t" for d and t :: "('a, 'b) app_scheme"
    by (simp add: db_write_record_def today_name_def db_dir_def Let_def)
  have r: "run_wp (\<lambda>_ s'. a_nvs s' = v) (\<lambda>_. True) (resend api full t)" if "a_nvs t = v" for full v and t :: "('a, 'b) app_scheme"
    using that by (auto simp: resend_def Let_def del intro!: run_wp_mono [OF h])
  show ?thesis
    by (auto simp: send_record_def Let_def del w intro!: run_wp_mono [OF h] r)
qed

lemma String_int_inj: "String_int (int i) = String_int (int j) \<longleftrightarrow> i = j"
proof
  assume "String_int (int i) = String_int (int j)"
  then have "c_digits 10 0 (print_number i 10) = c_digits 10 0 (print_number j 10)" by (simp add: String_int_def)
  then show "i = j" using print_digits_value by (simp add: print_number_def)
qed simp

lemma sem_wait_nvs: "sem_wait ms s = Some s' \<Longrightarrow> a_nvs s' = a_nvs s"
  using globals_eq(3) [OF sem_wait_takes] by fastforce

lemma item_end_texts:
  assumes "nvs_texts api str" and "k \<noteq> ''timestamp''"
  shows "run_wp (\<lambda>_ s'. str (a_nvs s') k = str (snd (nvs_erase_key api key (a_nvs s))) k) R (item_end api key l s)"
  by (auto simp: item_end_def Let_def sem_give_def nvs_set_i32D [OF assms])

text \<open>A turn leaves the texts under other keys alone, and erases the text that it has read.\<close>

lemma item_locked_texts:
  assumes "nvs_texts api str" and "k \<noteq> ''timestamp''"
  shows "k \<noteq> key \<Longrightarrow> run_wp (\<lambda>_ s'. str (a_nvs s') k = str (a_nvs s) k) (\<lambda>_. True) (item_locked api key l s)"
    and "str (a_nvs s) k = Some t \<Longrightarrow> length t < required_size l \<Longrightarrow>
      (\<And>n. str n k \<noteq> None \<Longrightarrow> fst (nvs_erase_key api k n) = ESP_OK) \<Longrightarrow>
      run_wp (\<lambda>_ s'. str (a_nvs s') k = None) (\<lambda>_. True) (item_locked api k l s)"
proof -
  have e: "run_wp (\<lambda>_ s'. str (a_nvs s') k = str (snd (nvs_erase_key api key n)) k) (\<lambda>_. True)
      (then_run (send_record api d s) (\<lambda>_. item_end api key l'))" if "a_nvs s = n" for d l' key n
    unfolding run_wp_then
  proof (rule run_wp_mono [OF send_record_nvs])
    show "run_wp (\<lambda>_ s'. str (a_nvs s') k = str (snd (nvs_erase_key api key n)) k) (\<lambda>_. True) (item_end api key l' t)"
      if "a_nvs t = a_nvs s" for t
      using item_end_texts [OF assms, where R = "\<lambda>_. True" and key = key and l = l' and s = t] that \<open>a_nvs s = n\<close> by simp
  qed simp
  show "run_wp (\<lambda>_ s'. str (a_nvs s') k = str (a_nvs s) k) (\<lambda>_. True) (item_locked api key l s)" if "k \<noteq> key"
    using e [of "a_nvs s" key] nvs_erase_keyD [OF assms(1), of key "a_nvs s"] that
    by (auto simp: item_locked_def sem_give_def Let_def split: prod.split if_splits)
  show "run_wp (\<lambda>_ s'. str (a_nvs s') k = None) (\<lambda>_. True) (item_locked api k l s)"
    if "str (a_nvs s) k = Some t" and "length t < required_size l"
      and ok: "\<And>n. str n k \<noteq> None \<Longrightarrow> fst (nvs_erase_key api k n) = ESP_OK"
    using e [of "a_nvs s" k] nvs_erase_keyD [OF assms(1), of k "a_nvs s"] ok [of "a_nvs s"]
      nvs_get_strD(2) [OF assms(1) that(1,2)] that
    by (simp add: item_locked_def)
qed

section \<open>A whole round\<close>

definition keeps_text ::
    "('n \<Rightarrow> string \<Rightarrow> string option) \<Rightarrow> string \<Rightarrow> ('n, 'a) app_scheme \<Rightarrow> ('x, ('n, 'a) app_scheme) run \<Rightarrow> bool" where
  "keeps_text str k s r \<longleftrightarrow> run_wp (\<lambda>_ s'. str (a_nvs s') k = str (a_nvs s) k) (\<lambda>_. True) r"

lemma keeps_text_Ret [simp]: "keeps_text str k s (Ret x s') \<longleftrightarrow> str (a_nvs s') k = str (a_nvs s) k"
  and keeps_text_Reboot [simp]: "keeps_text str k s (Reboot s')"
  and keeps_text_Stuck [simp]: "keeps_text str k s Stuck"
  by (simp_all add: keeps_text_def)

lemma keeps_text_then:
  assumes "keeps_text str k s r" and "\<And>x t. keeps_text str k t (f x t)"
  shows "keeps_text str k s (then_run r f)"
proof (cases r)
  case (Ret x t)
  then show ?thesis using assms(1) assms(2) [of t x] by (simp add: keeps_text_def)
qed simp_all

lemma keeps_text_from: "keeps_text str k t r \<Longrightarrow> a_nvs t = a_nvs s \<Longrightarrow> keeps_text str k s r"
  by (simp add: keeps_text_def)

lemma gsm_send_http_text: "keeps_text str k s (gsm_send_http api d ty s)"
proof (cases "gsm_send_http api d ty s")
  case (Ret ok t)
  from globals_eq(3) [OF converses_globals [OF gsm_send_http_Ret [OF Ret]]] show ?thesis by (simp add: Ret)
qed simp_all

lemma delay_nvs [simp]: "a_nvs (task_delay ms s) = a_nvs s"
  by (rule globals_eq) simp

lemma HTTP_get_nvs [simp]: "a_nvs (snd (HTTP_get url j s)) = a_nvs s"
  by (rule globals_eq, rule converses_globals, rule HTTP_get_converses)

lemma gsm_restart_text: "keeps_text str k s (gsm_restart api t)"
  using gsm_restart_no_return [of api t] by (cases "gsm_restart api t") auto

lemma read_time_text: "keeps_text str k s (gsm_read_time_from_http api s)"
proof -
  obtain r d s1 where rd: "HTTP_read 16 (of_nat (uninit s)) s = (r, d, s1)" by (metis prod_cases3)
  then have "globals s1 = globals s"
    using converses_globals HTTP_read_converses [of s 16 "of_nat (uninit s)"] by fastforce
  then have "a_nvs s1 = a_nvs s" by (rule globals_eq)
  then show ?thesis
    using gsm_restart_text by (auto simp: gsm_read_time_from_http_def rd intro!: keeps_text_then)
qed

lemma get_time_text: "keeps_text str k s (gsm_get_time_from_http api s)"
proof -
  let ?url = "WEB_URL_API @ ''/timestamp''"
  obtain st s1 where g1: "HTTP_get ?url (of_nat (uninit s)) s = (st, s1)" by fastforce
  let ?s1 = "task_delay 3000 s1"
  obtain st2 s2 where g2: "HTTP_get ?url (of_nat (uninit ?s1)) ?s1 = (st2, s2)" by fastforce
  have n: "a_nvs s1 = a_nvs s" "a_nvs s2 = a_nvs s"
    using HTTP_get_nvs [of ?url "of_nat (uninit s)" s] HTTP_get_nvs [of ?url "of_nat (uninit ?s1)" ?s1] g1 g2 by simp_all
  have r: "keeps_text str k s (gsm_read_time_from_http api t)" if "a_nvs t = a_nvs s" for t
    by (rule keeps_text_from [OF read_time_text that])
  show ?thesis using n
    by (auto simp: gsm_get_time_from_http_def Let_def g1 g2 intro!: r keeps_text_then gsm_restart_text)
qed

lemma nvs_check_timestamp_text:
  assumes "nvs_texts api str" and "k \<noteq> ''timestamp''"
  shows "str (a_nvs (nvs_check_timestamp api c save s)) k = str (a_nvs s) k"
  using nvs_set_i32D [OF assms] nvs_commitD [OF assms(1)]
  by (auto simp: nvs_check_timestamp_def Let_def set_time_stamp_def split: prod.split) (metis snd_conv)+

lemma check_timestamp_text:
  assumes "nvs_texts api str" and "k \<noteq> ''timestamp''"
  shows "keeps_text str k s (check_timestamp_from_http api s)"
  unfolding check_timestamp_from_http_def
  by (rule keeps_text_then [OF get_time_text]) (simp add: Let_def nvs_check_timestamp_text [OF assms])

lemma wait_download_nvs [simp]: "a_nvs (wait_download n s) = a_nvs s"
  by (induction n s rule: wait_download.induct) simp_all

lemma send_signal_text:
  assumes "nvs_texts api str" and "k \<noteq> ''timestamp''"
  shows "keeps_text str k s (gsm_send_signal api b s)"
proof -
  have c: "keeps_text str k s (check_timestamp_from_http api t)" if "a_nvs t = a_nvs s" for s t
    by (rule keeps_text_from [OF check_timestamp_text [OF assms] that])
  have h: "keeps_text str k s (gsm_send_http api d ty t)" if "a_nvs t = a_nvs s" for d ty s t
    by (rule keeps_text_from [OF gsm_send_http_text that])
  have f: "a_nvs (snd (gsm_has_firmware_from_http t)) = a_nvs t" for t
    by (simp add: gsm_has_firmware_from_http_def split_beta)
  show ?thesis
    by (auto simp: gsm_send_signal_def Let_def split_beta f intro!: keeps_text_then c h)
qed

lemma gsm_reboot_text: "keeps_text str k s (gsm_reboot s)"
proof (cases "gsm_init (snd (shutdown True (snd (sim_disconnect 0 s))))")
  case (Some r)
  obtain ok t where r: "r = (ok, t)" by fastforce
  have "sim800.more t = sim800.more (snd (shutdown True (snd (sim_disconnect 0 s))))"
    using gsm_init_more Some r by blast
  also have "\<dots> = sim800.more s"
    using shutdown_kept [of True "snd (sim_disconnect 0 s)"] expect_kept(3) [of "''+CIPCLOSE='' @ String_int 0" 5000 s]
    by (simp add: kept_def sim_disconnect_def)
  finally have "a_nvs t = a_nvs s" by (intro globals_eq(3)) (simp add: globals_def)
  then show ?thesis using Some r by (simp add: gsm_reboot_def run_option_def)
qed (simp add: gsm_reboot_def run_option_def)

lemma send_tries_text: "keeps_text str k s (send_tries api line n s)"
proof (induction n arbitrary: s)
  case 0
  show ?case by (subst send_tries.simps) (auto intro!: keeps_text_then gsm_send_http_text)
next
  case (Suc n)
  have "keeps_text str k s (send_tries api line n (task_delay 1000 s))" for s :: "('a, 'b) app_scheme"
    by (rule keeps_text_from [OF Suc.IH]) simp
  then show ?case by (subst send_tries.simps) (auto intro!: keeps_text_then gsm_send_http_text)
qed

lemma sync_lines_text: "keeps_text str k s (sync_lines api ls s)"
proof (induction ls arbitrary: s)
  case (Cons l ls)
  then show ?case by (auto split: option.split intro!: keeps_text_then send_tries_text)
qed simp

lemma db_sync_text: "keeps_text str k s (db_sync api s)"
  by (auto simp: db_sync_def Let_def split: option.split intro!: keeps_text_then sync_lines_text)

lemma sync_rest_text:
  assumes "nvs_texts api str" and "k \<noteq> ''timestamp''"
  shows "keeps_text str k s (sync_rest api s)"
proof -
  have d: "keeps_text str k s (db_sync api t)" if "a_nvs t = a_nvs s" for s t
    by (rule keeps_text_from [OF db_sync_text that])
  have r: "keeps_text str k s (gsm_reboot t)" if "a_nvs t = a_nvs s" for s t
    by (rule keeps_text_from [OF gsm_reboot_text that])
  have g: "keeps_text str k s (gsm_send_signal api True (task_delay 3000 s))"
    by (rule keeps_text_from [OF send_signal_text [OF assms]]) simp
  show ?thesis unfolding sync_rest_def
    by (auto intro!: keeps_text_then [OF g] keeps_text_then d r)
qed

lemma sync_item_text:
  assumes "nvs_texts api str" and "k \<noteq> ''timestamp''" and "k \<noteq> String_int (int i)"
  shows "keeps_text str k s (sync_item api i l s)"
proof -
  have w: "keeps_text str k s (water_turn l s)"
    using water_turn_run [of l s] by (cases "water_turn l s") auto
  have "keeps_text str k t (item_locked api (String_int (int i)) l (task_delay 100 t'))"
    if "sem_wait 2000 t = Some t'" for t t' l
  proof (rule keeps_text_from)
    show "keeps_text str k (task_delay 100 t') (item_locked api (String_int (int i)) l (task_delay 100 t'))"
      using item_locked_texts(1) [OF assms] unfolding keeps_text_def .
    show "a_nvs (task_delay 100 t') = a_nvs t" using sem_wait_nvs [OF that] by simp
  qed
  then show ?thesis unfolding sync_item_def
    by (auto split: option.split intro!: keeps_text_then [OF w])
qed

lemma sync_items_text:
  assumes "nvs_texts api str" and "k \<noteq> ''timestamp''" and "\<And>i. i \<in> set is \<Longrightarrow> k \<noteq> String_int (int i)"
  shows "keeps_text str k s (sync_items api is l s)"
  using assms(3)
proof (induction "is" arbitrary: l s)
  case (Cons i "is")
  then show ?case using sync_item_text [OF assms(1,2), of i] by (auto intro!: keeps_text_then)
qed simp

lemma sync_round_text:
  assumes "nvs_texts api str" and "k \<noteq> ''timestamp''" and "\<And>i. i < 100 \<Longrightarrow> k \<noteq> String_int (int i)"
  shows "keeps_text str k s (sync_round api l s)"
proof -
  have "a_nvs t = a_nvs s" if "gsm_init (task_delay 3000 s) = Some (ok, t)" for ok t
    using gsm_init_more [OF that] globals_eq(3) [of t "task_delay 3000 s"] by (simp add: globals_def)
  then have i: "keeps_text str k s (if \<not> gsm_no_problem s
        then then_run (run_option (gsm_init (task_delay 3000 s))) (\<lambda>ok s. Ret () (s\<lparr>gsm_no_problem := ok\<rparr>))
        else Ret () s)"
    by (cases "gsm_init (task_delay 3000 s)") (auto simp: run_option_def)
  have "keeps_text str k t (sync_items api [0..<NVS_MAX_DATA_COUNTER] l t)" for l and t :: "('a, 'b) app_scheme"
    by (rule sync_items_text [OF assms(1,2)]) (simp add: NVS_MAX_DATA_COUNTER_def assms(3))
  then have "keeps_text str k t (then_run (sync_items api [0..<NVS_MAX_DATA_COUNTER] l t)
      (\<lambda>l s. then_run (sync_rest api s) (\<lambda>_. Ret l)))" for t :: "('a, 'b) app_scheme"
    by (auto intro!: keeps_text_then sync_rest_text [OF assms(1,2)])
  then show ?thesis unfolding sync_round_def by (rule keeps_text_then [OF i])
qed

lemma sync_rounds_text:
  assumes "nvs_texts api str" and "k \<noteq> ''timestamp''" and "\<And>i. i < 100 \<Longrightarrow> k \<noteq> String_int (int i)"
  shows "keeps_text str k s (sync_rounds api n l s)"
proof (induction n arbitrary: l s)
  case (Suc n)
  then show ?case using sync_round_text [OF assms] by (auto intro!: keeps_text_then)
qed simp

section \<open>Properties\<close>

text \<open>C3: a record that a turn of the loop reads is erased from the store in that turn, whatever the server
  answered and also when all four attempts to send it failed; records under other keys stay.\<close>

theorem record_erased:
  assumes "nvs_texts api str" and "str (a_nvs s) (String_int (int i)) = Some t" and "length t < required_size l"
    and "\<And>n. str n (String_int (int i)) \<noteq> None \<Longrightarrow> fst (nvs_erase_key api (String_int (int i)) n) = ESP_OK"
    and "sync_item api i l s = Ret l' s'"
  shows "str (a_nvs s') (String_int (int i)) = None \<and>
    (\<forall>k. k \<noteq> String_int (int i) \<longrightarrow> k \<noteq> ''timestamp'' \<longrightarrow> str (a_nvs s') k = str (a_nvs s) k)"
proof (intro conjI allI impI)
  let ?key = "String_int (int i)"
  have ts: "?key \<noteq> ''timestamp''" using digits_not_word [of "''timestamp''" i] by simp
  obtain l1 s1 where w: "water_turn l s = Ret l1 s1" using assms(5) by (auto simp: sync_item_def then_run_Ret)
  then obtain s2 where sem: "sem_wait 2000 s1 = Some s2"
    and lk: "item_locked api ?key l1 (task_delay 100 s2) = Ret l' s'"
    using assms(5) by (auto simp: sync_item_def split: option.splits)
  have n: "a_nvs (task_delay 100 s2) = a_nvs s"
    using water_turn_run(2) [OF w] sem_wait_nvs [OF sem] by simp
  have r: "required_size l1 = required_size l"
    using w by (auto simp: water_turn_def Let_def split: if_splits option.splits)
  show "str (a_nvs s') ?key = None"
    using item_locked_texts(2) [OF assms(1) ts, of "task_delay 100 s2" t l1] assms(2-4) n r lk by simp
  show "str (a_nvs s') k = str (a_nvs s) k" if "k \<noteq> ?key" "k \<noteq> ''timestamp''" for k
    using sync_item_text [OF assms(1) that(2,1), of s l] assms(5) by simp
qed

theorem record_erased_witness:
  "\<exists>l' s'. sync_item map_nvs 0 \<lparr>time_counter = 0, water_counter = 0, required_size = 10\<rparr>
       ((sample_app (sample_store [''0'' \<mapsto> ''B123|7'', ''1'' \<mapsto> ''D4'']) sample_disk)\<lparr>gsm_no_problem := False\<rparr>) = Ret l' s' \<and>
     st_str (a_nvs s') ''0'' = None \<and> st_str (a_nvs s') ''1'' = Some ''D4''"
proof -
  let ?l = "\<lparr>time_counter = 0, water_counter = 0, required_size = 10\<rparr>"
  let ?s = "(sample_app (sample_store [''0'' \<mapsto> ''B123|7'', ''1'' \<mapsto> ''D4'']) sample_disk)\<lparr>gsm_no_problem := False\<rparr>"
  have k: "String_int (int 0) = ''0''" by code_simp
  have "\<exists>s1. sem_wait 2000 ?s = Some s1"
    by (subst sem_wait.simps) (simp add: sem_take_def sem_level_def sample_app_def)
  then obtain s1 where sem: "sem_wait 2000 ?s = Some s1" by blast
  have g: "globals s1 = globals (?s\<lparr>sem_free := False\<rparr>)" by (rule sem_wait_takes [OF sem])
  then have f: "a_nvs s1 = sample_store [''0'' \<mapsto> ''B123|7'', ''1'' \<mapsto> ''D4'']" "gsm_no_problem s1 = False"
    using globals_eq(3,6) [OF g] by (simp_all add: sample_app_def)
  have "gsm_no_problem (task_delay 100 s1) = False" using globals_eq(6) [OF globals_delay] f(2) by metis
  then have "\<exists>s'. send_record map_nvs d (task_delay 100 s1) = Ret () s'" for d
    by (simp add: send_record_def Let_def db_write_record_def today_name_def db_dir_def)
  then obtain s2 where r: "send_record map_nvs (c_str ''B123|7'') (task_delay 100 s1) = Ret () s2" by blast
  have w: "water_turn ?l ?s = Ret ?l ?s" by (simp add: water_turn_def sample_app_def)
  have i: "sync_item map_nvs 0 ?l ?s = item_locked map_nvs ''0'' ?l (task_delay 100 s1)"
    unfolding sync_item_def w then_run.simps sem option.case k ..
  have "nvs_get_str map_nvs ''0'' 10 (a_nvs (task_delay 100 s1)) = (ESP_OK, 7, ''B123|7'')"
    by (simp add: f map_nvs_def sample_store_def)
  then have "item_locked map_nvs ''0'' ?l (task_delay 100 s1) = item_end map_nvs ''0'' (?l\<lparr>required_size := 7\<rparr>) s2"
    using r by (simp add: item_locked_def CCI_BUF_SIZE_def)
  then have "\<exists>l' s'. sync_item map_nvs 0 ?l ?s = Ret l' s'"
    unfolding i by (simp add: item_end_def Let_def split_beta)
  then obtain l' s' where ret: "sync_item map_nvs 0 ?l ?s = Ret l' s'" by blast
  have "st_str (a_nvs ?s) (String_int (int 0)) = Some ''B123|7''" unfolding k by (simp add: sample_app_def sample_store_def)
  moreover have "fst (nvs_erase_key map_nvs (String_int (int 0)) n) = ESP_OK" if "st_str n (String_int (int 0)) \<noteq> None" for n
    using that by (auto simp: map_nvs_def)
  ultimately have e: "st_str (a_nvs s') (String_int (int 0)) = None \<and>
      (\<forall>k. k \<noteq> String_int (int 0) \<longrightarrow> k \<noteq> ''timestamp'' \<longrightarrow> st_str (a_nvs s') k = st_str (a_nvs ?s) k)"
    by (intro record_erased [OF map_nvs_texts _ _ _ ret, of "''B123|7''"]) simp_all
  have "st_str (a_nvs ?s) ''1'' = Some ''D4''" by (simp add: sample_app_def sample_store_def)
  then have "st_str (a_nvs s') ''0'' = None \<and> st_str (a_nvs s') ''1'' = Some ''D4''" using e unfolding k by simp
  then show ?thesis using ret by blast
qed



end
