(* ===== verification/Db_Props.thy ===== *)
theory Db_Props
  imports Db Firmware_Props NvsStore
begin

text \<open>
  The files of records from one day to the next: what is written as a record is what is sent on the
  following day.
\<close>

section \<open>Names\<close>

text \<open>The name of the file depends on the day only.\<close>

lemma localtime_date:
  assumes "t div 86400 = t' div 86400"
  shows "format_date (localtime t) = format_date (localtime t')"
  using assms by (simp add: localtime_def format_date_def Let_def split: prod.split)

lemma YesterdayAsString_day:
  assumes "0 \<le> t" and "t' < 2 ^ 31" and "t' div 86400 = t div 86400 + 1"
  shows "YesterdayAsString t' = DateNowAsString t"
proof -
  have "0 \<le> t div 86400" using assms(1) by (simp add: pos_imp_zdiv_nonneg_iff)
  then have t': "86400 \<le> t'"
    using assms(3) mult_div_mod_eq [of 86400 t'] pos_mod_sign [of 86400 t'] by linarith
  have d: "(t' - 86400) div 86400 = t div 86400"
    using assms(3) div_add_self2 [of "86400 :: int" "t' - 86400"] by simp
  show ?thesis
    using mktime_day_before [OF t' assms(2)] localtime_date [OF d]
    by (simp add: YesterdayAsString_def yesterday_to_string_def DateNowAsString_def date_to_string_def Let_def)
qed

section \<open>Writing\<close>

definition record_ok :: "string \<Rightarrow> bool" where
  "record_ok r \<longleftrightarrow> r \<noteq> [] \<and> length r < 255 \<and> CHR 0x00 \<notin> set r \<and> list_all is_valid_char r"

lemma newline_invalid: "\<not> is_valid_char newline"
  by code_simp

lemma record_okD:
  assumes "record_ok r"
  shows "c_str r = r" "newline \<notin> set r" "length r < 255" "CHR 0x00 \<notin> set r" "filter is_valid_char r = r"
  using assms newline_invalid by (auto simp: record_ok_def list_all_iff filter_id_conv)

definition records_text :: "string list \<Rightarrow> string" where
  "records_text rs = concat (map (\<lambda>r. r @ [newline]) rs)"

lemma fgets_lines_records:
  "list_all record_ok rs \<Longrightarrow> fgets_lines (records_text rs) = map (\<lambda>r. r @ [newline]) rs"
  by (induction rs) (simp_all add: records_text_def fgets_lines_line record_okD)

definition file_content :: "string \<Rightarrow> ('n, 'a) app_scheme \<Rightarrow> string" where
  "file_content fn s = (case d_files (a_disk s) fn of None \<Rightarrow> [] | Some c \<Rightarrow> c)"

lemma db_write_record_file:
  assumes "can_write fn (a_disk s)" and "fn = db_file_name (DateNowAsString (clock_now s))" and "record_ok r"
  shows "d_files (a_disk (db_write_record r s)) fn = Some (file_content fn s @ r @ [newline])"
    and "can_write fn (a_disk (db_write_record r s))"
    and "clock_now (db_write_record r s) = clock_now s"
proof -
  define s1 where "s1 = today_name (db_dir s)"
  have s1: "clock_now s1 = clock_now s" "d_files (a_disk s1) = d_files (a_disk s)"
    "can_write fn (a_disk s1)" "current_data_file_name s1 = fn"
    using assms(1,2)
    by (auto simp: s1_def today_name_def db_dir_def clock_now_def get_time_stamp_def make_dir_def can_write_def)
  then show "d_files (a_disk (db_write_record r s)) fn = Some (file_content fn s @ r @ [newline])"
    "can_write fn (a_disk (db_write_record r s))" "clock_now (db_write_record r s) = clock_now s"
    using record_okD(1) [OF assms(3)]
    by (simp_all add: db_write_record_def s1_def [symmetric] append_file_def file_content_def can_write_def
        clock_now_def get_time_stamp_def)
qed

lemma db_write_records:
  assumes "can_write fn (a_disk s)" and "fn = db_file_name (DateNowAsString (clock_now s))" and "list_all record_ok rs"
    and "rs \<noteq> []"
  shows "d_files (a_disk (fold db_write_record rs s)) fn = Some (file_content fn s @ records_text rs)"
  using assms
proof (induction rs arbitrary: s)
  case (Cons r rs)
  note w = db_write_record_file [OF Cons.prems(1,2), of r]
  have r: "record_ok r" "list_all record_ok rs" using Cons.prems(3) by simp_all
  show ?case
  proof (cases "rs = []")
    case True
    then show ?thesis using w(1) [OF r(1)] by (simp add: records_text_def)
  next
    case False
    have "fn = db_file_name (DateNowAsString (clock_now (db_write_record r s)))"
      using w(3) [OF r(1)] Cons.prems(2) by simp
    from Cons.IH [OF w(2) [OF r(1)] this r(2) False] show ?thesis
      using w(1) [OF r(1)] by (simp add: file_content_def records_text_def)
  qed
qed simp

section \<open>Sending\<close>

text \<open>The records one after the other, each up to four times.\<close>

fun send_records :: "'n nvs_api \<Rightarrow> string list \<Rightarrow> ('n, 'a) app_scheme \<Rightarrow> (unit, ('n, 'a) app_scheme) run" where
  "send_records api [] s = Ret () s"
| "send_records api (r # rs) s = then_run (send_tries api r 3 s) (\<lambda>_. send_records api rs)"

lemma clear_record:
  assumes "record_ok r"
  shows "\<exists>b. clear_string (c_str (r @ [newline]) @ [CHR 0x00]) = Some b \<and> c_str b = r"
proof -
  have n: "CHR 0x00 \<notin> set (r @ [newline])" using record_okD(4) [OF assms] by (simp add: newline_def)
  from clear_loop_correct [OF n, of "(r @ [newline]) @ [CHR 0x00]" "[]" "[]" "[]"]
  obtain t where "clear_loop ((r @ [newline]) @ [CHR 0x00]) 0 0 = Some (filter is_valid_char (r @ [newline]) @ CHR 0x00 # t)"
    by auto
  then show ?thesis using n record_okD(4,5) [OF assms] newline_invalid
    by (simp add: clear_string_def c_str_append_nul)
qed

lemma sync_lines_records:
  fixes s :: "('n, 'a) app_scheme"
  assumes "list_all record_ok rs"
  shows "sync_lines api (map (\<lambda>r. r @ [newline]) rs) s = send_records api rs s"
  using assms
proof (induction rs arbitrary: s)
  case (Cons r rs)
  then obtain b where b: "clear_string (c_str (r @ [newline]) @ [CHR 0x00]) = Some b" "c_str b = r"
    using clear_record [of r] by auto
  have "r \<noteq> []" using Cons.prems by (simp add: record_ok_def)
  moreover have "sync_lines api (map (\<lambda>r. r @ [newline]) rs) t = send_records api rs t" for t :: "('n, 'a) app_scheme"
    using Cons.IH Cons.prems by simp
  then have "sync_lines api (map (\<lambda>r. r @ [newline]) rs) = (send_records api rs :: ('n, 'a) app_scheme \<Rightarrow> _)"
    by (rule ext)
  ultimately show ?case using b by simp
qed simp

section \<open>Properties\<close>

text \<open>C5: the records that are written to the file of one day are the ones that are sent on the next day,
  each in order and at most four times, across the ends of months and years; and afterwards the file is
  put aside whether or not the server accepted them.\<close>

theorem db_day_roundtrip:
  fixes s s' :: "('n, 'a) app_scheme"
  defines "fn \<equiv> db_file_name (DateNowAsString (clock_now s))"
  assumes "list_all record_ok rs" and "rs \<noteq> []" and "d_files (a_disk s) fn = None" and "can_write fn (a_disk s)"
    and "a_disk s' = a_disk (fold db_write_record rs s)"
    and "0 \<le> clock_now s" and "clock_now s' < 2 ^ 31" and "clock_now s' div 86400 = clock_now s div 86400 + 1"
    and "global_current_day s' \<noteq> get_day_of_month (clock_now s')"
  shows "db_sync api s' = then_run (send_records api rs s') (\<lambda>_ t.
    Ret () (t\<lparr>a_disk := rename_file fn (syn_file_name (YesterdayAsString (clock_now t))) (a_disk t),
              global_current_day := get_day_of_month (clock_now s')\<rparr>))"
proof -
  have y: "db_file_name (YesterdayAsString (clock_now s')) = fn"
    using YesterdayAsString_day [OF assms(7,8,9)] by (simp add: fn_def)
  have "d_files (a_disk s') fn = Some (records_text rs)"
    using db_write_records [OF assms(5) _ assms(2,3)] assms(4,6) by (simp add: fn_def file_content_def)
  then show ?thesis
    using assms(10) by (simp add: then_run_assoc db_sync_def Let_def y fgets_lines_records [OF assms(2)] sync_lines_records [OF assms(2)])
qed

theorem db_day_roundtrip_witness:
  "let s = (sample_app (sample_store Map.empty) sample_disk)\<lparr>a_clock := 1551398399000\<rparr>;
       s' = (fold db_write_record [''B17|5'', ''D30|6''] s)\<lparr>a_clock := 1551398400000\<rparr>
   in db_sync map_nvs s' = then_run (send_records map_nvs [''B17|5'', ''D30|6''] s') (\<lambda>_ t.
        Ret () (t\<lparr>a_disk := rename_file ''/sdcard/db/20190228.txt'' (syn_file_name (YesterdayAsString (clock_now t))) (a_disk t),
                  global_current_day := 1\<rparr>))"
proof -
  define s where "s = (sample_app (sample_store Map.empty) sample_disk)\<lparr>a_clock := 1551398399000\<rparr>"
  define s' where "s' = (fold db_write_record [''B17|5'', ''D30|6''] s)\<lparr>a_clock := 1551398400000\<rparr>"
  have w: "w_now (db_write_record r t) = w_now t" "global_current_day (db_write_record r t) = global_current_day t"
    for r and t :: "store app"
    by (simp_all add: db_write_record_def today_name_def db_dir_def Let_def)
  have c: "clock_now s = 1551398399" "clock_now s' = 1551398400"
    by (simp_all add: s_def s'_def clock_now_def get_time_stamp_def w sample_app_def long32_id)
  have fn: "db_file_name (DateNowAsString (clock_now s)) = ''/sdcard/db/20190228.txt''"
    and day: "get_day_of_month (clock_now s') = 1" unfolding c by code_simp+
  have ok: "list_all record_ok [''B17|5'', ''D30|6'']" by code_simp
  have dir: "dir_of ''/sdcard/db/20190228.txt'' = ''/sdcard/db''" by code_simp
  have "db_sync map_nvs s' = then_run (send_records map_nvs [''B17|5'', ''D30|6''] s') (\<lambda>_ t.
        Ret () (t\<lparr>a_disk := rename_file (db_file_name (DateNowAsString (clock_now s)))
                    (syn_file_name (YesterdayAsString (clock_now t))) (a_disk t),
                  global_current_day := get_day_of_month (clock_now s')\<rparr>))"
    by (rule db_day_roundtrip)
      (use ok in \<open>simp_all add: c fn [unfolded c] day [unfolded c] can_write_def dir\<close>,
       simp_all add: s_def s'_def sample_app_def sample_disk_def w)
  from this [unfolded fn day] show ?thesis unfolding s'_def s_def Let_def .
qed

end
