(* ===== verification/Firmware_Device.thy ===== *)
theory Firmware_Device
  imports Firmware_Props
begin

text \<open>
  The name of the device, the image that the update from the memory card writes, and what it means
  that the server has accepted a message.
\<close>

section \<open>The name\<close>

lemma hex_digit_upper_inj: "i < 16 \<Longrightarrow> j < 16 \<Longrightarrow> hex_digit_upper i = hex_digit_upper j \<longleftrightarrow> i = j"
proof -
  have d: "distinct ''0123456789ABCDEF''" by simp
  show "i < 16 \<Longrightarrow> j < 16 \<Longrightarrow> ?thesis" unfolding hex_digit_upper_def by (rule nth_eq_iff_index_eq [OF d]) simp_all
qed

lemma hex_02X_inj: "hex_02X b = hex_02X c \<longleftrightarrow> b = c"
proof
  assume e: "hex_02X b = hex_02X c"
  have "unat b div 16 < 16" "unat c div 16 < 16" using unat_u8 [of b] unat_u8 [of c] by (simp_all add: less_mult_imp_div_less)
  then have "unat b div 16 = unat c div 16" "unat b mod 16 = unat c mod 16"
    using e by (simp_all add: hex_02X_def hex_digit_upper_inj)
  then have "unat b = unat c" by (metis div_mult_mod_eq)
  then show "b = c" by (simp add: word_unat_eq_iff)
qed simp

lemma hex_bytes_inj:
  "length m = length m' \<Longrightarrow> concat (map hex_02X m) = concat (map hex_02X m') \<longleftrightarrow> m = m'"
proof (induction m m' rule: list_induct2)
  case (Cons b m c m')
  have "hex_02X b @ x = hex_02X c @ y \<longleftrightarrow> b = c \<and> x = y" for x y
    using hex_02X_inj [of b c] by (auto simp: hex_02X_def)
  then show ?case using Cons.IH by simp
qed simp

lemma length_hex_bytes: "length (concat (map hex_02X m)) = 2 * length m"
  by (induction m) (simp_all add: hex_02X_def)

text \<open>The name of a device adds twelve hexadecimal digits to its prefix, and different addresses give
  different names.\<close>

theorem generate_id_unique:
  assumes "length m = 6" and "length m' = 6"
  shows "length (id_controller (generate_id (Some m) s)) = length (id_controller s) + 12 \<and>
    (id_controller (generate_id (Some m) s) = id_controller (generate_id (Some m') s) \<longleftrightarrow> m = m')"
  using assms hex_bytes_inj [of m m'] length_hex_bytes [of m] by (simp add: generate_id_def)

theorem generate_id_unique_witness:
  "id_controller (generate_id (Some [0x24, 0x0A, 0xC4, 0, 1, 2]) (sample_app (sample_store Map.empty) sample_disk)) \<noteq>
   id_controller (generate_id (Some [0x24, 0x0A, 0xC4, 0, 1, 3]) (sample_app (sample_store Map.empty) sample_disk))"
  using generate_id_unique [of "[0x24, 0x0A, 0xC4, 0, 1, 2]" "[0x24, 0x0A, 0xC4, 0, 1, 3]"
      "sample_app (sample_store Map.empty) sample_disk"] by simp

section \<open>The image\<close>

lemma ota_sd_loop_image:
  assumes "length buf = OTA_SD_BUFFER_SIZE" and "\<And>log. ota_write log = ESP_OK"
  shows "\<exists>chunks pad. ota_sd_loop ota_write handle buf img log = Ret (log @ chunks) (log @ chunks) \<and>
    concat (map snd chunks) = img @ pad \<and> length pad < OTA_SD_BUFFER_SIZE \<and>
    (\<forall>c \<in> set chunks. fst c = handle \<and> length (snd c) = OTA_SD_BUFFER_SIZE) \<and>
    (buf = replicate OTA_SD_BUFFER_SIZE CHR 0x00 \<or> OTA_SD_BUFFER_SIZE \<le> length img \<longrightarrow>
       pad = replicate (length pad) CHR 0x00)"
  using assms(1)
proof (induction "length img" arbitrary: img buf log rule: less_induct)
  case less
  let ?n = OTA_SD_BUFFER_SIZE
  have n: "0 < ?n" by (simp add: OTA_SD_BUFFER_SIZE_def)
  let ?c = "(handle, take ?n img @ drop (length (take ?n img)) buf)"
  show ?case
  proof (cases "img = []")
    case True
    then show ?thesis using n by (intro exI [of _ "[]"]) (simp add: ota_sd_loop.simps)
  next
    case False
    then have lt: "length (drop ?n img) < length img" using n by simp
    have step: "ota_sd_loop ota_write handle buf img log =
        ota_sd_loop ota_write handle (replicate ?n CHR 0x00) (drop ?n img) (log @ [?c])"
      using False assms(2) by (subst ota_sd_loop.simps) simp
    obtain chunks pad where IH:
      "ota_sd_loop ota_write handle (replicate ?n CHR 0x00) (drop ?n img) (log @ [?c]) =
        Ret ((log @ [?c]) @ chunks) ((log @ [?c]) @ chunks)"
      "concat (map snd chunks) = drop ?n img @ pad" "length pad < ?n"
      "\<forall>c \<in> set chunks. fst c = handle \<and> length (snd c) = ?n" "pad = replicate (length pad) CHR 0x00"
      using less.hyps [OF lt, of "replicate ?n CHR 0x00" "log @ [?c]"] by auto
    show ?thesis
    proof (cases "?n \<le> length img")
      case True
      then have "drop (length (take ?n img)) buf = []" using less.prems by simp
      then show ?thesis using IH step True by (intro exI [of _ "?c # chunks"] exI [of _ pad]) (auto simp: append_take_drop_id)
    next
      case short: False
      then have c: "?c = (handle, img @ drop (length img) buf)" "drop ?n img = []" by simp_all
      have "chunks = []"
        using IH(1) c(2) by (simp add: ota_sd_loop.simps)
      then show ?thesis using IH(1) step c short False less.prems n
        by (intro exI [of _ "[?c]"] exI [of _ "drop (length img) buf"]) auto
    qed
  qed
qed

text \<open>C33: the update from the memory card writes, when no write fails, the file in pieces of 4096 bytes; the
  last piece is filled up, with zeros when the file has at least 4096 bytes. With a valid image the
  device restarts and the file is gone from its place; otherwise the file stays and the boot goes on.\<close>

theorem ota_sd_image:
  assumes "has_sd_card d" and "d_files d OTA_SD_FILE_NAME = Some img" and "\<And>log. ota_write log = ESP_OK"
    and "length mem = 4096" and "d_open d OTA_SD_FILE_NAME"
  shows "\<exists>log pad d'. concat (map snd log) = img @ pad \<and> length pad < 4096 \<and>
    (\<forall>c \<in> set log. fst c = handle \<and> length (snd c) = 4096) \<and>
    (4096 \<le> length img \<longrightarrow> pad = replicate (length pad) CHR 0x00) \<and>
    ota_from_sd_card (Some handle) ota_write ota_end set_boot mem d =
      (if ota_end log \<and> set_boot log then Reboot (log, d') else Ret log (log, d)) \<and>
    d_files d' OTA_SD_FILE_NAME = None"
proof -
  have mem: "length (take OTA_SD_BUFFER_SIZE mem) = OTA_SD_BUFFER_SIZE" "take OTA_SD_BUFFER_SIZE mem = mem"
    using assms(4) by (simp_all add: OTA_SD_BUFFER_SIZE_def)
  obtain log pad where l: "ota_sd_loop ota_write handle mem img [] = Ret log log"
    "concat (map snd log) = img @ pad" "length pad < OTA_SD_BUFFER_SIZE"
    "\<forall>c \<in> set log. fst c = handle \<and> length (snd c) = OTA_SD_BUFFER_SIZE"
    "OTA_SD_BUFFER_SIZE \<le> length img \<longrightarrow> pad = replicate (length pad) CHR 0x00"
    using ota_sd_loop_image [OF mem(1), where ota_write = ota_write and handle = handle and img = img and log = "[]"] assms(3) mem(2) by auto
  define d' where "d' = d\<lparr>d_files := (d_files d)(OTA_SD_FILE_NAME := None)\<rparr>"
  have "ota_from_sd_card (Some handle) ota_write ota_end set_boot mem d =
      (if ota_end log \<and> set_boot log then Reboot (log, d') else Ret log (log, d))"
    using assms(1,2,5) l(1) by (simp add: ota_from_sd_card_def mem(2) remove_file_def d'_def)
  moreover have "d_files d' OTA_SD_FILE_NAME = None" by (simp add: d'_def)
  ultimately show ?thesis using l(2-5) unfolding OTA_SD_BUFFER_SIZE_def by blast
qed

theorem ota_sd_image_witness:
  "\<exists>log pad d'. concat (map snd log) = replicate 5000 CHR ''x'' @ pad \<and> length pad < 4096 \<and>
    (\<forall>c \<in> set log. fst c = 7 \<and> length (snd c) = 4096) \<and>
    (4096 \<le> length (replicate 5000 CHR ''x'') \<longrightarrow> pad = replicate (length pad) CHR 0x00) \<and>
    ota_from_sd_card (Some 7) (\<lambda>_. 0) (\<lambda>_. True) (\<lambda>_. True) (replicate 4096 CHR ''?'')
        (sample_disk\<lparr>d_files := (\<lambda>_. None)(OTA_SD_FILE_NAME := Some (replicate 5000 CHR ''x''))\<rparr>) =
      (if True \<and> True then Reboot (log, d') else Ret log (log,
        sample_disk\<lparr>d_files := (\<lambda>_. None)(OTA_SD_FILE_NAME := Some (replicate 5000 CHR ''x''))\<rparr>)) \<and>
    d_files d' OTA_SD_FILE_NAME = None"
  by (rule ota_sd_image) (simp_all add: sample_disk_def ESP_OK_def)

section \<open>Accepted messages\<close>

lemma HTTP_read_out:
  assumes "HTTP_read n junk s = (r, d, s')"
  shows "w_out s' = w_out s @ ''AT+HTTPREAD'' @ crlf"
proof -
  let ?p = "println_text ''AT+HTTPREAD'' s"
  obtain ok vs s1 where e: "expect_scan 1 ''+HTTPREAD: %lu'' 5000 ?p = (ok, vs, s1)" by (metis prod_cases3)
  have o1: "w_out s1 = w_out s @ ''AT+HTTPREAD'' @ crlf" using sim_reads_out [OF expect_scan_reads [OF e]] by simp
  have rd: "w_out s3 = w_out s2" if "sim_read k s2 = (b, s3)" for k b s3 and s2 :: "'a sim800_scheme"
    using that sim_reads_out [OF reads_only_sim [OF readBytes_reads_only]] unfolding sim_read_def by blast
  show ?thesis using assms e o1
    by (auto simp: HTTP_read_def Let_def split: if_splits prod.splits dest!: rd expect_OK_out)
qed

lemma posted_200_out:
  assumes "HTTP_post url data sz s = Some (200, s1)"
  shows "w_out s1 = w_out s @ concat (post_steps url data sz)"
proof (rule HTTP_post_cases [of url data sz s])
  fix k st t
  assume "HTTP_post url data sz s = Some (st, t)" "(k, st) \<in> set post_errors"
  then show ?thesis using assms by (auto simp: post_errors_def)
next
  fix t
  assume "HTTP_post url data sz s = post_end (action_loop t)" and t: "w_out t = w_out s @ concat (post_steps url data sz)"
  then obtain vs where v: "action_loop t = Some (vs, s1)" using assms by (auto simp: post_end_def split: option.splits)
  show ?thesis using action_loop_out [OF v] t by simp
qed

text \<open>The address to which a message goes.\<close>

definition message_url :: "string \<Rightarrow> string \<Rightarrow> string" where
  "message_url data ty = WEB_URL_API @ ''/'' @ (if ty = [] then data_type data else ty)"

text \<open>C1: a message counts as accepted exactly when its request had the status 200, the answer could be read
  and accepts it; and then it went out in one complete request, with its whole text and to the address
  of its kind.\<close>

theorem accepted_means_sent:
  "gsm_send_http api data ty s = Ret True s' \<longleftrightarrow>
    (\<exists>s1 r buffer. HTTP_post (message_url data ty) data (of_nat (length data)) s = Some (200, s1) \<and>
       HTTP_read 16 (of_nat (uninit s1)) s1 = (r, buffer, s') \<and> r \<noteq> - 1 \<and> answer_accepted buffer \<and>
       w_out s' = w_out s @ concat (post_steps (message_url data ty) data (of_nat (length data))) @ ''AT+HTTPREAD'' @ crlf)"
  (is "_ \<longleftrightarrow> ?sent")
proof
  have url: "WEB_URL_API @ ''/'' @ (if ty \<noteq> [] then ty else data_type data) = message_url data ty"
    by (simp add: message_url_def)
  have http: "\<not> http_critical_status < 200" by (simp add: http_critical_status_def)
  show ?sent if sent: "gsm_send_http api data ty s = Ret True s'"
  proof -
    obtain st s1 where q: "gsm_post (message_url data ty) data s = Ret st s1"
      and "(if st > http_critical_status then
          then_run (gsm_post (message_url data ty) data s1) (\<lambda>status s.
            if status > http_critical_status then then_run (gsm_restart api s) (\<lambda>_. Ret False)
            else Ret False s)
        else if st = 200 then gsm_read_answer api s1
        else Ret False s1) = Ret True s'"
      using sent unfolding gsm_send_http_def url Let_def then_run_Ret [of "gsm_post _ _ s"] by blast
    then have a: "gsm_read_answer api s1 = Ret True s'" and st: "st = 200"
      using gsm_restart_no_return by (auto simp: then_run_Ret split: if_splits)
    have p: "HTTP_post (message_url data ty) data (of_nat (length data)) s = Some (200, s1)"
      using q by (simp add: gsm_post_def st)
    obtain r b s2 where rd: "HTTP_read 16 (of_nat (uninit s1)) s1 = (r, b, s2)" by (metis prod_cases3)
    have "answer_accepted b" "s2 = s'" "r \<noteq> - 1"
      using a rd gsm_restart_no_return by (auto simp: gsm_read_answer_def then_run_Ret split: if_splits)
    then show ?thesis using p rd HTTP_read_out [OF rd] posted_200_out [OF p] by auto
  qed
  show "gsm_send_http api data ty s = Ret True s'" if ?sent
    using that http unfolding gsm_send_http_def url
    by (auto simp: Let_def gsm_post_def run_option_def gsm_read_answer_def)
qed

end
