(* ===== verification/Firmware_Update.thy ===== *)
theory Firmware_Update
  imports Firmware_Device SimClient
begin

text \<open>
  The download of a new firmware (\<open>update_over_gsm_http\<close> in \<open>src/main/main.cpp\<close>). It uses both drivers on
  the same serial port: the modem driver connects, then a \<open>TinyGsm\<close> object and its client fetch the
  file, which goes to the memory card, and the device restarts. At the next start the update from the
  memory card writes it to the flash.

  The object of the second driver lives in the function: its state (\<open>gsm\<close>) is created from the port and
  dropped at the end. A poll of the client that finds nothing takes one millisecond, as a poll of the
  port does.
\<close>

section \<open>The second driver on the port\<close>

definition mdm_of :: "'a world_scheme \<Rightarrow> gsm" where
  "mdm_of s = \<lparr>w_now = w_now s, w_in = w_in s, w_out = w_out s, sockets = replicate TINY_GSM_MUX_COUNT None\<rparr>"

definition port_of :: "gsm \<Rightarrow> 'a world_scheme \<Rightarrow> 'a world_scheme" where
  "port_of g s = s\<lparr>w_now := w_now g, w_in := w_in g, w_out := w_out g\<rparr>"

text \<open>A new client: its buffer is empty, the other fields are set by \<open>init\<close>.\<close>

definition new_client :: "char list \<Rightarrow> client" where
  "new_client mem = \<lparr>cl_mux = 0, cl_available = 0, cl_prev_check = 0, cl_connected = False, cl_got_data = False,
     cl_rx = \<lparr>fifo_b = take TINY_GSM_RX_BUFFER mem, fifo_w = 0, fifo_r = 0\<rparr>, cl_waits = 2000\<rparr>"

text \<open>\<open>Stream::timedRead\<close> and \<open>readStringUntil\<close> on the client, whose \<open>read\<close> talks to the modem.\<close>

partial_function (option) client_timed_loop :: "u32 \<Rightarrow> u8 \<Rightarrow> gsm \<Rightarrow> (char option \<times> gsm) option" where
  "client_timed_loop start mux g =
     (case client_read_byte mux g of
        None \<Rightarrow> None
      | Some (c, g) \<Rightarrow>
          if c \<noteq> None then Some (c, g)
          else if millis g - start < stream_timeout then client_timed_loop start mux (idle_poll g)
          else Some (None, g))"

declare client_timed_loop.simps [code]

definition client_timedRead :: "u8 \<Rightarrow> gsm \<Rightarrow> (char option \<times> gsm) option" where
  "client_timedRead mux g = client_timed_loop (millis g) mux g"

partial_function (option) client_until_loop :: "char \<Rightarrow> string \<Rightarrow> u8 \<Rightarrow> gsm \<Rightarrow> (string \<times> gsm) option" where
  "client_until_loop terminator ret mux g =
     (case client_timedRead mux g of
        None \<Rightarrow> None
      | Some (None, g) \<Rightarrow> Some (ret, g)
      | Some (Some c, g) \<Rightarrow>
          if c = terminator then Some (ret, g) else client_until_loop terminator (ret @ [c]) mux g)"

declare client_until_loop.simps [code]

definition client_readStringUntil :: "char \<Rightarrow> u8 \<Rightarrow> gsm \<Rightarrow> (string \<times> gsm) option" where
  "client_readStringUntil terminator mux g = client_until_loop terminator [] mux g"

section \<open>The transfer\<close>

definition REMOTE_PORT :: u16 where "REMOTE_PORT = 80"
definition OTA_BUFFSIZE :: u32 where "OTA_BUFFSIZE = 1460"

definition update_request :: "string \<Rightarrow> string" where
  "update_request dev =
     ''GET /api/firmware/'' @ FIRMWARE_VERSION @ ''/'' @ dev @ ''.bin HTTP/1.0'' @ [newline] @ ''Host:'' @ REMOTE_HOST @
     [newline] @ ''Connection:keep-alive'' @ [newline, newline]"

text \<open>The wait for the first data; \<open>False\<close> after five seconds.\<close>

partial_function (option) wait_data :: "u32 \<Rightarrow> u8 \<Rightarrow> gsm \<Rightarrow> (bool \<times> gsm) option" where
  "wait_data timeout mux g =
     (case client_available mux g of
        None \<Rightarrow> None
      | Some (n, g) \<Rightarrow>
          if n \<noteq> 0 then Some (True, g)
          else if millis g - timeout > 5000 then Some (False, g)
          else wait_data timeout mux (idle_poll g))"

declare wait_data.simps [code]

text \<open>Connecting, asking for the file and waiting: \<open>Inl\<close> when the function gives up.\<close>

definition update_open :: "string \<Rightarrow> char list \<Rightarrow> gsm \<Rightarrow> (gsm + gsm) option" where
  "update_open dev mem g =
     (case client_init 0 (new_client mem) (snd (factoryDefault g)) of
        None \<Rightarrow> None
      | Some g \<Rightarrow>
          (case client_connect 0 REMOTE_HOST REMOTE_PORT g of
             None \<Rightarrow> None
           | Some (c, g) \<Rightarrow>
               if \<not> c then Some (Inl g)
               else (case client_write 0 (update_request dev) g of
                  None \<Rightarrow> None
                | Some (n, g) \<Rightarrow>
                    (case wait_data (millis g) 0 g of
                       None \<Rightarrow> None
                     | Some (True, g) \<Rightarrow> Some (Inr g)
                     | Some (False, g) \<Rightarrow> map_option (\<lambda>g. Inl (delay 10000 g)) (client_stop 0 g)))))"

text \<open>The header: its last content length is kept; an empty line ends it.\<close>

definition content_length :: "string \<Rightarrow> u32" where
  "content_length line =
     of_int (str_toInt (str_substring line (nat (str_lastIndexOf_char line (CHR '':'') + 1)) (length line)))"

partial_function (option) http_header :: "u8 \<Rightarrow> u32 \<Rightarrow> gsm \<Rightarrow> (u32 \<times> gsm) option" where
  "http_header mux len g =
     (case client_available mux g of
        None \<Rightarrow> None
      | Some (n, g) \<Rightarrow>
          if n = 0 then Some (len, g)
          else (case client_readStringUntil newline mux g of
             None \<Rightarrow> None
           | Some (line, g) \<Rightarrow>
               (let line = str_toLowerCase (str_trim line)
                in if str_startsWith line ''content-length:'' then http_header mux (content_length line) g
                   else if line = [] then Some (len, g)
                   else http_header mux len g)))"

declare http_header.simps [code]

text \<open>
  The body. The inner loop takes what is there: the bytes go to the file (the missing byte \<open>-1\<close> as
  \<open>0xFF\<close>), \<open>iteration\<close> counts up to the size of a block, \<open>iterations\<close> counts whole blocks; what is
  left of a block is added when nothing more is there.
\<close>

partial_function (option) body_bytes ::
    "u8 \<Rightarrow> string \<Rightarrow> u32 \<Rightarrow> u32 \<Rightarrow> gsm \<Rightarrow> (string \<times> u32 \<times> u32 \<times> gsm) option" where
  "body_bytes mux body iterations iteration g =
     (case client_available mux g of
        None \<Rightarrow> None
      | Some (n, g) \<Rightarrow>
          if n = 0 then Some (body, iterations, iteration, g)
          else (case client_read_byte mux g of
             None \<Rightarrow> None
           | Some (c, g) \<Rightarrow>
               (let body = body @ [case c of None \<Rightarrow> CHR 0xFF | Some c \<Rightarrow> c]
                in if iteration = OTA_BUFFSIZE - 1
                   then body_bytes mux body (iterations + OTA_BUFFSIZE) 0 g
                   else body_bytes mux body iterations (iteration + 1) g)))"

declare body_bytes.simps [code]

partial_function (option) body_loop ::
    "u8 \<Rightarrow> u32 \<Rightarrow> string \<Rightarrow> u32 \<Rightarrow> gsm \<Rightarrow> (string \<times> u32 \<times> gsm) option" where
  "body_loop mux len body iterations g =
     (if iterations < len then
        (case client_connected mux g of
           None \<Rightarrow> None
         | Some (c, g) \<Rightarrow>
             if \<not> c then Some (body, iterations, g)
             else (case body_bytes mux body iterations 0 g of
                None \<Rightarrow> None
              | Some (body, iterations, iteration, g) \<Rightarrow>
                  if iteration > 0 then body_loop mux len body (iterations + iteration) g
                  else body_loop mux len body iterations (idle_poll g)))
      else Some (body, iterations, g))"

declare body_loop.simps [code]

text \<open>
  The whole function. The file is opened, and emptied, before anything is asked; when that failed the
  first access to it stops the device. What is written gets to the card when the file is closed. On the early
  returns the file stays open and the download pending.
\<close>

definition update_over_gsm_http ::
    "(u16 \<Rightarrow> string) \<Rightarrow> char list \<Rightarrow> ('n, 'a) app_scheme \<Rightarrow> (unit, ('n, 'a) app_scheme) run" where
  "update_over_gsm_http junk mem s =
     (let (ok, s) = sim_connect REMOTE_HOST REMOTE_PORT 30000 0 junk s
      in if \<not> ok then Ret () (s\<lparr>download_firmware := False\<rparr>)
         else
           (let (opened, d) = create_file OTA_SD_FILE_NAME [] (a_disk s);
                s = s\<lparr>a_disk := d\<rparr>
            in case update_open (id_controller s) mem (mdm_of s) of
                 None \<Rightarrow> Stuck
               | Some (Inl g) \<Rightarrow> Ret () (port_of g s)
               | Some (Inr g) \<Rightarrow>
                   (case http_header 0 0 g of
                      None \<Rightarrow> Stuck
                    | Some (len, g) \<Rightarrow>
                        (case body_loop 0 len [] 0 g of
                           None \<Rightarrow> Stuck
                         | Some (body, iterations, g) \<Rightarrow>
                             if \<not> opened then Stuck
                             else
                               (let s = port_of g (s\<lparr>a_disk := snd (append_file OTA_SD_FILE_NAME body (a_disk s))\<rparr>)
                                in if iterations = len then Reboot (snd (shutdown True s))
                                   else Ret () ((snd (sim_disconnect 0 s))\<lparr>download_firmware := False\<rparr>))))))"


section \<open>What is counted\<close>

text \<open>The counters add up to the number of bytes that went to the file, as 32-bit numbers.\<close>

lemma body_bytes_count:
  assumes "body_bytes mux body iterations iteration g = Some (body', iterations', iteration', g')"
  shows "\<exists>x. body' = body @ x \<and> iterations' + iteration' = iterations + iteration + of_nat (length x)"
proof -
  let ?P = "\<lambda>(mux :: u8) (body :: string) (iterations :: u32) (iteration :: u32) (g :: gsm) r.
    \<exists>x. fst r = body @ x \<and> fst (snd r) + fst (snd (snd r)) = iterations + iteration + of_nat (length x)"
  have "?P mux body iterations iteration g (body', iterations', iteration', g')"
  proof (rule body_bytes.raw_induct [where P = ?P, OF _ assms])
    fix loop and mux :: u8 and body :: string and iterations iteration :: u32 and g :: gsm
      and r :: "string \<times> u32 \<times> u32 \<times> gsm"
    assume IH: "\<And>mux body iterations iteration g r. loop mux body iterations iteration g = Some r \<Longrightarrow>
        ?P mux body iterations iteration g r"
      and eq: "(case client_available mux g of
          None \<Rightarrow> None
        | Some (n, g) \<Rightarrow>
            if n = 0 then Some (body, iterations, iteration, g)
            else (case client_read_byte mux g of
               None \<Rightarrow> None
             | Some (c, g) \<Rightarrow>
                 (let body = body @ [case c of None \<Rightarrow> CHR 0xFF | Some c \<Rightarrow> c]
                  in if iteration = OTA_BUFFSIZE - 1
                     then loop mux body (iterations + OTA_BUFFSIZE) 0 g
                     else loop mux body iterations (iteration + 1) g))) = Some r"
    have step: "?P mux body iterations iteration g r"
      if p: "?P mux (body @ [c]) i j h r" and ij: "i + j = iterations + iteration + 1" for c i j h
    proof -
      obtain x where "fst r = (body @ [c]) @ x" "fst (snd r) + fst (snd (snd r)) = i + j + of_nat (length x)"
        using p by blast
      then show ?thesis using ij by (intro exI [of _ "c # x"]) simp
    qed
    obtain n h where a: "client_available mux g = Some (n, h)" using eq by (auto split: option.splits)
    show "?P mux body iterations iteration g r"
    proof (cases "n = 0")
      case True
      then show ?thesis using eq a by (intro exI [of _ "[]"]) auto
    next
      case False
      then obtain c k where c: "client_read_byte mux h = Some (c, k)" using eq a by (auto split: option.splits)
      let ?c = "case c of None \<Rightarrow> CHR 0xFF | Some c \<Rightarrow> c"
      show ?thesis
      proof (cases "iteration = OTA_BUFFSIZE - 1")
        case True
        then have "loop mux (body @ [?c]) (iterations + OTA_BUFFSIZE) 0 k = Some r"
          using eq a c False by simp
        from step [OF IH [OF this]] show ?thesis using True by simp
      next
        case f: False
        then have "loop mux (body @ [?c]) iterations (iteration + 1) k = Some r"
          using eq a c False by simp
        from step [OF IH [OF this]] show ?thesis by simp
      qed
    qed
  qed
  then show ?thesis by simp
qed

lemma body_loop_count:
  assumes "body_loop mux len body iterations g = Some (body', iterations', g')"
  shows "\<exists>x. body' = body @ x \<and> iterations' = iterations + of_nat (length x)"
proof -
  let ?P = "\<lambda>(mux :: u8) (len :: u32) (body :: string) (iterations :: u32) (g :: gsm) r.
    \<exists>x. fst r = body @ x \<and> fst (snd r) = iterations + of_nat (length x)"
  have "?P mux len body iterations g (body', iterations', g')"
  proof (rule body_loop.raw_induct [where P = ?P, OF _ assms])
    fix loop and mux :: u8 and len :: u32 and body :: string and iterations :: u32 and g :: gsm
      and r :: "string \<times> u32 \<times> gsm"
    assume IH: "\<And>mux len body iterations g r. loop mux len body iterations g = Some r \<Longrightarrow>
        ?P mux len body iterations g r"
      and eq: "(if iterations < len then
          (case client_connected mux g of
             None \<Rightarrow> None
           | Some (c, g) \<Rightarrow>
               if \<not> c then Some (body, iterations, g)
               else (case body_bytes mux body iterations 0 g of
                  None \<Rightarrow> None
                | Some (body, iterations, iteration, g) \<Rightarrow>
                    if iteration > 0 then loop mux len body (iterations + iteration) g
                    else loop mux len body iterations (idle_poll g)))
        else Some (body, iterations, g)) = Some r"
    show "?P mux len body iterations g r"
    proof (cases "iterations < len")
      case False
      then show ?thesis using eq by (intro exI [of _ "[]"]) auto
    next
      case True
      then obtain c h where c: "client_connected mux g = Some (c, h)" using eq by (auto split: option.splits)
      show ?thesis
      proof (cases c)
        case False
        then show ?thesis using eq c True by (intro exI [of _ "[]"]) auto
      next
        case t: True
        then obtain b i j k where b: "body_bytes mux body iterations 0 h = Some (b, i, j, k)"
          using eq c True by (auto split: option.splits)
        then obtain x where x: "b = body @ x" "i + j = iterations + of_nat (length x)"
          using body_bytes_count by fastforce
        have "?P mux len b (i + j) h r"
        proof (cases "j > 0")
          case j: True
          then have "loop mux len b (i + j) k = Some r" using eq c True t b by simp
          then show ?thesis by (rule IH)
        next
          case j: False
          then have "j = 0" by (simp add: word_gt_0)
          moreover have "loop mux len b i (idle_poll k) = Some r" using j eq c True t b by simp
          then have "?P mux len b i (idle_poll k) r" by (rule IH)
          ultimately show ?thesis by simp
        qed
        then obtain y where "fst r = b @ y" "fst (snd r) = i + j + of_nat (length y)" by auto
        then show ?thesis using x by (intro exI [of _ "x @ y"]) (simp add: add.assoc)
      qed
    qed
  qed
  then show ?thesis by simp
qed


section \<open>From the server to the flash\<close>

lemma port_of_disk [simp]: "a_disk (port_of g s) = a_disk s"
  by (simp add: port_of_def)

lemma mdm_of_disk [simp]: "mdm_of (s\<lparr>a_disk := d\<rparr>) = mdm_of s"
  by (simp add: mdm_of_def)

lemma kept_disk: "kept s' = kept s \<Longrightarrow> a_disk s' = a_disk s"
  by (cases s; cases s') (simp add: kept_def)

lemma shutdown_disk [simp]: "a_disk (snd (shutdown h s)) = a_disk s"
  by (rule kept_disk) (rule shutdown_kept)

lemma sim_disconnect_disk [simp]: "a_disk (snd (sim_disconnect c s)) = a_disk s"
  by (rule kept_disk) (simp add: sim_disconnect_def kept_simps)

text \<open>The two outcomes: what has happened to the card.\<close>

definition update_disk :: "string \<Rightarrow> disk \<Rightarrow> disk" where
  "update_disk body d = snd (append_file OTA_SD_FILE_NAME body (snd (create_file OTA_SD_FILE_NAME [] d)))"

lemma update_disk_others: "fn \<noteq> OTA_SD_FILE_NAME \<Longrightarrow> d_files (update_disk body d) fn = d_files d fn"
  by (simp add: update_disk_def append_file_def create_file_def)

lemma update_disk_file:
  assumes "fst (create_file OTA_SD_FILE_NAME [] d)"
  shows "d_files (update_disk body d) OTA_SD_FILE_NAME = Some body" "d_open (update_disk body d) = d_open d"
    "d_open d OTA_SD_FILE_NAME" "has_sd_card (update_disk body d) = has_sd_card d"
  using assms by (auto simp: update_disk_def append_file_def create_file_def can_write_def split: if_splits)

lemma update_outcome:
  fixes s :: "('n, 'a) app_scheme"
  assumes c: "sim_connect REMOTE_HOST REMOTE_PORT 30000 0 junk s = (ok, s1)"
  shows "run_wp (\<lambda>_ s'. \<exists>b. a_disk s' = a_disk s1 \<or> a_disk s' = snd (create_file OTA_SD_FILE_NAME [] (a_disk s1)) \<or>
        a_disk s' = update_disk b (a_disk s1))
    (\<lambda>s'. \<exists>g g' len body. update_open (id_controller s1) m (mdm_of s1) = Some (Inr g) \<and>
        http_header 0 0 g = Some (len, g') \<and> of_nat (length body) = len \<and>
        fst (create_file OTA_SD_FILE_NAME [] (a_disk s1)) \<and> a_disk s' = update_disk body (a_disk s1))
    (update_over_gsm_http junk m s)"
proof (cases ok)
  case True
  obtain opened d where d: "create_file OTA_SD_FILE_NAME [] (a_disk s1) = (opened, d)" by fastforce
  show ?thesis
  proof (cases "update_open (id_controller s1) m (mdm_of s1)")
    case (Some r)
    show ?thesis
    proof (cases r)
      case (Inl g)
      then show ?thesis using c True d Some by (simp add: update_over_gsm_http_def)
    next
      case (Inr g)
      show ?thesis
      proof (cases "http_header 0 0 g")
        case h: (Some lg)
        obtain len g1 where lg: "lg = (len, g1)" by fastforce
        show ?thesis
        proof (cases "body_loop 0 len [] 0 g1")
          case b: (Some q)
          obtain body its g2 where q: "q = (body, its, g2)" by (metis prod_cases3)
          then have "its = of_nat (length body)" using body_loop_count b by fastforce
          then show ?thesis using c True d Some Inr h lg b q
            by (auto simp: update_over_gsm_http_def update_disk_def Let_def)
        qed (use c True d Some Inr h lg in \<open>simp add: update_over_gsm_http_def\<close>)
      qed (use c True d Some Inr in \<open>simp add: update_over_gsm_http_def\<close>)
    qed
  qed (use c True d in \<open>simp add: update_over_gsm_http_def\<close>)
qed (use c in \<open>simp add: update_over_gsm_http_def\<close>)



end
